(* ===== verification/Prelude.thy ===== *)
theory Prelude
  imports Main "HOL-Library.Multiset"
begin

text \<open>
  Shared vocabulary of the development: the outcomes a C function can have
  (a value, or one of the ways it leaves defined behaviour or the process), the
  sequencing of such outcomes, the range of a C \<open>int\<close>, the result of one round of a
  \<open>while (1)\<close> loop, and the list lemmas that several components use.
\<close>

named_theorems res_simps \<open>unfolding of results and their sequencing\<close>

section \<open>Results of C code\<close>

text \<open>
  The ways the code stops other than by returning: a read through \<open>NULL\<close> or a dangling
  pointer, an index outside an array, the read of an uninitialised variable, signed
  overflow, division by zero, a failed \<open>assert\<close>, and a call of \<open>exit\<close>.
\<close>

datatype c_error =
    NullDeref
  | OutOfBounds
  | UninitRead
  | IntOverflow
  | DivByZero
  | AssertFail
  | Exit int

type_synonym 'a res = "c_error + 'a"

definition res_bind :: "'a res \<Rightarrow> ('a \<Rightarrow> 'b res) \<Rightarrow> 'b res" where
  "res_bind m f = (case m of Inl e \<Rightarrow> Inl e | Inr x \<Rightarrow> f x)"

lemma res_bind_simps [simp, res_simps]:
  "res_bind (Inl e) f = Inl e"
  "res_bind (Inr x) f = f x"
  by (simp_all add: res_bind_def)

lemma res_bind_cong [fundef_cong]:
  "m = m' \<Longrightarrow> (\<And>x. m' = Inr x \<Longrightarrow> f x = g x) \<Longrightarrow> res_bind m f = res_bind m' g"
  by (cases m') (auto simp: res_bind_def)

lemma res_bind_Inr_iff [res_simps]:
  "res_bind m f = Inr y \<longleftrightarrow> (\<exists>x. m = Inr x \<and> f x = Inr y)"
  by (cases m) (auto simp: res_bind_def)

lemma res_bind_InrE [elim!]:
  assumes "res_bind m f = Inr y"
  obtains x where "m = Inr x" and "f x = Inr y"
  using assms by (auto simp: res_bind_Inr_iff)

section \<open>The range of int\<close>

definition INT_MAX :: int where "INT_MAX = 2147483647"

definition INT_MIN :: int where "INT_MIN = - 2147483648"

definition int_range :: "int \<Rightarrow> bool" where
  "int_range x \<longleftrightarrow> INT_MIN \<le> x \<and> x \<le> INT_MAX"

text \<open>The value of a signed computation: defined when it fits.\<close>

definition c_int :: "int \<Rightarrow> int res" where
  "c_int x = (if int_range x then Inr x else Inl IntOverflow)"

lemma c_int_Inr_iff [simp]: "c_int x = Inr y \<longleftrightarrow> int_range x \<and> y = x"
  by (auto simp: c_int_def)

lemma c_int_Inl_iff [simp]: "c_int x = Inl e \<longleftrightarrow> \<not> int_range x \<and> e = IntOverflow"
  by (auto simp: c_int_def)

lemma c_int_ok [simp]: "int_range x \<Longrightarrow> c_int x = Inr x"
  by simp

lemma int_rangeI: "0 \<le> x \<Longrightarrow> x \<le> INT_MAX \<Longrightarrow> int_range x"
  by (simp add: int_range_def INT_MIN_def)

section \<open>Rounds of a loop\<close>

text \<open>One round of \<open>while (1)\<close>: leave the loop, or go round again.\<close>

datatype 's control = Break 's | Continue 's

section \<open>Arrays\<close>

text \<open>Reading and writing an element; outside the array there is no result.\<close>

definition read_at :: "'a list \<Rightarrow> nat \<Rightarrow> 'a res" where
  "read_at xs i = (if i < length xs then Inr (xs ! i) else Inl OutOfBounds)"

definition write_at :: "'a list \<Rightarrow> nat \<Rightarrow> 'a \<Rightarrow> 'a list res" where
  "write_at xs i x = (if i < length xs then Inr (xs[i := x]) else Inl OutOfBounds)"

lemma read_at_ok [simp]: "i < length xs \<Longrightarrow> read_at xs i = Inr (xs ! i)"
  by (simp add: read_at_def)

lemma write_at_ok [simp]: "i < length xs \<Longrightarrow> write_at xs i x = Inr (xs[i := x])"
  by (simp add: write_at_def)

text \<open>Writing a block of values from position \<open>i\<close> on.\<close>

definition write_block :: "'a list \<Rightarrow> nat \<Rightarrow> 'a list \<Rightarrow> 'a list res" where
  "write_block xs i ys =
     (if i + length ys \<le> length xs then Inr (take i xs @ ys @ drop (i + length ys) xs)
      else Inl OutOfBounds)"

section \<open>Lists\<close>

text \<open>
  Replacing the contents of one object in a list of objects tagged by their address.
\<close>

definition upd_at :: "'k \<Rightarrow> ('v \<Rightarrow> 'v) \<Rightarrow> ('k \<times> 'v) list \<Rightarrow> ('k \<times> 'v) list" where
  "upd_at k f xs = map (\<lambda>(j, v). if j = k then (j, f v) else (j, v)) xs"

lemma upd_at_simps [simp]:
  "upd_at k f [] = []"
  "upd_at k f ((j, v) # xs) = (j, if j = k then f v else v) # upd_at k f xs"
  by (simp_all add: upd_at_def)

lemma upd_at_append [simp]: "upd_at k f (xs @ ys) = upd_at k f xs @ upd_at k f ys"
  by (simp add: upd_at_def)

lemma map_fst_upd_at [simp]: "map fst (upd_at k f xs) = map fst xs"
  by (induction xs) auto

lemma fst_set_upd_at [simp]: "fst ` set (upd_at k f xs) = fst ` set xs"
  by (metis list.set_map map_fst_upd_at)

lemma length_upd_at [simp]: "length (upd_at k f xs) = length xs"
  by (simp add: upd_at_def)

lemma upd_at_notin: "k \<notin> fst ` set xs \<Longrightarrow> upd_at k f xs = xs"
  by (induction xs) auto

lemma map_of_upd_at:
  "map_of (upd_at k f xs) j = (if j = k then map_option f (map_of xs k) else map_of xs j)"
  by (induction xs) auto

lemma upd_at_split:
  assumes "distinct (map fst (xs @ (k, v) # ys))"
  shows "upd_at k f (xs @ (k, v) # ys) = xs @ (k, f v) # ys"
proof -
  from assms have "k \<notin> fst ` set xs" and "k \<notin> fst ` set ys"
    by (auto simp: rev_image_eqI)
  then show ?thesis by (simp add: upd_at_notin)
qed

lemma map_of_SomeE:
  assumes "map_of xs k = Some v" and "distinct (map fst xs)"
  obtains ys zs where "xs = ys @ (k, v) # zs"
    and "k \<notin> fst ` set ys" and "k \<notin> fst ` set zs"
proof -
  from assms(1) obtain ys zs where xs: "xs = ys @ (k, v) # zs"
    by (meson map_of_SomeD split_list)
  from assms(2) have "k \<notin> fst ` set ys" and "k \<notin> fst ` set zs"
    unfolding xs by (auto simp: rev_image_eqI)
  with xs show thesis by (rule that)
qed

lemma sum_list_map_upd_at:
  fixes g :: "'k \<times> 'v \<Rightarrow> 'a::comm_monoid_add"
  assumes "distinct (map fst (xs @ (k, v) # ys))"
  shows "sum_list (map g (upd_at k f (xs @ (k, v) # ys)))
    = g (k, f v) + sum_list (map g (xs @ ys))"
  unfolding upd_at_split [OF assms] by (simp add: algebra_simps)

text \<open>How replacing an element changes the number of elements with a property.\<close>

lemma length_filter_list_update:
  "i < length xs \<Longrightarrow> int (length (filter P (xs[i := y]))) =
    int (length (filter P xs)) - (if P (xs ! i) then 1 else 0) + (if P y then 1 else 0)"
proof -
  assume i: "i < length xs"
  have "filter P xs = filter P (take i xs @ xs ! i # drop (Suc i) xs)"
    using id_take_nth_drop [OF i] by simp
  then have "length (filter P xs) = length (filter P (take i xs)) + (if P (xs ! i) then 1 else 0) +
      length (filter P (drop (Suc i) xs))" by simp
  with i show ?thesis by (simp add: upd_conv_take_nth_drop)
qed

end
