(* ===== verification/Memory_Management.thy ===== *)
theory Memory_Management
  imports Prelude
begin

text \<open>
  The memory manager of the simulator (\<open>project1/memory-management.c\<close> and \<open>.h\<close>).

  A free memory segment is a hole of main memory: addresses run downwards, a segment
  starts at its highest end and covers the \<open>size\<close> units below \<open>start_address\<close>. The list
  of holes is kept in descending address order with touching holes merged. A process
  memory is the image of one process; it is on disk (\<open>start_address = IN_DISK\<close>) or
  occupies the units below its \<open>start_address\<close>.

  Representation. A singly linked list of nodes is the list of its nodes, head first.
  The nodes of the list of holes are reached through the list only, so they are given by
  their contents. A process memory is shared: the scheduler's control blocks point to the
  node that is in the list of process memories. Those nodes therefore carry their
  address, and a write through a pointer (\<open>upd_at\<close>) changes the node in the list that
  has this address. Allocation gives an address that no node of the list has; the
  branches that report a failed \<open>malloc\<close> and exit are left out.
  Values of type \<open>int\<close> are integers here. The invariant below bounds every address and
  size by the size of main memory, so that no computation of this file can overflow
  while it holds.
\<close>

named_theorems mem_defs \<open>definitions of the memory manager\<close>

section \<open>Data\<close>

definition IN_DISK :: int where
  "IN_DISK = -1"

record free_memory_segment_t =
  fms_start_address :: int
  fms_size :: int

record process_memory_t =
  pm_start_address :: int
  pm_size :: int
  pm_swap_in_time :: int
  pm_process_id :: int

type_synonym addr = nat

type_synonym free_memory_segments_list_t = "free_memory_segment_t list"

type_synonym process_memories_list_t = "(addr \<times> process_memory_t) list"

section \<open>Operations\<close>

subsection \<open>Holes\<close>

definition new_free_memory_segments_list :: "int \<Rightarrow> free_memory_segments_list_t" where
  "new_free_memory_segments_list sz = [\<lparr>fms_start_address = sz, fms_size = sz\<rparr>]"

definition get_free_memory_segment_end_address :: "free_memory_segment_t \<Rightarrow> int" where
  "get_free_memory_segment_end_address mem_seg = fms_start_address mem_seg - fms_size mem_seg"

text \<open>
  One pass over the list. A node that ends where its successor starts swallows it and is
  looked at again; otherwise the pass moves on to the successor.
\<close>

fun consolidate_free_memory_segments_list ::
  "free_memory_segments_list_t \<Rightarrow> free_memory_segments_list_t" where
  "consolidate_free_memory_segments_list [] = []"
| "consolidate_free_memory_segments_list [curr_seg] = [curr_seg]"
| "consolidate_free_memory_segments_list (curr_seg # next_seg # rest) =
     (if get_free_memory_segment_end_address curr_seg = fms_start_address next_seg
      then consolidate_free_memory_segments_list
             (curr_seg\<lparr>fms_size := fms_size curr_seg + fms_size next_seg\<rparr> # rest)
      else curr_seg # consolidate_free_memory_segments_list (next_seg # rest))"

text \<open>
  The search for the sorted position: before the first node whose start is not above the
  new one, else at the end.
\<close>

fun insert_free_memory_segment ::
  "free_memory_segment_t \<Rightarrow> free_memory_segments_list_t \<Rightarrow> free_memory_segments_list_t" where
  "insert_free_memory_segment mem_seg [] = [mem_seg]"
| "insert_free_memory_segment mem_seg (curr_seg # rest) =
     (if fms_start_address mem_seg \<ge> fms_start_address curr_seg
      then mem_seg # curr_seg # rest
      else curr_seg # insert_free_memory_segment mem_seg rest)"

definition add_new_free_memory_segment_to_free_memory_segments_list ::
  "int \<Rightarrow> int \<Rightarrow> free_memory_segments_list_t \<Rightarrow> free_memory_segments_list_t" where
  "add_new_free_memory_segment_to_free_memory_segments_list start_address sz mem_segs_list =
     consolidate_free_memory_segments_list
       (insert_free_memory_segment
          \<lparr>fms_start_address = start_address, fms_size = sz\<rparr> mem_segs_list)"

fun count_free_memory_segments :: "int \<Rightarrow> free_memory_segments_list_t \<Rightarrow> int" where
  "count_free_memory_segments cnt [] = cnt"
| "count_free_memory_segments cnt (mem_seg # rest) =
     count_free_memory_segments (cnt + 1) rest"

definition get_free_memory_segments_list_count :: "free_memory_segments_list_t \<Rightarrow> int" where
  "get_free_memory_segments_list_count mem_segs_list =
     count_free_memory_segments 0 mem_segs_list"

subsection \<open>Process memories\<close>

definition new_process_memories_list :: process_memories_list_t where
  "new_process_memories_list = []"

definition new_process_memory :: "int \<Rightarrow> int \<Rightarrow> process_memory_t" where
  "new_process_memory sz process_id =
     \<lparr>pm_start_address = IN_DISK, pm_size = sz, pm_swap_in_time = 0,
      pm_process_id = process_id\<rparr>"

text \<open>The address that \<open>malloc\<close> gives to a new node: one that no node of the list has.\<close>

definition malloc_addr :: "process_memories_list_t \<Rightarrow> addr" where
  "malloc_addr proc_mems_list = fold (\<lambda>(a, pm) m. max (Suc a) m) proc_mems_list 0"

fun add_process_memory_to_process_memories_list ::
  "addr \<times> process_memory_t \<Rightarrow> process_memories_list_t \<Rightarrow> process_memories_list_t" where
  "add_process_memory_to_process_memories_list new_proc_mem [] = [new_proc_mem]"
| "add_process_memory_to_process_memories_list new_proc_mem (curr_pm # rest) =
     curr_pm # add_process_memory_to_process_memories_list new_proc_mem rest"

definition add_new_process_memory_to_process_memories_list ::
  "int \<Rightarrow> int \<Rightarrow> process_memories_list_t \<Rightarrow> process_memories_list_t" where
  "add_new_process_memory_to_process_memories_list sz process_id proc_mems_list =
     add_process_memory_to_process_memories_list
       (malloc_addr proc_mems_list, new_process_memory sz process_id) proc_mems_list"

definition get_process_memory_end_address :: "process_memory_t \<Rightarrow> int" where
  "get_process_memory_end_address proc_mem = pm_start_address proc_mem - pm_size proc_mem"

definition is_process_memory_in_disk :: "process_memory_t \<Rightarrow> bool" where
  "is_process_memory_in_disk proc_mem \<longleftrightarrow> pm_start_address proc_mem = IN_DISK"

text \<open>
  Removal of the first process memory with a given process id; the first component is the
  returned flag.
\<close>

fun remove_process_memory_by_process_id ::
  "int \<Rightarrow> process_memories_list_t \<Rightarrow> free_memory_segments_list_t
    \<Rightarrow> int \<times> process_memories_list_t \<times> free_memory_segments_list_t" where
  "remove_process_memory_by_process_id process_id [] mem_segs_list = (0, [], mem_segs_list)"
| "remove_process_memory_by_process_id process_id ((a, curr_pm) # rest) mem_segs_list =
     (if pm_process_id curr_pm = process_id
      then (1, rest,
            if \<not> is_process_memory_in_disk curr_pm
            then add_new_free_memory_segment_to_free_memory_segments_list
                   (pm_start_address curr_pm) (pm_size curr_pm) mem_segs_list
            else mem_segs_list)
      else (case remove_process_memory_by_process_id process_id rest mem_segs_list of
              (result, rest', mem_segs_list') \<Rightarrow> (result, (a, curr_pm) # rest', mem_segs_list')))"

fun get_process_memory_by_process_id ::
  "int \<Rightarrow> process_memories_list_t \<Rightarrow> addr option" where
  "get_process_memory_by_process_id process_id [] = None"
| "get_process_memory_by_process_id process_id ((a, proc_mem) # rest) =
     (if pm_process_id proc_mem = process_id then Some a
      else get_process_memory_by_process_id process_id rest)"

subsection \<open>Swapping\<close>

text \<open>
  The scan for a victim: a larger process memory replaces the candidate, and so does one
  of the same size that was swapped in no later.
\<close>

fun scan_swap_out ::
  "addr \<times> process_memory_t \<Rightarrow> process_memories_list_t \<Rightarrow> addr \<times> process_memory_t" where
  "scan_swap_out victim [] = victim"
| "scan_swap_out victim (p # rest) =
     (if \<not> is_process_memory_in_disk (snd p) \<and>
         (pm_size (snd p) > pm_size (snd victim) \<or>
          pm_size (snd p) = pm_size (snd victim) \<and>
          pm_swap_in_time (snd p) \<le> pm_swap_in_time (snd victim))
      then scan_swap_out p rest
      else scan_swap_out victim rest)"

text \<open>
  The first loop stops at the first process memory that is not on disk and the second
  loop goes on from there. If there is none, the code goes on with the pointer
  \<open>swap_out_proc_mem\<close> uninitialised.
\<close>

definition set_in_disk :: "process_memory_t \<Rightarrow> process_memory_t" where
  "set_in_disk proc_mem = proc_mem\<lparr>pm_start_address := IN_DISK, pm_swap_in_time := 0\<rparr>"

definition swap_out_process_memory ::
  "process_memories_list_t \<Rightarrow> free_memory_segments_list_t
    \<Rightarrow> (process_memories_list_t \<times> free_memory_segments_list_t) res" where
  "swap_out_process_memory proc_mems_list mem_segs_list =
     (case dropWhile (\<lambda>p. is_process_memory_in_disk (snd p)) proc_mems_list of
        [] \<Rightarrow> Inl UninitRead
      | p # rest \<Rightarrow>
          (let swap_out_proc_mem = scan_swap_out p (p # rest)
           in Inr (upd_at (fst swap_out_proc_mem) set_in_disk proc_mems_list,
                   add_new_free_memory_segment_to_free_memory_segments_list
                     (pm_start_address (snd swap_out_proc_mem))
                     (pm_size (snd swap_out_proc_mem)) mem_segs_list)))"

definition swap_out_process_memory_by_process_memory ::
  "addr \<Rightarrow> process_memories_list_t \<Rightarrow> free_memory_segments_list_t
    \<Rightarrow> (process_memories_list_t \<times> free_memory_segments_list_t) res" where
  "swap_out_process_memory_by_process_memory a proc_mems_list mem_segs_list =
     (case map_of proc_mems_list a of
        None \<Rightarrow> Inl NullDeref
      | Some proc_mem \<Rightarrow>
          (if \<not> is_process_memory_in_disk proc_mem
           then Inr (upd_at a set_in_disk proc_mems_list,
                     add_new_free_memory_segment_to_free_memory_segments_list
                       (pm_start_address proc_mem) (pm_size proc_mem) mem_segs_list)
           else Inr (proc_mems_list, mem_segs_list)))"

text \<open>
  The inner loop of \<open>swap_in_process_memory\<close>: the first hole that is large enough gives
  its upper part away and is deleted when nothing is left of it. The result is the start
  of the occupied part and the new list of holes.
\<close>

fun first_fit ::
  "int \<Rightarrow> free_memory_segments_list_t \<Rightarrow> (int \<times> free_memory_segments_list_t) option" where
  "first_fit sz [] = None"
| "first_fit sz (curr_seg # rest) =
     (if sz \<le> fms_size curr_seg
      then let curr_seg' = curr_seg\<lparr>fms_start_address := fms_start_address curr_seg - sz,
                            fms_size := fms_size curr_seg - sz\<rparr>
           in Some (fms_start_address curr_seg,
                    if fms_size curr_seg' = 0 then rest else curr_seg' # rest)
      else (case first_fit sz rest of
              None \<Rightarrow> None
            | Some (start, rest') \<Rightarrow> Some (start, curr_seg # rest')))"

text \<open>
  The measure of the outer loop: how many process memories are in main memory. Every
  round that does not return swaps one of them out.
\<close>

definition resident :: "process_memories_list_t \<Rightarrow> process_memories_list_t" where
  "resident proc_mems_list = filter (\<lambda>p. \<not> is_process_memory_in_disk (snd p)) proc_mems_list"

lemma scan_swap_out_in: "scan_swap_out v ps \<in> insert v (set (resident ps))"
proof (induction ps arbitrary: v)
  case Nil
  then show ?case by simp
next
  case (Cons p ps)
  from Cons.IH [of p] Cons.IH [of v] show ?case
    unfolding scan_swap_out.simps resident_def by (simp split: if_splits) blast
qed

lemma set_resident: "set (resident ps) = {p \<in> set ps. \<not> is_process_memory_in_disk (snd p)}"
  by (auto simp: resident_def)

lemma scan_swap_out_resident:
  assumes "dropWhile (\<lambda>p. is_process_memory_in_disk (snd p)) procs = p # rest"
  shows "scan_swap_out p (p # rest) \<in> set (resident procs)"
proof -
  have sub: "set (p # rest) \<subseteq> set procs"
    unfolding assms [symmetric] by (auto dest: set_dropWhileD)
  have "\<not> is_process_memory_in_disk (snd p)"
    using hd_dropWhile [of "\<lambda>p. is_process_memory_in_disk (snd p)" procs] assms by simp
  then show ?thesis
    using scan_swap_out_in [of p "p # rest"] sub by (auto simp: set_resident)
qed

lemma set_in_disk_in_disk [simp]: "is_process_memory_in_disk (set_in_disk pm)"
  by (simp add: is_process_memory_in_disk_def set_in_disk_def)

lemma length_resident_upd_in_disk:
  "length (resident (upd_at a set_in_disk procs)) \<le> length (resident procs)"
  by (induction procs) (auto simp: resident_def)

lemma length_resident_upd_in_disk_less:
  assumes "(a, pm) \<in> set procs" and "\<not> is_process_memory_in_disk pm"
  shows "length (resident (upd_at a set_in_disk procs)) < length (resident procs)"
  using assms
proof (induction procs)
  case Nil
  then show ?case by simp
next
  case (Cons q procs)
  then show ?case
    using length_resident_upd_in_disk [of a procs] by (cases q) (auto simp: resident_def)
qed

lemma swap_out_process_memory_resident:
  assumes "swap_out_process_memory procs segs = Inr (procs', segs')"
  shows "length (resident procs') < length (resident procs)"
proof -
  from assms obtain p rest
    where drop: "dropWhile (\<lambda>p. is_process_memory_in_disk (snd p)) procs = p # rest"
      and procs': "procs' = upd_at (fst (scan_swap_out p (p # rest))) set_in_disk procs"
    by (auto simp: swap_out_process_memory_def Let_def split: list.splits)
  have "(fst (scan_swap_out p (p # rest)), snd (scan_swap_out p (p # rest))) \<in> set procs"
    and "\<not> is_process_memory_in_disk (snd (scan_swap_out p (p # rest)))"
    using scan_swap_out_resident [OF drop] unfolding set_resident by simp_all
  then show ?thesis
    unfolding procs' by (rule length_resident_upd_in_disk_less)
qed

function swap_in_process_memory ::
  "addr \<Rightarrow> int \<Rightarrow> process_memories_list_t \<Rightarrow> free_memory_segments_list_t
    \<Rightarrow> (process_memories_list_t \<times> free_memory_segments_list_t) res" where
  "swap_in_process_memory a time proc_mems_list mem_segs_list =
     (case map_of proc_mems_list a of
        None \<Rightarrow> Inl NullDeref
      | Some proc_mem \<Rightarrow>
          (if is_process_memory_in_disk proc_mem
           then (case first_fit (pm_size proc_mem) mem_segs_list of
                   Some (start, mem_segs_list') \<Rightarrow>
                     Inr (upd_at a (\<lambda>pm. pm\<lparr>pm_start_address := start,
                                             pm_swap_in_time := time\<rparr>) proc_mems_list,
                          mem_segs_list')
                 | None \<Rightarrow>
                     (case swap_out_process_memory proc_mems_list mem_segs_list of
                        Inl e \<Rightarrow> Inl e
                      | Inr (proc_mems_list', mem_segs_list') \<Rightarrow>
                          swap_in_process_memory a time proc_mems_list' mem_segs_list'))
           else Inr (proc_mems_list, mem_segs_list)))"
  by pat_completeness auto
termination
  by (relation "measure (\<lambda>(a, time, procs, segs). length (resident procs))")
    (auto simp: swap_out_process_memory_resident)

declare swap_in_process_memory.simps [simp del]

subsection \<open>Statistics\<close>

fun count_not_in_disk :: "int \<Rightarrow> process_memories_list_t \<Rightarrow> int" where
  "count_not_in_disk cnt [] = cnt"
| "count_not_in_disk cnt (p # rest) =
     count_not_in_disk (if \<not> is_process_memory_in_disk (snd p) then cnt + 1 else cnt) rest"

definition get_process_memories_list_not_in_disk_count :: "process_memories_list_t \<Rightarrow> int" where
  "get_process_memories_list_not_in_disk_count proc_mems_list =
     count_not_in_disk 0 proc_mems_list"

fun size_not_in_disk :: "int \<Rightarrow> process_memories_list_t \<Rightarrow> int" where
  "size_not_in_disk sz [] = sz"
| "size_not_in_disk sz (p # rest) =
     size_not_in_disk
       (if \<not> is_process_memory_in_disk (snd p) then sz + pm_size (snd p) else sz) rest"

definition get_process_memories_list_not_in_disk_size :: "process_memories_list_t \<Rightarrow> int" where
  "get_process_memories_list_not_in_disk_size proc_mems_list =
     size_not_in_disk 0 proc_mems_list"

end
