(* ===== verification/Memory_Holes.thy ===== *)
theory Memory_Holes
  imports Memory_Management
begin

text \<open>
  Correctness of the list of holes of \<open>project1/memory-management.c\<close>: what the list
  means (the set of free units), when it is well formed (descending, inside main memory,
  no empty and no touching holes), and what insertion, consolidation and first fit do to
  both. The contract that the swapping operations rely on is the locale
  \<open>hole_allocator\<close>; it is interpreted on the operations of the code.
\<close>

section \<open>Meaning and well-formedness of a list of holes\<close>

text \<open>The units of main memory below \<open>start\<close> that a block of a given size occupies.\<close>

definition block :: "int \<Rightarrow> int \<Rightarrow> int set" where
  "block start sz = {start - sz..<start}"

definition seg_cells :: "free_memory_segment_t \<Rightarrow> int set" where
  "seg_cells s = block (fms_start_address s) (fms_size s)"

definition free_cells :: "free_memory_segments_list_t \<Rightarrow> int set" where
  "free_cells segs = (\<Union>s \<in> set segs. seg_cells s)"

text \<open>
  \<open>holes_desc hi segs\<close>: the holes are not empty, lie in \<open>0 .. hi\<close> and descend without
  overlap. \<open>holes_wf\<close> also demands a gap between neighbours.
\<close>

fun holes_desc :: "int \<Rightarrow> free_memory_segments_list_t \<Rightarrow> bool" where
  "holes_desc hi [] \<longleftrightarrow> True"
| "holes_desc hi (s # ss) \<longleftrightarrow>
     0 < fms_size s \<and> fms_start_address s \<le> hi \<and> fms_size s \<le> fms_start_address s \<and>
     holes_desc (fms_start_address s - fms_size s) ss"

fun holes_wf :: "int \<Rightarrow> free_memory_segments_list_t \<Rightarrow> bool" where
  "holes_wf hi [] \<longleftrightarrow> True"
| "holes_wf hi (s # ss) \<longleftrightarrow>
     0 < fms_size s \<and> fms_start_address s \<le> hi \<and> fms_size s \<le> fms_start_address s \<and>
     holes_wf (fms_start_address s - fms_size s - 1) ss"

lemma in_block_iff [simp]: "x \<in> block st sz \<longleftrightarrow> st - sz \<le> x \<and> x < st"
  by (auto simp: block_def)

lemma block_nonempty: "0 < sz \<Longrightarrow> block st sz \<noteq> {}"
  by (simp add: block_def)

lemma card_block: "0 \<le> sz \<Longrightarrow> int (card (block st sz)) = sz"
  by (simp add: block_def)

lemma finite_block [simp]: "finite (block st sz)"
  by (simp add: block_def)

lemma block_disjoint_iff:
  "0 < sz \<Longrightarrow> 0 < sz' \<Longrightarrow>
   block st sz \<inter> block st' sz' = {} \<longleftrightarrow> st \<le> st' - sz' \<or> st' \<le> st - sz"
  by (auto simp: block_def)

lemma block_join: "0 \<le> sz \<Longrightarrow> 0 \<le> sz' \<Longrightarrow>
  block st sz \<union> block (st - sz) sz' = block st (sz + sz')"
  by auto

lemma free_cells_simps [simp]:
  "free_cells [] = {}"
  "free_cells (s # ss) = seg_cells s \<union> free_cells ss"
  by (simp_all add: free_cells_def)

lemma holes_desc_mono: "holes_desc hi segs \<Longrightarrow> hi \<le> hi' \<Longrightarrow> holes_desc hi' segs"
  by (cases segs) auto

lemma holes_wf_mono: "holes_wf hi segs \<Longrightarrow> hi \<le> hi' \<Longrightarrow> holes_wf hi' segs"
  by (cases segs) auto

lemma holes_wf_desc: "holes_wf hi segs \<Longrightarrow> holes_desc hi segs"
proof (induction segs arbitrary: hi)
  case Nil
  then show ?case by simp
next
  case (Cons s ss)
  then have "holes_desc (fms_start_address s - fms_size s - 1) ss" by simp
  with Cons.prems show ?case by (auto intro: holes_desc_mono)
qed

lemma free_cells_bounds: "holes_desc hi segs \<Longrightarrow> x \<in> free_cells segs \<Longrightarrow> 0 \<le> x \<and> x < hi"
proof (induction segs arbitrary: hi)
  case Nil
  then show ?case by simp
next
  case (Cons s ss)
  then show ?case by (fastforce simp: seg_cells_def)
qed

lemma free_cells_bounds_wf: "holes_wf hi segs \<Longrightarrow> x \<in> free_cells segs \<Longrightarrow> 0 \<le> x \<and> x < hi"
  by (rule free_cells_bounds [OF holes_wf_desc])

section \<open>Consolidation and insertion\<close>

lemma free_cells_consolidate:
  "holes_desc hi segs \<Longrightarrow>
   free_cells (consolidate_free_memory_segments_list segs) = free_cells segs"
proof (induction segs arbitrary: hi rule: consolidate_free_memory_segments_list.induct)
  case (3 s n ss)
  show ?case
  proof (cases "get_free_memory_segment_end_address s = fms_start_address n")
    case True
    with "3.prems" have desc: "holes_desc hi (s\<lparr>fms_size := fms_size s + fms_size n\<rparr> # ss)"
      and join: "seg_cells s \<union> seg_cells n = seg_cells (s\<lparr>fms_size := fms_size s + fms_size n\<rparr>)"
      by (auto simp: get_free_memory_segment_end_address_def seg_cells_def algebra_simps)
    from "3.IH"(1) [OF True desc] True join show ?thesis by (simp add: sup_assoc [symmetric])
  next
    case False
    with "3.prems" have "holes_desc (fms_start_address s - fms_size s) (n # ss)" by simp
    from "3.IH"(2) [OF False this] False show ?thesis by simp
  qed
qed simp_all

lemma holes_wf_consolidate:
  "holes_desc hi segs \<Longrightarrow> holes_wf hi (consolidate_free_memory_segments_list segs)"
proof (induction segs arbitrary: hi rule: consolidate_free_memory_segments_list.induct)
  case (3 s n ss)
  show ?case
  proof (cases "get_free_memory_segment_end_address s = fms_start_address n")
    case True
    with "3.prems" have "holes_desc hi (s\<lparr>fms_size := fms_size s + fms_size n\<rparr> # ss)"
      by (auto simp: get_free_memory_segment_end_address_def algebra_simps)
    from "3.IH"(1) [OF True this] True show ?thesis by simp
  next
    case False
    with "3.prems" have "holes_desc (fms_start_address s - fms_size s - 1) (n # ss)"
      by (auto simp: get_free_memory_segment_end_address_def)
    from "3.IH"(2) [OF False this] False "3.prems" show ?thesis by simp
  qed
qed simp_all

lemma consolidate_id: "holes_wf hi segs \<Longrightarrow> consolidate_free_memory_segments_list segs = segs"
  by (induction segs arbitrary: hi rule: consolidate_free_memory_segments_list.induct)
    (auto simp: get_free_memory_segment_end_address_def)

lemma free_cells_insert:
  "free_cells (insert_free_memory_segment s segs) = seg_cells s \<union> free_cells segs"
  by (induction segs) auto

lemma holes_desc_insert:
  assumes "holes_wf hi segs" and "0 < fms_size s" and "fms_size s \<le> fms_start_address s"
    and "fms_start_address s \<le> hi" and "seg_cells s \<inter> free_cells segs = {}"
  shows "holes_desc hi (insert_free_memory_segment s segs)"
  using assms
proof (induction segs arbitrary: hi)
  case Nil
  then show ?case by simp
next
  case (Cons c cs)
  have c: "0 < fms_size c" "fms_size c \<le> fms_start_address c" "fms_start_address c \<le> hi"
    and cs: "holes_wf (fms_start_address c - fms_size c) cs"
    using Cons.prems(1) by (auto intro: holes_wf_mono)
  have apart: "fms_start_address s \<le> fms_start_address c - fms_size c
      \<or> fms_start_address c \<le> fms_start_address s - fms_size s"
    using Cons.prems(2,5) c(1)
      block_disjoint_iff [of "fms_size s" "fms_size c" "fms_start_address s" "fms_start_address c"]
    by (auto simp: seg_cells_def)
  show ?case
  proof (cases "fms_start_address s \<ge> fms_start_address c")
    case True
    with apart c(1) have "fms_start_address c \<le> fms_start_address s - fms_size s" by simp
    with True c holes_wf_desc [OF cs] Cons.prems(2-4) show ?thesis by simp
  next
    case False
    with apart Cons.prems(2) have "fms_start_address s \<le> fms_start_address c - fms_size c" by simp
    with Cons.IH [OF cs Cons.prems(2,3)] Cons.prems(5) False c show ?thesis by auto
  qed
qed

theorem add_new_free_memory_segment_wf:
  assumes "holes_wf hi segs" and "0 < sz" and "sz \<le> start" and "start \<le> hi"
    and "block start sz \<inter> free_cells segs = {}"
  shows "holes_wf hi (add_new_free_memory_segment_to_free_memory_segments_list start sz segs)"
    and "free_cells (add_new_free_memory_segment_to_free_memory_segments_list start sz segs)
      = block start sz \<union> free_cells segs"
proof -
  let ?s = "\<lparr>fms_start_address = start, fms_size = sz\<rparr>"
  have desc: "holes_desc hi (insert_free_memory_segment ?s segs)"
    using assms by (intro holes_desc_insert) (simp_all add: seg_cells_def)
  show "holes_wf hi (add_new_free_memory_segment_to_free_memory_segments_list start sz segs)"
    unfolding add_new_free_memory_segment_to_free_memory_segments_list_def
    by (rule holes_wf_consolidate [OF desc])
  show "free_cells (add_new_free_memory_segment_to_free_memory_segments_list start sz segs)
      = block start sz \<union> free_cells segs"
    unfolding add_new_free_memory_segment_to_free_memory_segments_list_def
      free_cells_consolidate [OF desc] free_cells_insert
    by (simp add: seg_cells_def)
qed

section \<open>First fit\<close>

lemma first_fit_None_iff: "first_fit sz segs = None \<longleftrightarrow> (\<forall>s \<in> set segs. fms_size s < sz)"
  by (induction segs) (auto simp: Let_def split: option.splits)

lemma first_fit_wf:
  assumes "first_fit sz segs = Some (start, segs')" and "holes_wf hi segs" and "0 < sz"
  shows "holes_wf hi segs'" and "sz \<le> start" and "start \<le> hi"
    and "block start sz \<subseteq> free_cells segs"
    and "free_cells segs' = free_cells segs - block start sz"
proof -
  have "holes_wf hi segs' \<and> sz \<le> start \<and> start \<le> hi \<and> block start sz \<subseteq> free_cells segs
    \<and> free_cells segs' = free_cells segs - block start sz"
    using assms
  proof (induction segs arbitrary: hi segs')
    case Nil
    then show ?case by simp
  next
    case (Cons c cs)
    have c: "0 < fms_size c" "fms_size c \<le> fms_start_address c" "fms_start_address c \<le> hi"
      and cs: "holes_wf (fms_start_address c - fms_size c - 1) cs"
      using Cons.prems(2) by auto
    show ?case
    proof (cases "sz \<le> fms_size c")
      case True
      let ?c = "c\<lparr>fms_start_address := fms_start_address c - sz, fms_size := fms_size c - sz\<rparr>"
      from Cons.prems(1) True have start: "start = fms_start_address c"
        and segs': "segs' = (if fms_size ?c = 0 then cs else ?c # cs)"
        by (auto simp: Let_def)
      have "holes_wf hi segs'"
        using c cs True Cons.prems(3) unfolding segs' by (auto intro: holes_wf_mono)
      moreover have "block start sz \<subseteq> free_cells (c # cs)"
        using True start by (auto simp: seg_cells_def)
      moreover have "free_cells segs' = free_cells (c # cs) - block start sz"
      proof -
        have "free_cells cs \<inter> block start sz = {}"
          using c True free_cells_bounds_wf [OF cs] start by fastforce
        moreover have "seg_cells ?c = seg_cells c - block start sz"
          using True Cons.prems(3) start by (auto simp: seg_cells_def)
        moreover have "seg_cells ?c = {}" if "fms_size ?c = 0"
          using that by (auto simp: seg_cells_def)
        ultimately show ?thesis unfolding segs' by auto
      qed
      ultimately show ?thesis using c True start by simp
    next
      case False
      with Cons.prems(1) obtain rest' where fit: "first_fit sz cs = Some (start, rest')"
        and segs': "segs' = c # rest'"
        by (auto split: option.splits)
      note IH = Cons.IH [OF fit cs Cons.prems(3)]
      have "block start sz \<inter> seg_cells c = {}"
        using IH c by (auto simp: seg_cells_def)
      with IH c segs' show ?thesis by auto
    qed
  qed
  then show "holes_wf hi segs'" and "sz \<le> start" and "start \<le> hi"
    and "block start sz \<subseteq> free_cells segs"
    and "free_cells segs' = free_cells segs - block start sz"
    by auto
qed

section \<open>The list is determined by the free units\<close>

lemma free_cells_hd:
  assumes "holes_wf hi (s # ss)"
  shows "fms_start_address s - 1 \<in> free_cells (s # ss)"
    and "x \<in> free_cells (s # ss) \<Longrightarrow> x < fms_start_address s"
    and "fms_start_address s - fms_size s - 1 \<notin> free_cells (s # ss)"
    and "seg_cells s \<inter> free_cells ss = {}"
proof -
  from assms have s: "0 < fms_size s" and ss: "holes_wf (fms_start_address s - fms_size s - 1) ss"
    by auto
  note below = free_cells_bounds_wf [OF ss]
  show "fms_start_address s - 1 \<in> free_cells (s # ss)"
    using s by (simp add: seg_cells_def)
  show "x < fms_start_address s" if "x \<in> free_cells (s # ss)"
    using that below [of x] s by (auto simp: seg_cells_def)
  show "fms_start_address s - fms_size s - 1 \<notin> free_cells (s # ss)"
    using below by (auto simp: seg_cells_def)
  show "seg_cells s \<inter> free_cells ss = {}"
    using below by (fastforce simp: seg_cells_def)
qed

lemma hole_end_le:
  assumes "holes_wf hi (s # ss)" and "holes_wf hi' (t # ts)"
    and "free_cells (s # ss) = free_cells (t # ts)"
    and "fms_start_address s = fms_start_address t"
  shows "fms_size t \<le> fms_size s"
proof (rule ccontr)
  assume "\<not> fms_size t \<le> fms_size s"
  moreover have "0 < fms_size s" using assms(1) by simp
  ultimately have "fms_start_address s - fms_size s - 1 \<in> free_cells (t # ts)"
    using assms(4) by (simp add: seg_cells_def)
  with free_cells_hd(3) [OF assms(1)] show False unfolding assms(3) by contradiction
qed

lemma holes_wf_unique:
  assumes "holes_wf hi segs" and "holes_wf hi' segs'" and "free_cells segs = free_cells segs'"
  shows "segs = segs'"
  using assms
proof (induction segs arbitrary: hi hi' segs')
  case Nil
  then show ?case using free_cells_hd(1) by (cases segs') force+
next
  case (Cons s ss)
  obtain t ts where segs': "segs' = t # ts"
    using Cons.prems free_cells_hd(1) [OF Cons.prems(1)] by (cases segs') auto
  note wf = Cons.prems(1) Cons.prems(2) [unfolded segs']
    and eq = Cons.prems(3) [unfolded segs']
  have start: "fms_start_address s = fms_start_address t"
    using free_cells_hd(2) [OF wf(1), of "fms_start_address t - 1"] free_cells_hd(1) [OF wf(1)]
      free_cells_hd(2) [OF wf(2), of "fms_start_address s - 1"] free_cells_hd(1) [OF wf(2)]
    unfolding eq by linarith
  have sz: "fms_size s = fms_size t"
    using hole_end_le [OF wf eq start] hole_end_le [OF wf(2,1) eq [symmetric] start [symmetric]]
    by simp
  have "s = t" using start sz by simp
  moreover have "free_cells ss = free_cells ts"
    using eq free_cells_hd(4) [OF wf(1)] free_cells_hd(4) [OF wf(2)] \<open>s = t\<close> by auto
  with Cons.IH wf have "ss = ts" by (meson holes_wf.simps(2))
  ultimately show ?case by (simp add: segs')
qed

text \<open>When all of main memory is free, the list is one hole.\<close>

lemma new_free_memory_segments_list_wf:
  assumes "0 < m"
  shows "holes_wf m (new_free_memory_segments_list m)"
    and "free_cells (new_free_memory_segments_list m) = {0..<m}"
  using assms by (auto simp: new_free_memory_segments_list_def seg_cells_def)

lemma holes_wf_all_free:
  "holes_wf m segs \<Longrightarrow> free_cells segs = {0..<m} \<Longrightarrow> 0 < m \<Longrightarrow>
   segs = new_free_memory_segments_list m"
  using holes_wf_unique new_free_memory_segments_list_wf by blast

section \<open>The contract of the allocator of main memory\<close>

locale hole_allocator =
  fixes reserve :: "int \<Rightarrow> 'h \<Rightarrow> (int \<times> 'h) option"
    and release :: "int \<Rightarrow> int \<Rightarrow> 'h \<Rightarrow> 'h"
    and invar :: "int \<Rightarrow> 'h \<Rightarrow> bool"
    and cells :: "'h \<Rightarrow> int set"
  assumes reserve_invar: "invar m h \<Longrightarrow> 0 < sz \<Longrightarrow> reserve sz h = Some (st, h') \<Longrightarrow>
        invar m h' \<and> sz \<le> st \<and> st \<le> m"
    and reserve_cells: "invar m h \<Longrightarrow> 0 < sz \<Longrightarrow> reserve sz h = Some (st, h') \<Longrightarrow>
        block st sz \<subseteq> cells h \<and> cells h' = cells h - block st sz"
    and reserve_all: "invar m h \<Longrightarrow> cells h = {0..<m} \<Longrightarrow> 0 < sz \<Longrightarrow> sz \<le> m \<Longrightarrow>
        reserve sz h \<noteq> None"
    and reserve_too_large: "invar m h \<Longrightarrow> m < sz \<Longrightarrow> reserve sz h = None"
    and release_invar: "invar m h \<Longrightarrow> 0 < sz \<Longrightarrow> sz \<le> st \<Longrightarrow> st \<le> m \<Longrightarrow>
        block st sz \<inter> cells h = {} \<Longrightarrow> invar m (release st sz h)"
    and release_cells: "invar m h \<Longrightarrow> 0 < sz \<Longrightarrow> sz \<le> st \<Longrightarrow> st \<le> m \<Longrightarrow>
        block st sz \<inter> cells h = {} \<Longrightarrow> cells (release st sz h) = block st sz \<union> cells h"
begin

text \<open>Main memory is split between the units in use and the holes.\<close>

definition partition :: "int \<Rightarrow> int set \<Rightarrow> 'h \<Rightarrow> bool" where
  "partition m used h \<longleftrightarrow> invar m h \<and> used \<inter> cells h = {} \<and> used \<union> cells h = {0..<m}"

lemma partition_reserve:
  assumes "partition m used h" and "0 < sz" and "reserve sz h = Some (st, h')"
  shows "partition m (block st sz \<union> used) h'" and "block st sz \<inter> used = {}"
    and "sz \<le> st" and "st \<le> m"
  using assms reserve_invar [of m h sz st h'] reserve_cells [of m h sz st h']
  by (auto simp: partition_def)

lemma partition_release:
  assumes "partition m (block st sz \<union> used) h" and "block st sz \<inter> used = {}"
    and "0 < sz" and "sz \<le> st" and "st \<le> m"
  shows "partition m used (release st sz h)"
  using assms release_invar [of m h sz st] release_cells [of m h sz st]
  by (auto simp: partition_def)

lemma partition_empty_reserve:
  assumes "partition m {} h" and "0 < sz" and "sz \<le> m"
  shows "reserve sz h \<noteq> None"
  using assms reserve_all [of m h sz] by (auto simp: partition_def)

lemma partition_too_large:
  assumes "partition m used h" and "m < sz"
  shows "reserve sz h = None"
  using assms reserve_too_large [of m h sz] by (auto simp: partition_def)

end

interpretation holes: hole_allocator first_fit
  add_new_free_memory_segment_to_free_memory_segments_list holes_wf free_cells
proof
  fix m segs sz st segs'
  assume "holes_wf m segs" and "0 < sz" and "first_fit sz segs = Some (st, segs')"
  then show "holes_wf m segs' \<and> sz \<le> st \<and> st \<le> m"
    and "block st sz \<subseteq> free_cells segs \<and> free_cells segs' = free_cells segs - block st sz"
    using first_fit_wf [of sz segs st segs' m] by auto
next
  fix m segs and sz :: int
  assume "holes_wf m segs" and "free_cells segs = {0..<m}" and "0 < sz" and "sz \<le> m"
  then show "first_fit sz segs \<noteq> None"
    using holes_wf_all_free [of m segs]
    by (auto simp: first_fit_None_iff new_free_memory_segments_list_def)
next
  fix m segs and sz :: int
  assume wf: "holes_wf m segs" and "m < sz"
  have "fms_size s \<le> m" if "s \<in> set segs" for s
    using that wf by (induction segs arbitrary: m) (fastforce intro: holes_wf_mono)+
  with \<open>m < sz\<close> show "first_fit sz segs = None"
    by (fastforce simp: first_fit_None_iff)
next
  fix m segs and sz st :: int
  assume "holes_wf m segs" and "0 < sz" and "sz \<le> st" and "st \<le> m"
    and "block st sz \<inter> free_cells segs = {}"
  then show "holes_wf m (add_new_free_memory_segment_to_free_memory_segments_list st sz segs)"
    and "free_cells (add_new_free_memory_segment_to_free_memory_segments_list st sz segs)
      = block st sz \<union> free_cells segs"
    by (simp_all add: add_new_free_memory_segment_wf)
qed

end
