(* ===== verification/Memory_Swapping.thy ===== *)
theory Memory_Swapping
  imports Memory_Holes
begin

text \<open>
  Correctness of swapping in \<open>project1/memory-management.c\<close>: the invariant that ties the
  process memories to the list of holes (together they tile main memory), that every
  operation keeps it, that swapping in always succeeds for a process that fits into main
  memory, and what the code does for one that does not.
\<close>

section \<open>The invariant\<close>

definition pm_cells :: "process_memory_t \<Rightarrow> int set" where
  "pm_cells pm = (if is_process_memory_in_disk pm then {} else block (pm_start_address pm) (pm_size pm))"

definition used_cells :: "process_memories_list_t \<Rightarrow> int set" where
  "used_cells procs = (\<Union>p \<in> set procs. pm_cells (snd p))"

text \<open>
  The nodes have distinct addresses, sizes are positive, what is in main memory lies
  inside it and no two process memories overlap.
\<close>

definition procs_wf :: "int \<Rightarrow> process_memories_list_t \<Rightarrow> bool" where
  "procs_wf m procs \<longleftrightarrow>
     distinct (map fst procs) \<and>
     (\<forall>p \<in> set procs. 0 < pm_size (snd p)) \<and>
     (\<forall>p \<in> set (resident procs). pm_size (snd p) \<le> pm_start_address (snd p)
        \<and> pm_start_address (snd p) \<le> m) \<and>
     (\<forall>p \<in> set procs. \<forall>q \<in> set procs. fst p \<noteq> fst q \<longrightarrow> pm_cells (snd p) \<inter> pm_cells (snd q) = {})"

definition mem_inv :: "int \<Rightarrow> process_memories_list_t \<Rightarrow> free_memory_segments_list_t \<Rightarrow> bool" where
  "mem_inv m procs segs \<longleftrightarrow>
     procs_wf m procs \<and> holes_wf m segs \<and>
     used_cells procs \<inter> free_cells segs = {} \<and> used_cells procs \<union> free_cells segs = {0..<m}"

lemma mem_inv_partition:
  "mem_inv m procs segs \<longleftrightarrow> procs_wf m procs \<and> holes.partition m (used_cells procs) segs"
  by (auto simp: mem_inv_def holes.partition_def)

lemma procs_wf_distinct: "procs_wf m procs \<Longrightarrow> distinct (map fst procs)"
  by (simp add: procs_wf_def)

lemma procs_wf_map_of:
  assumes "procs_wf m procs" and "map_of procs a = Some pm"
  shows "0 < pm_size pm"
    and "\<not> is_process_memory_in_disk pm \<Longrightarrow> pm_size pm \<le> pm_start_address pm"
    and "\<not> is_process_memory_in_disk pm \<Longrightarrow> pm_start_address pm \<le> m"
  using assms map_of_SomeD [OF assms(2)] by (auto simp: procs_wf_def set_resident)

lemma map_of_resident:
  assumes "procs_wf m procs" and "p \<in> set (resident procs)"
  shows "map_of procs (fst p) = Some (snd p)" and "\<not> is_process_memory_in_disk (snd p)"
  using assms by (simp_all add: procs_wf_def set_resident)

lemma start_not_IN_DISK: "0 < sz \<Longrightarrow> sz \<le> start \<Longrightarrow> start \<noteq> IN_DISK"
  by (simp add: IN_DISK_def)

section \<open>Changing one process memory\<close>

definition used_except :: "addr \<Rightarrow> process_memories_list_t \<Rightarrow> int set" where
  "used_except a procs = (\<Union>p \<in> {p \<in> set procs. fst p \<noteq> a}. pm_cells (snd p))"

lemma set_upd_at_others: "{p \<in> set (upd_at a f procs). fst p \<noteq> a} = {p \<in> set procs. fst p \<noteq> a}"
  by (force simp: upd_at_def split: if_splits)

lemma used_except_upd_at [simp]: "used_except a (upd_at a f procs) = used_except a procs"
  by (simp add: used_except_def set_upd_at_others)

lemma set_map_of_split:
  assumes "distinct (map fst procs)" and "map_of procs a = Some pm"
  shows "set procs = insert (a, pm) {p \<in> set procs. fst p \<noteq> a}"
proof -
  have "pm' = pm" if "(a, pm') \<in> set procs" for pm'
    using map_of_is_SomeI [OF assms(1) that] assms(2) by simp
  with map_of_SomeD [OF assms(2)] show ?thesis by (intro set_eqI) (metis (mono_tags, lifting) insert_iff mem_Collect_eq prod.collapse)
qed

lemma used_cells_split:
  assumes "distinct (map fst procs)" and "map_of procs a = Some pm"
  shows "used_cells procs = pm_cells pm \<union> used_except a procs"
proof -
  have "used_cells procs = (\<Union>p \<in> insert (a, pm) {p \<in> set procs. fst p \<noteq> a}. pm_cells (snd p))"
    unfolding used_cells_def using set_map_of_split [OF assms] by simp
  then show ?thesis by (simp add: used_except_def)
qed

lemma used_cells_upd_at:
  assumes "distinct (map fst procs)" and "map_of procs a = Some pm"
  shows "used_cells (upd_at a f procs) = pm_cells (f pm) \<union> used_except a procs"
  using used_cells_split [of "upd_at a f procs" a "f pm"] assms by (simp add: map_of_upd_at)

lemma pm_cells_used_except_disjoint:
  assumes "procs_wf m procs" and "map_of procs a = Some pm"
  shows "pm_cells pm \<inter> used_except a procs = {}"
  using assms map_of_SomeD [OF assms(2)] by (fastforce simp: procs_wf_def used_except_def)

lemma procs_wf_upd_at:
  assumes wf: "procs_wf m procs" and a: "map_of procs a = Some pm"
    and sz: "pm_size (f pm) = pm_size pm"
    and bounds: "is_process_memory_in_disk (f pm) \<or>
      pm_size pm \<le> pm_start_address (f pm) \<and> pm_start_address (f pm) \<le> m"
    and disj: "pm_cells (f pm) \<inter> used_except a procs = {}"
  shows "procs_wf m (upd_at a f procs)"
proof -
  have split: "set (upd_at a f procs) = insert (a, f pm) {p \<in> set procs. fst p \<noteq> a}"
    using set_map_of_split [of "upd_at a f procs" a "f pm"] wf a
    by (simp add: procs_wf_def map_of_upd_at set_upd_at_others)
  show ?thesis
    using wf sz bounds disj procs_wf_map_of(1) [OF wf a]
    unfolding procs_wf_def set_resident split by (fastforce simp: used_except_def)
qed

section \<open>Swapping out\<close>

lemma mem_inv_release:
  assumes inv: "mem_inv m procs segs" and a: "map_of procs a = Some pm"
    and res: "\<not> is_process_memory_in_disk pm"
  shows "mem_inv m (upd_at a set_in_disk procs)
    (add_new_free_memory_segment_to_free_memory_segments_list (pm_start_address pm) (pm_size pm) segs)"
proof -
  from inv have wf: "procs_wf m procs" and part: "holes.partition m (used_cells procs) segs"
    by (auto simp: mem_inv_partition)
  note bounds = procs_wf_map_of [OF wf a]
  have cells: "pm_cells pm = block (pm_start_address pm) (pm_size pm)"
    using res by (simp add: pm_cells_def)
  have none: "pm_cells (set_in_disk pm) = {}" by (simp add: pm_cells_def)
  have "procs_wf m (upd_at a set_in_disk procs)"
    by (rule procs_wf_upd_at [OF wf a]) (simp_all add: none, simp add: set_in_disk_def)
  moreover have "holes.partition m (used_except a procs)
    (add_new_free_memory_segment_to_free_memory_segments_list (pm_start_address pm) (pm_size pm) segs)"
    using part bounds res pm_cells_used_except_disjoint [OF wf a]
    unfolding used_cells_split [OF procs_wf_distinct [OF wf] a] cells
    by (intro holes.partition_release) auto
  ultimately show ?thesis
    by (simp add: mem_inv_partition used_cells_upd_at [OF procs_wf_distinct [OF wf] a] none)
qed

lemma dropWhile_in_disk_Nil_iff:
  "dropWhile (\<lambda>p. is_process_memory_in_disk (snd p)) procs = [] \<longleftrightarrow> resident procs = []"
  by (simp add: resident_def filter_empty_conv)

lemma swap_out_process_memory_cases:
  assumes "procs_wf m procs"
  obtains (none) "resident procs = []" "swap_out_process_memory procs segs = Inl UninitRead"
  | (some) a pm where "map_of procs a = Some pm" and "\<not> is_process_memory_in_disk pm"
    and "swap_out_process_memory procs segs =
      Inr (upd_at a set_in_disk procs,
           add_new_free_memory_segment_to_free_memory_segments_list
             (pm_start_address pm) (pm_size pm) segs)"
proof (cases "dropWhile (\<lambda>p. is_process_memory_in_disk (snd p)) procs")
  case Nil
  with none show thesis
    by (simp add: swap_out_process_memory_def flip: dropWhile_in_disk_Nil_iff)
next
  case (Cons p rest)
  from map_of_resident [OF assms scan_swap_out_resident [OF Cons]] show thesis
    by (rule some) (simp add: swap_out_process_memory_def Cons Let_def)
qed

section \<open>Swapping in\<close>

lemma used_cells_no_resident: "resident procs = [] \<Longrightarrow> used_cells procs = {}"
  by (auto simp: used_cells_def resident_def filter_empty_conv pm_cells_def)

lemma mem_inv_occupy:
  assumes inv: "mem_inv m procs segs" and a: "map_of procs a = Some pm"
    and disk: "is_process_memory_in_disk pm"
    and fit: "first_fit (pm_size pm) segs = Some (start, segs')"
  shows "mem_inv m
      (upd_at a (\<lambda>pm. pm\<lparr>pm_start_address := start, pm_swap_in_time := time\<rparr>) procs) segs'"
    and "start \<noteq> IN_DISK"
proof -
  let ?f = "\<lambda>pm. pm\<lparr>pm_start_address := start, pm_swap_in_time := time\<rparr>"
  from inv have wf: "procs_wf m procs" and part: "holes.partition m (used_cells procs) segs"
    by (auto simp: mem_inv_partition)
  note sz = procs_wf_map_of(1) [OF wf a]
  have used: "used_cells procs = used_except a procs"
    using used_cells_split [OF procs_wf_distinct [OF wf] a] disk by (simp add: pm_cells_def)
  note fit' = holes.partition_reserve [OF part [unfolded used] sz fit]
  show start: "start \<noteq> IN_DISK" by (rule start_not_IN_DISK [OF sz fit'(3)])
  then have cells: "pm_cells (?f pm) = block start (pm_size pm)"
    by (simp add: pm_cells_def is_process_memory_in_disk_def)
  have "procs_wf m (upd_at a ?f procs)"
    by (rule procs_wf_upd_at [OF wf a]) (use cells fit' in auto)
  with fit'(1) show "mem_inv m (upd_at a ?f procs) segs'"
    unfolding mem_inv_partition used_cells_upd_at [OF procs_wf_distinct [OF wf] a] cells by simp
qed

text \<open>
  How the process memories may differ after making room for the one at \<open>a\<close>: every other
  one is as before or on disk.
\<close>

definition evicted :: "addr \<Rightarrow> process_memories_list_t \<Rightarrow> process_memories_list_t \<Rightarrow> bool" where
  "evicted a procs procs' \<longleftrightarrow> map fst procs' = map fst procs \<and>
     (\<forall>b. b \<noteq> a \<longrightarrow> map_of procs' b = map_of procs b
        \<or> map_of procs' b = map_option set_in_disk (map_of procs b))"

lemma set_in_disk_idem [simp]: "set_in_disk (set_in_disk pm) = set_in_disk pm"
  by (simp add: set_in_disk_def)

lemma evicted_refl [simp]: "evicted a procs procs"
  by (simp add: evicted_def)

lemma evicted_upd_at [simp]: "evicted a procs (upd_at a f procs)"
  by (simp add: evicted_def map_of_upd_at)

lemma evicted_upd_in_disk [simp]: "evicted a procs (upd_at b set_in_disk procs)"
  by (simp add: evicted_def map_of_upd_at)

lemma evicted_trans:
  assumes "evicted a xs ys" and "evicted a ys zs"
  shows "evicted a xs zs"
proof -
  have "map_of zs b = map_of xs b \<or> map_of zs b = map_option set_in_disk (map_of xs b)"
    if "b \<noteq> a" for b
    using that assms unfolding evicted_def
    by (metis (no_types, lifting) option.map_comp comp_apply set_in_disk_idem option.map_cong)
  with assms show ?thesis by (simp add: evicted_def)
qed

lemma swap_in_process_memory_ok:
  assumes "mem_inv m procs segs" and "map_of procs a = Some pm" and "pm_size pm \<le> m"
  shows "\<exists>procs' segs' pm'. swap_in_process_memory a time procs segs = Inr (procs', segs') \<and>
    mem_inv m procs' segs' \<and> evicted a procs procs' \<and> map_of procs' a = Some pm' \<and>
    \<not> is_process_memory_in_disk pm' \<and> pm_size pm' = pm_size pm \<and>
    pm_process_id pm' = pm_process_id pm \<and>
    (is_process_memory_in_disk pm \<longrightarrow> pm_swap_in_time pm' = time)"
  using assms
proof (induction a time procs segs rule: swap_in_process_memory.induct)
  case (1 a time procs segs)
  note [simp] = swap_in_process_memory.simps [of a time procs segs]
  show ?case
  proof (cases "is_process_memory_in_disk pm")
    case False
    with "1.prems" show ?thesis by auto
  next
    case disk: True
    show ?thesis
    proof (cases "first_fit (pm_size pm) segs")
      case (Some sr)
      then obtain start segs' where fit: "first_fit (pm_size pm) segs = Some (start, segs')"
        by (cases sr) auto
      show ?thesis
        using mem_inv_occupy(1) [OF "1.prems"(1,2) disk fit, of time]
          mem_inv_occupy(2) [OF "1.prems"(1,2) disk fit] "1.prems"(2) disk fit
        by (auto simp: map_of_upd_at is_process_memory_in_disk_def)
    next
      case None
      from "1.prems"(1) have wf: "procs_wf m procs" by (simp add: mem_inv_def)
      show ?thesis
      proof (cases rule: swap_out_process_memory_cases [OF wf, of segs, case_names none some])
        case none
        then have "holes.partition m {} segs"
          using "1.prems"(1) used_cells_no_resident [of procs] by (simp add: mem_inv_partition)
        with None holes.partition_empty_reserve "1.prems"(3) procs_wf_map_of(1) [OF wf "1.prems"(2)]
        show ?thesis by blast
      next
        case (some b pm\<^sub>b)
        let ?procs = "upd_at b set_in_disk procs"
        let ?segs = "add_new_free_memory_segment_to_free_memory_segments_list
          (pm_start_address pm\<^sub>b) (pm_size pm\<^sub>b) segs"
        have "b \<noteq> a" using some(1,2) "1.prems"(2) disk by auto
        then have a: "map_of ?procs a = Some pm" using "1.prems"(2) by (simp add: map_of_upd_at)
        have step: "swap_in_process_memory a time procs segs = swap_in_process_memory a time ?procs ?segs"
          using "1.prems"(2) disk None some(3) by simp
        have "evicted a procs procs'" if "evicted a ?procs procs'" for procs'
          using evicted_upd_in_disk that by (rule evicted_trans)
        with "1.IH" [OF "1.prems"(2) disk None some(3) refl
            mem_inv_release [OF "1.prems"(1) some(1,2)] a "1.prems"(3)]
        show ?thesis unfolding step by blast
      qed
    qed
  qed
qed

lemma swap_in_process_memory_too_large:
  assumes "mem_inv m procs segs" and "map_of procs a = Some pm"
    and "is_process_memory_in_disk pm" and "m < pm_size pm"
  shows "swap_in_process_memory a time procs segs = Inl UninitRead"
  using assms
proof (induction a time procs segs rule: swap_in_process_memory.induct)
  case (1 a time procs segs)
  note [simp] = swap_in_process_memory.simps [of a time procs segs]
  from "1.prems"(1,4) have None: "first_fit (pm_size pm) segs = None"
    by (auto simp: mem_inv_partition intro: holes.partition_too_large)
  from "1.prems"(1) have wf: "procs_wf m procs" by (simp add: mem_inv_def)
  show ?case
  proof (cases rule: swap_out_process_memory_cases [OF wf, of segs, case_names none some])
    case none
    with "1.prems" None show ?thesis by simp
  next
    case (some b pm\<^sub>b)
    have "b \<noteq> a" using some(1,2) "1.prems"(2,3) by auto
    then have a: "map_of (upd_at b set_in_disk procs) a = Some pm"
      using "1.prems"(2) by (simp add: map_of_upd_at)
    from "1.IH" [OF "1.prems"(2,3) None some(3) refl
        mem_inv_release [OF "1.prems"(1) some(1,2)] a "1.prems"(3,4)]
    show ?thesis using "1.prems"(2,3) None some(3) by simp
  qed
qed

section \<open>The victim of a swap-out\<close>

text \<open>\<open>q\<close> is no better a victim than \<open>r\<close>: smaller, or as large and not longer in memory.\<close>

definition victim_le :: "process_memory_t \<Rightarrow> process_memory_t \<Rightarrow> bool" where
  "victim_le q r \<longleftrightarrow> pm_size q < pm_size r
     \<or> pm_size q = pm_size r \<and> pm_swap_in_time r \<le> pm_swap_in_time q"

lemma victim_le_refl [simp]: "victim_le q q"
  by (simp add: victim_le_def)

lemma victim_le_trans: "victim_le p q \<Longrightarrow> victim_le q r \<Longrightarrow> victim_le p r"
  by (auto simp: victim_le_def)

lemma victim_le_total: "victim_le p q \<or> victim_le q p"
  by (auto simp: victim_le_def)

lemma scan_swap_out_best:
  "victim_le (snd v) (snd (scan_swap_out v ps)) \<and>
   (\<forall>q \<in> set (resident ps). victim_le (snd q) (snd (scan_swap_out v ps)))"
proof (induction ps arbitrary: v)
  case Nil
  then show ?case by (simp add: resident_def)
next
  case (Cons p ps)
  show ?case
  proof (cases "is_process_memory_in_disk (snd p)")
    case True
    with Cons.IH [of v] show ?thesis by (auto simp: resident_def)
  next
    case False
    show ?thesis
    proof (cases "victim_le (snd v) (snd p)")
      case True
      with False have "scan_swap_out v (p # ps) = scan_swap_out p ps"
        by (auto simp: victim_le_def)
      with Cons.IH [of p] True False show ?thesis
        by (auto simp: resident_def intro: victim_le_trans)
    next
      case nle: False
      then have "scan_swap_out v (p # ps) = scan_swap_out v ps"
        by (auto simp: victim_le_def)
      with Cons.IH [of v] nle victim_le_total [of "snd p" "snd v"] False show ?thesis
        by (auto simp: resident_def intro: victim_le_trans)
    qed
  qed
qed

lemma resident_dropWhile:
  "resident (dropWhile (\<lambda>p. is_process_memory_in_disk (snd p)) procs) = resident procs"
  by (induction procs) (auto simp: resident_def)

lemma swap_out_process_memory_victim:
  assumes "swap_out_process_memory procs segs = Inr (procs', segs')"
  shows "\<exists>a pm. (a, pm) \<in> set (resident procs) \<and> (\<forall>q \<in> set (resident procs). victim_le (snd q) pm) \<and>
    procs' = upd_at a set_in_disk procs \<and>
    segs' = add_new_free_memory_segment_to_free_memory_segments_list
      (pm_start_address pm) (pm_size pm) segs"
proof -
  from assms obtain p rest
    where drop: "dropWhile (\<lambda>p. is_process_memory_in_disk (snd p)) procs = p # rest"
      and procs': "procs' = upd_at (fst (scan_swap_out p (p # rest))) set_in_disk procs"
      and segs': "segs' = add_new_free_memory_segment_to_free_memory_segments_list
        (pm_start_address (snd (scan_swap_out p (p # rest))))
        (pm_size (snd (scan_swap_out p (p # rest)))) segs"
    by (auto simp: swap_out_process_memory_def Let_def split: list.splits)
  have "resident (p # rest) = resident procs"
    unfolding drop [symmetric] by (rule resident_dropWhile)
  with scan_swap_out_best [of p "p # rest"]
  have "\<forall>q \<in> set (resident procs). victim_le (snd q) (snd (scan_swap_out p (p # rest)))"
    by simp
  with scan_swap_out_resident [OF drop] procs' segs' show ?thesis
    by (metis prod.collapse)
qed

section \<open>Creation, removal and lookup of process memories\<close>

lemma add_process_memory_append [simp]:
  "add_process_memory_to_process_memories_list p procs = procs @ [p]"
  by (induction procs) auto

lemma fold_max_Suc_mono:
  "m \<le> fold (\<lambda>(a, pm) m. max (Suc a) m) procs m"
  by (induction procs arbitrary: m) (auto intro: le_trans [OF max.cobounded2])

lemma malloc_addr_fresh: "malloc_addr procs \<notin> fst ` set procs"
proof -
  have "a < fold (\<lambda>(a, pm) m. max (Suc a) m) procs m" if "a \<in> fst ` set procs" for a m
    using that
  proof (induction procs arbitrary: m)
    case Nil
    then show ?case by simp
  next
    case (Cons p procs)
    show ?case
    proof (cases "a \<in> fst ` set procs")
      case True
      with Cons.IH show ?thesis by (simp add: case_prod_unfold)
    next
      case False
      with Cons.prems have "a = fst p" by auto
      with fold_max_Suc_mono [of "max (Suc (fst p)) m" procs] show ?thesis
        by (simp add: case_prod_unfold)
    qed
  qed
  then show ?thesis unfolding malloc_addr_def by blast
qed

lemma mem_inv_new:
  assumes "0 < m"
  shows "mem_inv m new_process_memories_list (new_free_memory_segments_list m)"
  using new_free_memory_segments_list_wf [OF assms]
  by (auto simp: mem_inv_def procs_wf_def new_process_memories_list_def resident_def used_cells_def)

lemma new_process_memory_in_disk [simp]: "is_process_memory_in_disk (new_process_memory sz pid)"
  by (simp add: new_process_memory_def is_process_memory_in_disk_def)

lemma mem_inv_in_disk_iff:
  assumes "is_process_memory_in_disk pm"
  shows "mem_inv m (xs @ (a, pm) # ys) segs \<longleftrightarrow>
    mem_inv m (xs @ ys) segs \<and> a \<notin> fst ` set (xs @ ys) \<and> 0 < pm_size pm"
proof -
  have "pm_cells pm = {}" using assms by (simp add: pm_cells_def)
  moreover have "resident (xs @ (a, pm) # ys) = resident (xs @ ys)"
    using assms by (simp add: resident_def)
  ultimately show ?thesis
    unfolding mem_inv_def procs_wf_def by (auto simp: used_cells_def image_iff)
qed

lemma mem_inv_add_new:
  assumes "mem_inv m procs segs" and "0 < sz"
  shows "mem_inv m (procs @ [(malloc_addr procs, new_process_memory sz pid)]) segs"
  using mem_inv_in_disk_iff [of "new_process_memory sz pid" m procs "malloc_addr procs" "[]" segs]
    assms malloc_addr_fresh [of procs]
  by (simp, simp add: new_process_memory_def)

lemma get_process_memory_by_process_id_find:
  "get_process_memory_by_process_id pid procs =
     map_option fst (find (\<lambda>p. pm_process_id (snd p) = pid) procs)"
  by (induction procs) auto

lemma remove_process_memory_notin:
  "\<forall>p \<in> set procs. pm_process_id (snd p) \<noteq> pid \<Longrightarrow>
   remove_process_memory_by_process_id pid procs segs = (0, procs, segs)"
  by (induction procs) auto

lemma remove_process_memory_split:
  "\<forall>p \<in> set xs. pm_process_id (snd p) \<noteq> pid \<Longrightarrow> pm_process_id pm = pid \<Longrightarrow>
   remove_process_memory_by_process_id pid (xs @ (a, pm) # ys) segs =
     (1, xs @ ys,
      if is_process_memory_in_disk pm then segs
      else add_new_free_memory_segment_to_free_memory_segments_list
             (pm_start_address pm) (pm_size pm) segs)"
  by (induction xs) auto

lemma remove_process_memory_cases:
  obtains (absent) "\<forall>p \<in> set procs. pm_process_id (snd p) \<noteq> pid"
  | (present) xs a pm ys where "procs = xs @ (a, pm) # ys"
    and "\<forall>p \<in> set xs. pm_process_id (snd p) \<noteq> pid" and "pm_process_id pm = pid"
  using split_list_first_prop [of procs "\<lambda>p. pm_process_id (snd p) = pid"] by (metis prod.collapse)

lemma mem_inv_remove:
  assumes inv: "mem_inv m procs segs"
    and rem: "remove_process_memory_by_process_id pid procs segs = (r, procs', segs')"
  shows "mem_inv m procs' segs'"
proof (cases rule: remove_process_memory_cases [of procs pid, case_names absent present])
  case absent
  with inv rem show ?thesis by (simp add: remove_process_memory_notin)
next
  case (present xs a pm ys)
  note rem' = rem [unfolded present(1) remove_process_memory_split [OF present(2,3)]]
  show ?thesis
  proof (cases "is_process_memory_in_disk pm")
    case True
    with inv rem' present(1) mem_inv_in_disk_iff [OF True] show ?thesis by simp
  next
    case False
    from inv have wf: "distinct (map fst procs)" by (simp add: mem_inv_def procs_wf_def)
    then have a: "map_of procs a = Some pm" by (rule map_of_is_SomeI) (simp add: present(1))
    have upd: "upd_at a set_in_disk procs = xs @ (a, set_in_disk pm) # ys"
      using wf unfolding present(1) by (rule upd_at_split)
    show ?thesis
      using mem_inv_release [OF inv a False] rem' False
        mem_inv_in_disk_iff [of "set_in_disk pm" m xs a ys]
      unfolding upd by simp
  qed
qed

section \<open>Statistics\<close>

lemma count_free_memory_segments_eq: "count_free_memory_segments n segs = n + int (length segs)"
  by (induction segs arbitrary: n) auto

lemma get_free_memory_segments_list_count_eq [simp]:
  "get_free_memory_segments_list_count segs = int (length segs)"
  by (simp add: get_free_memory_segments_list_count_def count_free_memory_segments_eq)

lemma count_not_in_disk_eq: "count_not_in_disk n procs = n + int (length (resident procs))"
  by (induction procs arbitrary: n) (auto simp: resident_def)

lemma get_process_memories_list_not_in_disk_count_eq [simp]:
  "get_process_memories_list_not_in_disk_count procs = int (length (resident procs))"
  by (simp add: get_process_memories_list_not_in_disk_count_def count_not_in_disk_eq)

lemma size_not_in_disk_eq:
  "size_not_in_disk n procs = n + sum_list (map (\<lambda>p. pm_size (snd p)) (resident procs))"
  by (induction procs arbitrary: n) (auto simp: resident_def)

lemma get_process_memories_list_not_in_disk_size_eq:
  "get_process_memories_list_not_in_disk_size procs =
     sum_list (map (\<lambda>p. pm_size (snd p)) (resident procs))"
  by (simp add: get_process_memories_list_not_in_disk_size_def size_not_in_disk_eq)

lemma finite_free_cells [simp]: "finite (free_cells segs)"
  by (auto simp: free_cells_def seg_cells_def)

lemma finite_used_cells [simp]: "finite (used_cells procs)"
  by (auto simp: used_cells_def pm_cells_def)

lemma card_free_cells: "holes_wf hi segs \<Longrightarrow> int (card (free_cells segs)) = sum_list (map fms_size segs)"
proof (induction segs arbitrary: hi)
  case Nil
  then show ?case by simp
next
  case (Cons s ss)
  from free_cells_hd(4) [OF Cons.prems]
  have "card (free_cells (s # ss)) = card (seg_cells s) + card (free_cells ss)"
    by (simp add: card_Un_disjoint seg_cells_def)
  moreover have "int (card (seg_cells s)) = fms_size s"
    using Cons.prems by (simp add: seg_cells_def card_block)
  ultimately show ?case using Cons.IH Cons.prems by fastforce
qed

lemma procs_wf_Cons:
  assumes "procs_wf m (p # procs)"
  shows "procs_wf m procs" and "pm_cells (snd p) \<inter> used_cells procs = {}" and "0 < pm_size (snd p)"
proof -
  show "procs_wf m procs" and "0 < pm_size (snd p)"
    using assms by (auto simp: procs_wf_def set_resident)
  show "pm_cells (snd p) \<inter> used_cells procs = {}"
    using assms by (fastforce simp: procs_wf_def used_cells_def image_iff)
qed

lemma card_used_cells:
  "procs_wf m procs \<Longrightarrow>
   int (card (used_cells procs)) = sum_list (map (\<lambda>p. pm_size (snd p)) (resident procs))"
proof (induction procs)
  case Nil
  then show ?case by (simp add: used_cells_def resident_def)
next
  case (Cons p procs)
  note wf = procs_wf_Cons [OF Cons.prems]
  have "used_cells (p # procs) = pm_cells (snd p) \<union> used_cells procs"
    by (simp add: used_cells_def)
  with wf(2) have "card (used_cells (p # procs)) = card (pm_cells (snd p)) + card (used_cells procs)"
    by (simp add: card_Un_disjoint pm_cells_def)
  moreover have "int (card (pm_cells (snd p))) =
      (if is_process_memory_in_disk (snd p) then 0 else pm_size (snd p))"
    using wf(3) by (simp add: pm_cells_def card_block)
  ultimately show ?case using Cons.IH [OF wf(1)] by (simp add: resident_def)
qed

lemma memory_conservation:
  assumes "mem_inv m procs segs" and "0 < m"
  shows "get_process_memories_list_not_in_disk_size procs + sum_list (map fms_size segs) = m"
proof -
  from assms(1) have wf: "procs_wf m procs" "holes_wf m segs"
    and disj: "used_cells procs \<inter> free_cells segs = {}"
    and union: "used_cells procs \<union> free_cells segs = {0..<m}"
    by (auto simp: mem_inv_def)
  have "int (card (used_cells procs) + card (free_cells segs)) = m"
    using card_Un_disjoint [OF finite_used_cells finite_free_cells disj] \<open>0 < m\<close>
    by (simp add: union)
  then show ?thesis
    using card_used_cells [OF wf(1)] card_free_cells [OF wf(2)]
    by (simp add: get_process_memories_list_not_in_disk_size_eq)
qed

lemma holes_sum_nonneg: "holes_wf hi segs \<Longrightarrow> 0 \<le> sum_list (map fms_size segs)"
  by (induction segs arbitrary: hi) fastforce+

lemma not_in_disk_size_bounds:
  assumes "mem_inv m procs segs" and "0 < m"
  shows "0 \<le> get_process_memories_list_not_in_disk_size procs"
    and "get_process_memories_list_not_in_disk_size procs \<le> m"
proof -
  have wf: "procs_wf m procs" "holes_wf m segs" using assms(1) by (auto simp: mem_inv_def)
  show "0 \<le> get_process_memories_list_not_in_disk_size procs"
    unfolding get_process_memories_list_not_in_disk_size_eq card_used_cells [OF wf(1), symmetric]
    by simp
  show "get_process_memories_list_not_in_disk_size procs \<le> m"
    using memory_conservation [OF assms] holes_sum_nonneg [OF wf(2)] by simp
qed

section \<open>The number of holes\<close>

lemma holes_wf_nth:
  "holes_wf hi segs \<Longrightarrow> j < length segs \<Longrightarrow>
   0 < fms_size (segs ! j) \<and> fms_size (segs ! j) \<le> fms_start_address (segs ! j)
   \<and> fms_start_address (segs ! j) \<le> hi"
proof (induction segs arbitrary: hi j)
  case Nil
  then show ?case by simp
next
  case (Cons s ss)
  then show ?case
    by (cases j) (auto intro: holes_wf_mono dest!: Cons.IH [rotated])
qed

lemma holes_wf_nth_less:
  "holes_wf hi segs \<Longrightarrow> i < j \<Longrightarrow> j < length segs \<Longrightarrow>
   fms_start_address (segs ! j) < fms_start_address (segs ! i) - fms_size (segs ! i)"
proof (induction segs arbitrary: hi i j)
  case Nil
  then show ?case by simp
next
  case (Cons s ss)
  then obtain j' where j: "j = Suc j'" by (cases j) auto
  show ?case
  proof (cases i)
    case 0
    with Cons.prems j holes_wf_nth [of _ ss j'] show ?thesis by fastforce
  next
    case (Suc i')
    with Cons j show ?thesis by auto
  qed
qed

text \<open>
  Below every hole but the last lies a process memory, and no process memory lies below
  two holes: there is at most one hole more than there are process memories.
\<close>

lemma hole_count_le:
  assumes inv: "mem_inv m procs segs"
  shows "length segs \<le> Suc (length (resident procs))"
proof -
  let ?low = "\<lambda>i. fms_start_address (segs ! i) - fms_size (segs ! i) - 1"
  let ?n = "length segs - 1"
  from inv have wf: "holes_wf m segs" and disj: "used_cells procs \<inter> free_cells segs = {}"
    and union: "used_cells procs \<union> free_cells segs = {0..<m}"
    by (auto simp: mem_inv_def)
  have "\<exists>p \<in> set (resident procs). ?low i \<in> pm_cells (snd p)" if "i < ?n" for i
  proof -
    have i: "i < length segs" "Suc i < length segs" using that by auto
    have below: "?low i \<notin> seg_cells s" if "s \<in> set segs" for s
    proof -
      from that obtain j where j: "j < length segs" "s = segs ! j" by (auto simp: in_set_conv_nth)
      consider "j < i" | "j = i" | "i < j" by linarith
      then show ?thesis
        using holes_wf_nth_less [OF wf, of j i] holes_wf_nth_less [OF wf, of i j]
          holes_wf_nth [OF wf i(1)] i j
        by cases (auto simp: seg_cells_def)
    qed
    then have "?low i \<notin> free_cells segs" by (auto simp: free_cells_def)
    moreover have "0 \<le> ?low i" and "?low i < m"
      using holes_wf_nth_less [OF wf, of i "Suc i"] holes_wf_nth [OF wf i(2)]
        holes_wf_nth [OF wf i(1)] i by auto
    ultimately have "?low i \<in> used_cells procs" using union by auto
    then obtain p where "p \<in> set procs" and p: "?low i \<in> pm_cells (snd p)"
      by (auto simp: used_cells_def)
    then have "p \<in> set (resident procs)" by (auto simp: set_resident pm_cells_def split: if_splits)
    with p show ?thesis by blast
  qed
  then obtain f where f: "f i \<in> set (resident procs)" "?low i \<in> pm_cells (snd (f i))"
    if "i < ?n" for i
    by metis
  have "f i \<noteq> f j" if "i < j" and "j < ?n" for i j
  proof
    have j: "j < length segs" using that(2) by simp
    note less = holes_wf_nth_less [OF wf that(1) j] and nth = holes_wf_nth [OF wf j]
    assume "f i = f j"
    with f [of i] f [of j] that have "?low i \<in> pm_cells (snd (f j))" and "?low j \<in> pm_cells (snd (f j))"
      by auto
    then have "fms_start_address (segs ! j) - 1 \<in> pm_cells (snd (f j))"
      using less nth by (auto simp: pm_cells_def split: if_splits)
    then have "fms_start_address (segs ! j) - 1 \<in> used_cells procs"
      using f(1) [OF that(2)] by (auto simp: used_cells_def set_resident)
    moreover have "fms_start_address (segs ! j) - 1 \<in> seg_cells (segs ! j)"
      using nth by (simp add: seg_cells_def)
    then have "fms_start_address (segs ! j) - 1 \<in> free_cells segs"
      using nth_mem [OF j] by (auto simp: free_cells_def)
    ultimately show False using disj by blast
  qed
  then have "inj_on f {..<?n}" by (auto simp: inj_on_def) (metis linorder_neqE_nat)
  then have "card (f ` {..<?n}) = ?n" by (simp add: card_image)
  moreover have "card (f ` {..<?n}) \<le> card (set (resident procs))"
    by (rule card_mono) (use f(1) in auto)
  ultimately have "?n \<le> length (resident procs)" using card_length [of "resident procs"] by simp
  then show ?thesis by simp
qed

section \<open>Properties of the memory manager\<close>

lemmas mem_op_simps = add_new_process_memory_to_process_memories_list_def

text \<open>A small main memory of 100 units: one process in it, two on disk.\<close>

definition demo_procs :: process_memories_list_t where
  "demo_procs =
     [(0, \<lparr>pm_start_address = 100, pm_size = 60, pm_swap_in_time = 3, pm_process_id = 7\<rparr>),
      (1, \<lparr>pm_start_address = -1, pm_size = 70, pm_swap_in_time = 0, pm_process_id = 8\<rparr>),
      (2, \<lparr>pm_start_address = -1, pm_size = 30, pm_swap_in_time = 0, pm_process_id = 9\<rparr>)]"

definition demo_segs :: free_memory_segments_list_t where
  "demo_segs = [\<lparr>fms_start_address = 40, fms_size = 40\<rparr>]"

lemma demo_mem_inv: "mem_inv 100 demo_procs demo_segs"
  by (auto simp: mem_inv_def procs_wf_def demo_procs_def demo_segs_def resident_def pm_cells_def
      used_cells_def is_process_memory_in_disk_def IN_DISK_def seg_cells_def)


text \<open>C4: Swapping in a process that fits into main memory always succeeds (the loop over
  victims ends with a hole that is large enough), keeps the invariant, moves every other
  process memory at most to disk, and leaves the process in main memory with its size and
  owner unchanged and the current time as its swap-in time.\<close>

theorem swap_in_process_memory_correct:
  assumes "mem_inv m procs segs" and "map_of procs a = Some pm" and "pm_size pm \<le> m"
  shows "\<exists>procs' segs' pm'. swap_in_process_memory a time procs segs = Inr (procs', segs') \<and>
    mem_inv m procs' segs' \<and> evicted a procs procs' \<and> map_of procs' a = Some pm' \<and>
    \<not> is_process_memory_in_disk pm' \<and> pm_size pm' = pm_size pm \<and>
    pm_process_id pm' = pm_process_id pm \<and>
    (is_process_memory_in_disk pm \<longrightarrow> pm_swap_in_time pm' = time)"
  using assms by (rule swap_in_process_memory_ok)

theorem swap_in_process_memory_correct_witness:
  "\<exists>procs' segs' pm'. swap_in_process_memory 1 5 demo_procs demo_segs = Inr (procs', segs') \<and>
    mem_inv 100 procs' segs' \<and> evicted 1 demo_procs procs' \<and> map_of procs' 1 = Some pm' \<and>
    \<not> is_process_memory_in_disk pm' \<and> pm_size pm' = 70 \<and> pm_process_id pm' = 8 \<and>
    pm_swap_in_time pm' = 5"
proof -
  let ?pm = "\<lparr>pm_start_address = -1, pm_size = 70, pm_swap_in_time = 0, pm_process_id = 8\<rparr>"
  have "map_of demo_procs 1 = Some ?pm" by (simp add: demo_procs_def)
  from swap_in_process_memory_correct [OF demo_mem_inv this, of 5] show ?thesis
    by (simp add: is_process_memory_in_disk_def IN_DISK_def)
qed

text \<open>C34: A process larger than main memory is not rejected: every resident process is
  swapped out in vain, and then the code reads the uninitialised pointer to a victim.\<close>

theorem swap_in_process_memory_too_large_undefined:
  assumes "mem_inv m procs segs" and "map_of procs a = Some pm"
    and "is_process_memory_in_disk pm" and "m < pm_size pm"
  shows "swap_in_process_memory a time procs segs = Inl UninitRead"
  using assms by (rule swap_in_process_memory_too_large)

theorem swap_in_process_memory_too_large_undefined_witness:
  "swap_in_process_memory 0 0
     (add_new_process_memory_to_process_memories_list 11 1 new_process_memories_list)
     (new_free_memory_segments_list 10) = Inl UninitRead"
proof -
  have "mem_inv 10 (add_new_process_memory_to_process_memories_list 11 1 new_process_memories_list)
      (new_free_memory_segments_list 10)"
    using mem_inv_add_new [OF mem_inv_new [of 10], of 11 1] by (simp add: mem_op_simps)
  then show ?thesis
  proof (rule swap_in_process_memory_too_large_undefined)
    show "map_of (add_new_process_memory_to_process_memories_list 11 1 new_process_memories_list) 0 =
        Some (new_process_memory 11 1)"
      by (simp add: mem_op_simps new_process_memories_list_def malloc_addr_def)
  qed (simp, simp add: new_process_memory_def)
qed

text \<open>C27: A swap-out takes a largest process memory of those in main memory, among these one
  that was swapped in earliest; it alone moves to disk, and its place becomes a hole.\<close>

theorem swap_out_process_memory_takes_largest:
  assumes "swap_out_process_memory procs segs = Inr (procs', segs')"
  shows "\<exists>a pm. (a, pm) \<in> set (resident procs) \<and>
    (\<forall>q \<in> set (resident procs). pm_size (snd q) < pm_size pm \<or>
       pm_size (snd q) = pm_size pm \<and> pm_swap_in_time pm \<le> pm_swap_in_time (snd q)) \<and>
    procs' = upd_at a set_in_disk procs \<and>
    segs' = add_new_free_memory_segment_to_free_memory_segments_list
      (pm_start_address pm) (pm_size pm) segs"
  using swap_out_process_memory_victim [OF assms] by (simp add: victim_le_def)

theorem swap_out_process_memory_takes_largest_witness:
  "\<exists>a pm. (a, pm) \<in> set (resident demo_procs) \<and>
    (\<forall>q \<in> set (resident demo_procs). pm_size (snd q) < pm_size pm \<or>
       pm_size (snd q) = pm_size pm \<and> pm_swap_in_time pm \<le> pm_swap_in_time (snd q)) \<and>
    fst (projr (swap_out_process_memory demo_procs demo_segs)) = upd_at a set_in_disk demo_procs"
proof -
  obtain procs' segs' where "swap_out_process_memory demo_procs demo_segs = Inr (procs', segs')"
    by (auto simp: swap_out_process_memory_def demo_procs_def is_process_memory_in_disk_def
        IN_DISK_def Let_def)
  from swap_out_process_memory_takes_largest [OF this] this show ?thesis by auto
qed

text \<open>C11: Every operation of the memory manager keeps the invariant that the process memories
  in main memory and the holes tile it: the empty lists, a new process memory, a removal,
  and both ways of swapping out.\<close>

theorem memory_operations_keep_invariant:
  assumes "mem_inv m procs segs" and "0 < sz"
  shows "mem_inv m (add_new_process_memory_to_process_memories_list sz pid procs) segs \<and>
    (case remove_process_memory_by_process_id pid procs segs of (r, procs', segs') \<Rightarrow>
       mem_inv m procs' segs') \<and>
    (\<forall>procs' segs'. swap_out_process_memory procs segs = Inr (procs', segs') \<longrightarrow>
       mem_inv m procs' segs') \<and>
    (\<forall>procs' segs'. swap_out_process_memory_by_process_memory a procs segs = Inr (procs', segs') \<longrightarrow>
       mem_inv m procs' segs')"
proof (intro conjI allI impI)
  show "mem_inv m (add_new_process_memory_to_process_memories_list sz pid procs) segs"
    using mem_inv_add_new [OF assms] by (simp add: mem_op_simps)
  show "case remove_process_memory_by_process_id pid procs segs of (r, procs', segs') \<Rightarrow>
      mem_inv m procs' segs'"
    using mem_inv_remove [OF assms(1), of pid] by (auto split: prod.split)
  have wf: "procs_wf m procs" using assms(1) by (simp add: mem_inv_def)
  fix procs' segs'
  show "mem_inv m procs' segs'" if "swap_out_process_memory procs segs = Inr (procs', segs')"
    using that mem_inv_release [OF assms(1)]
    by (cases rule: swap_out_process_memory_cases [OF wf, of segs, case_names none some]) auto
  show "mem_inv m procs' segs'"
    if "swap_out_process_memory_by_process_memory a procs segs = Inr (procs', segs')"
    using that mem_inv_release [OF assms(1)] assms(1)
    by (auto simp: swap_out_process_memory_by_process_memory_def split: option.splits if_splits)
qed

theorem memory_operations_keep_invariant_witness:
  "mem_inv 100 (add_new_process_memory_to_process_memories_list 5 3 demo_procs) demo_segs"
  using memory_operations_keep_invariant [OF demo_mem_inv, of 5 3] by simp



text \<open>The figures of the status line: the sizes in main memory and of the holes add up to
  the size of main memory, the counts are those of the resident processes and the holes, and
  there is at most one hole more than there are resident processes.\<close>

theorem memory_statistics:
  assumes "mem_inv m procs segs" and "0 < m"
  shows "get_process_memories_list_not_in_disk_size procs + sum_list (map fms_size segs) = m \<and>
    get_process_memories_list_not_in_disk_count procs = int (length (resident procs)) \<and>
    get_free_memory_segments_list_count segs \<le> get_process_memories_list_not_in_disk_count procs + 1"
  using memory_conservation [OF assms] hole_count_le [OF assms(1)] by simp

theorem memory_statistics_witness:
  "get_process_memories_list_not_in_disk_size demo_procs + sum_list (map fms_size demo_segs) = 100 \<and>
    get_process_memories_list_not_in_disk_count demo_procs = int (length (resident demo_procs)) \<and>
    get_free_memory_segments_list_count demo_segs
      \<le> get_process_memories_list_not_in_disk_count demo_procs + 1"
  by (rule memory_statistics [OF demo_mem_inv]) simp

text \<open>Adding a hole that overlaps no other keeps the list sorted in descending order with
  touching holes merged, and the list then covers the old holes and the new one exactly.\<close>

theorem add_new_free_memory_segment_correct:
  assumes "holes_wf m segs" and "0 < sz" and "sz \<le> start" and "start \<le> m"
    and "block start sz \<inter> free_cells segs = {}"
  shows "holes_wf m (add_new_free_memory_segment_to_free_memory_segments_list start sz segs) \<and>
    free_cells (add_new_free_memory_segment_to_free_memory_segments_list start sz segs)
      = block start sz \<union> free_cells segs"
  using add_new_free_memory_segment_wf [OF assms] by blast

theorem add_new_free_memory_segment_correct_witness:
  "holes_wf 100 (add_new_free_memory_segment_to_free_memory_segments_list 100 60 demo_segs) \<and>
    free_cells (add_new_free_memory_segment_to_free_memory_segments_list 100 60 demo_segs)
      = block 100 60 \<union> free_cells demo_segs"
  by (rule add_new_free_memory_segment_correct) (auto simp: demo_segs_def seg_cells_def)

end
