(* ===== verification/C_Library.thy ===== *)
theory C_Library
  imports Prelude
begin

text \<open>
  The functions of the C library that the programs use on text: \<open>fgets\<close>, \<open>strtok\<close>,
  \<open>atoi\<close>, \<open>strlen\<close>, \<open>strcmp\<close> and the conversion \<open>%d\<close> of \<open>printf\<close>. A stream is the list
  of the characters that are still to be read; a C string is the list of its characters
  before the null byte.
\<close>

section \<open>Streams, tokens and numbers\<close>

definition NUL :: char where "NUL = CHR 0x00"

definition newline :: char where "newline = CHR 0x0A"

text \<open>Up to \<open>n\<close> characters of a stream, through the first newline, and what is left.\<close>

fun read_line :: "nat \<Rightarrow> string \<Rightarrow> string \<times> string" where
  "read_line 0 fp = ([], fp)"
| "read_line (Suc n) [] = ([], [])"
| "read_line (Suc n) (c # fp) =
     (if c = newline then ([c], fp)
      else case read_line n fp of (line, fp') \<Rightarrow> (c # line, fp'))"

text \<open>\<open>fgets (line, len, fp)\<close>: \<open>None\<close> at the end of the file, else the line and the rest.\<close>

definition fgets :: "nat \<Rightarrow> string \<Rightarrow> (string \<times> string) option" where
  "fgets len fp = (if fp = [] then None else Some (read_line (len - 1) fp))"

text \<open>The string that starts at a buffer: the characters before the first null byte.\<close>

definition c_string :: "string \<Rightarrow> string" where
  "c_string buf = takeWhile (\<lambda>c. c \<noteq> NUL) buf"

text \<open>
  \<open>strtok\<close> with a single delimiter: the argument is the saved position, the result is the
  token (\<open>None\<close> for \<open>NULL\<close>) and the new saved position.
\<close>

definition strtok :: "char \<Rightarrow> string \<Rightarrow> string option \<times> string" where
  "strtok delim saved =
     (case dropWhile (\<lambda>c. c = delim) saved of
        [] \<Rightarrow> (None, [])
      | s \<Rightarrow> (Some (takeWhile (\<lambda>c. c \<noteq> delim) s), drop 1 (dropWhile (\<lambda>c. c \<noteq> delim) s)))"

definition isspace :: "char \<Rightarrow> bool" where
  "isspace c \<longleftrightarrow> c = CHR '' '' \<or> (9 \<le> (of_char c :: nat) \<and> (of_char c :: nat) \<le> 13)"

definition isdigit :: "char \<Rightarrow> bool" where
  "isdigit c \<longleftrightarrow> 48 \<le> (of_char c :: nat) \<and> (of_char c :: nat) \<le> 57"

definition digits_value :: "string \<Rightarrow> int" where
  "digits_value ds = foldl (\<lambda>n d. 10 * n + (of_char d - 48)) 0 ds"

text \<open>
  \<open>atoi\<close>: white space, an optional sign, digits, and anything after them. A value outside
  the range of \<open>int\<close> has no defined result.
\<close>

definition atoi :: "string \<Rightarrow> int res" where
  "atoi str =
     (let s = dropWhile isspace str in
      case s of
        c # t \<Rightarrow>
          (if c = CHR ''-'' then c_int (- digits_value (takeWhile isdigit t))
           else if c = CHR ''+'' then c_int (digits_value (takeWhile isdigit t))
           else c_int (digits_value (takeWhile isdigit s)))
      | [] \<Rightarrow> Inr 0)"

text \<open>\<open>printf\<close> with the conversion \<open>%d\<close>.\<close>

definition digit_char :: "nat \<Rightarrow> char" where
  "digit_char d = char_of (48 + d)"

fun show_nat :: "nat \<Rightarrow> string" where
  "show_nat n = (if n < 10 then [digit_char n] else show_nat (n div 10) @ [digit_char (n mod 10)])"

declare show_nat.simps [simp del]

definition show_int :: "int \<Rightarrow> string" where
  "show_int x = (if x < 0 then CHR ''-'' # show_nat (nat (- x)) else show_nat (nat x))"

section \<open>Lines\<close>

lemma read_line_length:
  "read_line n fp = (line, fp') \<Longrightarrow> line @ fp' = fp"
  by (induction n fp arbitrary: line fp' rule: read_line.induct) (auto split: if_splits prod.splits)

lemma read_line_whole:
  "newline \<notin> set line \<Longrightarrow> length line < n \<Longrightarrow>
   read_line n (line @ newline # rest) = (line @ [newline], rest)"
proof (induction line arbitrary: n)
  case Nil
  then show ?case by (cases n) auto
next
  case (Cons c line)
  then show ?case by (cases n) auto
qed

section \<open>Numbers\<close>

lemma of_char_digit_char [simp]: "d < 10 \<Longrightarrow> (of_char (digit_char d) :: nat) = 48 + d"
  by (simp add: digit_char_def)

lemma of_char_digit_char_int [simp]: "d < 10 \<Longrightarrow> (of_char (digit_char d) :: int) = 48 + int d"
  using of_char_digit_char [of d]
  by (metis of_nat_add of_nat_numeral of_nat_of_char)

lemma isdigit_digit_char [simp]: "d < 10 \<Longrightarrow> isdigit (digit_char d)"
  by (simp add: isdigit_def)

lemma isdigit_show_nat: "c \<in> set (show_nat n) \<Longrightarrow> isdigit c"
proof (induction n rule: show_nat.induct)
  case (1 n)
  then show ?case by (subst (asm) (2) show_nat.simps) (auto split: if_splits)
qed

lemma show_nat_nonempty [simp]: "show_nat n \<noteq> []"
  by (subst show_nat.simps) simp

lemma digits_value_snoc: "digits_value (ds @ [d]) = 10 * digits_value ds + (of_char d - 48)"
  by (simp add: digits_value_def)

lemma digits_value_show_nat: "digits_value (show_nat n) = int n"
proof (induction n rule: show_nat.induct)
  case (1 n)
  show ?case
  proof (cases "n < 10")
    case True
    then show ?thesis by (subst show_nat.simps) (simp add: digits_value_def)
  next
    case False
    with 1 have "digits_value (show_nat n) = 10 * int (n div 10) + int (n mod 10)"
      by (subst show_nat.simps) (simp add: digits_value_snoc)
    then show ?thesis by (simp add: zdiv_int zmod_int)
  qed
qed

lemma length_show_nat: "n < 10 ^ k \<Longrightarrow> 0 < k \<Longrightarrow> length (show_nat n) \<le> k"
proof (induction n arbitrary: k rule: show_nat.induct)
  case (1 n)
  show ?case
  proof (cases "n < 10")
    case True
    with 1 show ?thesis by (subst show_nat.simps) simp
  next
    case False
    with 1(2) have "k \<noteq> 1" by auto
    with 1(3) obtain j where k: "k = Suc j" "0 < j" by (cases k) auto
    with 1(2) have "n div 10 < 10 ^ j" by (simp add: less_mult_imp_div_less mult.commute)
    with 1(1) [OF False this k(2)] False k(1) show ?thesis by (subst show_nat.simps) simp
  qed
qed

text \<open>The characters of a printed number are digits and a sign: no space, no newline, no null.\<close>

lemma show_int_chars: "c \<in> set (show_int x) \<Longrightarrow> isdigit c \<or> c = CHR ''-''"
  by (auto simp: show_int_def dest: isdigit_show_nat split: if_splits)

lemma isdigit_not_separator:
  "isdigit c \<or> c = CHR ''-'' \<Longrightarrow> c \<noteq> CHR '' '' \<and> c \<noteq> newline \<and> c \<noteq> NUL \<and> \<not> isspace c"
  by (auto simp: isdigit_def isspace_def newline_def NUL_def)

lemma show_int_nonempty [simp]: "show_int x \<noteq> []"
  by (simp add: show_int_def)

lemma length_show_int:
  assumes "int_range x"
  shows "length (show_int x) \<le> 11"
proof -
  have "nat x < 10 ^ 10" and "nat (- x) < 10 ^ 10"
    using assms by (auto simp: int_range_def INT_MAX_def INT_MIN_def)
  then have "length (show_nat (nat x)) \<le> 10" and "length (show_nat (nat (- x))) \<le> 10"
    by (auto intro: length_show_nat)
  then show ?thesis by (simp add: show_int_def)
qed

lemma takeWhile_digits:
  "rest = [] \<or> \<not> isdigit (hd rest) \<Longrightarrow> takeWhile isdigit (show_nat n @ rest) = show_nat n"
  using isdigit_show_nat [of _ n] by (cases rest) (auto simp: takeWhile_append2)

text \<open>\<open>atoi\<close> reads what \<open>%d\<close> prints.\<close>

lemma atoi_show_int:
  assumes "rest = [] \<or> \<not> isdigit (hd rest)"
  shows "atoi (show_int x @ rest) = c_int x"
proof -
  have hd: "hd (show_int x @ rest) \<in> set (show_int x)" by simp
  then have nsp: "\<not> isspace (hd (show_int x @ rest))"
    using show_int_chars isdigit_not_separator by blast
  have drop: "dropWhile isspace (show_int x @ rest) = show_int x @ rest"
    using nsp by (cases "show_int x @ rest") auto
  show ?thesis
  proof (cases "x < 0")
    case True
    then show ?thesis
      unfolding atoi_def Let_def drop
      by (simp add: show_int_def takeWhile_digits [OF assms] digits_value_show_nat)
  next
    case False
    obtain c cs where c: "show_nat (nat x) = c # cs" by (cases "show_nat (nat x)") auto
    with isdigit_show_nat [of c "nat x"] have "isdigit c" by simp
    then have "c \<noteq> CHR ''-''" "c \<noteq> CHR ''+''" by (auto simp: isdigit_def)
    moreover have "takeWhile isdigit (c # cs @ rest) = c # cs"
      using takeWhile_digits [OF assms, of "nat x"] c by simp
    ultimately show ?thesis
      using False c digits_value_show_nat [of "nat x"]
      unfolding atoi_def Let_def drop by (simp add: show_int_def)
  qed
qed

section \<open>System calls\<close>

text \<open>
  The system calls before the work of a program; \<open>works\<close> tells which of them succeed, and
  each one that fails is followed by \<open>exit(1)\<close> or a return of 1 from \<open>main\<close>.
\<close>

fun run_setup :: "('call \<Rightarrow> bool) \<Rightarrow> 'call list \<Rightarrow> unit res" where
  "run_setup works [] = Inr ()"
| "run_setup works (c # cs) = (if works c then run_setup works cs else Inl (Exit 1))"

lemma run_setup_iff: "run_setup works cs = (if \<forall>c \<in> set cs. works c then Inr () else Inl (Exit 1))"
  by (induction cs) auto

end
