(* ===== verification/Process_Parser.thy ===== *)
theory Process_Parser
  imports C_Library
begin

text \<open>
  The reader of the process data file (\<open>project1/process-data-file-parser.c\<close> and
  \<open>.h\<close>), on the contents of the file as a string. The growing array of pointers is kept
  with its capacity, so that every write is checked against it. Shown are that the array
  is never written out of bounds and holds what the lines give in order, what a line
  gives by the number of its words, and that reading inverts writing.
\<close>

section \<open>The parser\<close>

definition INITIAL_SCHEDULED_PROCS_MAX_LEN :: nat where
  "INITIAL_SCHEDULED_PROCS_MAX_LEN = 4"

definition SCHEDULED_PROCS_MAX_LEN_GROW_FACTOR :: nat where
  "SCHEDULED_PROCS_MAX_LEN_GROW_FACTOR = 2"

definition LINE_MAX_LEN :: nat where "LINE_MAX_LEN = 100"

definition TOKEN_DELIMITER :: char where "TOKEN_DELIMITER = CHR '' ''"

definition TOKENS_LEN :: nat where "TOKENS_LEN = 4"

record scheduled_process_t =
  sp_start_time :: int
  sp_process_id :: int
  sp_memory_size :: int
  sp_job_time :: int

definition new_scheduled_process :: "int \<Rightarrow> int \<Rightarrow> int \<Rightarrow> int \<Rightarrow> scheduled_process_t" where
  "new_scheduled_process start_time process_id memory_size job_time =
     \<lparr>sp_start_time = start_time, sp_process_id = process_id,
      sp_memory_size = memory_size, sp_job_time = job_time\<rparr>"

text \<open>The array of pointers: its used part and the length it can grow to before \<open>NULL\<close>.\<close>

record sched_array =
  sa_items :: "scheduled_process_t list"
  sa_max_len :: nat

text \<open>
  The token loop: it stops at the first \<open>NULL\<close> or when the array of tokens is full, so the
  last of four tokens may be \<open>NULL\<close>.
\<close>

function token_loop :: "string option list \<Rightarrow> string \<Rightarrow> string option list" where
  "token_loop tokens saved =
     (if last tokens \<noteq> None \<and> length tokens < TOKENS_LEN
      then case strtok TOKEN_DELIMITER saved of (tok, saved') \<Rightarrow> token_loop (tokens @ [tok]) saved'
      else tokens)"
  by pat_completeness auto
termination
  by (relation "measure (\<lambda>(tokens, saved). TOKENS_LEN - length tokens)") auto

declare token_loop.simps [simp del]

definition line_tokens :: "string \<Rightarrow> string option list" where
  "line_tokens line =
     (case strtok TOKEN_DELIMITER (c_string line) of (tok, saved) \<Rightarrow> token_loop [tok] saved)"

text \<open>\<open>atoi\<close> on a pointer that may be \<open>NULL\<close>.\<close>

definition atoi_ptr :: "string option \<Rightarrow> int res" where
  "atoi_ptr tok = (case tok of None \<Rightarrow> Inl NullDeref | Some s \<Rightarrow> atoi s)"

text \<open>One round on a line: \<open>None\<close> is \<open>continue\<close>.\<close>

definition parse_line :: "string \<Rightarrow> scheduled_process_t option res" where
  "parse_line line =
     (let tokens = line_tokens line in
      if length tokens \<noteq> TOKENS_LEN then Inr None
      else res_bind (atoi_ptr (tokens ! 0)) (\<lambda>start_time.
           res_bind (atoi_ptr (tokens ! 1)) (\<lambda>process_id.
           res_bind (atoi_ptr (tokens ! 2)) (\<lambda>memory_size.
           res_bind (atoi_ptr (tokens ! 3)) (\<lambda>job_time.
             Inr (Some (new_scheduled_process start_time process_id memory_size job_time)))))))"

definition array_write :: "sched_array \<Rightarrow> scheduled_process_t \<Rightarrow> sched_array res" where
  "array_write arr proc =
     (let arr' = (if length (sa_items arr) = sa_max_len arr
                  then arr\<lparr>sa_max_len := sa_max_len arr * SCHEDULED_PROCS_MAX_LEN_GROW_FACTOR\<rparr>
                  else arr)
      in if length (sa_items arr') < sa_max_len arr' + 1
         then Inr (arr'\<lparr>sa_items := sa_items arr' @ [proc]\<rparr>)
         else Inl OutOfBounds)"

lemma fgets_less:
  assumes "fgets LINE_MAX_LEN fp = Some (line, fp')"
  shows "length fp' < length fp"
proof -
  obtain n where n: "LINE_MAX_LEN - 1 = Suc n"
    using that [of 98] by (simp add: LINE_MAX_LEN_def)
  with assms obtain c cs where fp: "fp = c # cs" and rd: "read_line (Suc n) (c # cs) = (line, fp')"
    by (cases fp) (auto simp: fgets_def)
  from rd have "line \<noteq> []" by (auto split: if_splits prod.splits)
  with read_line_length [OF rd] show ?thesis unfolding fp by (metis append_eq_conv_conj
    length_append length_greater_0_conv less_add_same_cancel2)
qed

function read_lines :: "sched_array \<Rightarrow> string \<Rightarrow> sched_array res" where
  "read_lines arr fp =
     (case fgets LINE_MAX_LEN fp of
        None \<Rightarrow> Inr arr
      | Some (line, fp') \<Rightarrow>
          res_bind (parse_line line) (\<lambda>proc.
            case proc of
              None \<Rightarrow> read_lines arr fp'
            | Some p \<Rightarrow> res_bind (array_write arr p) (\<lambda>arr'. read_lines arr' fp')))"
  by pat_completeness auto
termination
  by (relation "measure (\<lambda>(arr, fp). length fp)") (auto dest: fgets_less)

declare read_lines.simps [simp del]

text \<open>The last write is the terminating \<open>NULL\<close>; the result is what stands before it.\<close>

definition parse_process_data_file :: "string \<Rightarrow> scheduled_process_t list res" where
  "parse_process_data_file fp =
     res_bind (read_lines \<lparr>sa_items = [], sa_max_len = INITIAL_SCHEDULED_PROCS_MAX_LEN\<rparr> fp)
       (\<lambda>arr. if length (sa_items arr) < sa_max_len arr + 1 then Inr (sa_items arr)
              else Inl OutOfBounds)"

text \<open>The printed form of the scheduled processes.\<close>

definition print_scheduled_process :: "scheduled_process_t \<Rightarrow> string" where
  "print_scheduled_process sp =
     CHR 0x22 # ''Start time: '' @ show_int (sp_start_time sp) @
     '', Process id: '' @ show_int (sp_process_id sp) @
     '', Memory size: '' @ show_int (sp_memory_size sp) @
     '', Job time: '' @ show_int (sp_job_time sp) @ [CHR 0x22]"

fun print_scheduled_processes_from :: "nat \<Rightarrow> scheduled_process_t list \<Rightarrow> string" where
  "print_scheduled_processes_from i [] = []"
| "print_scheduled_processes_from i (sp # sps) =
     (if i \<noteq> 0 then '','' @ [newline] else []) @ print_scheduled_process sp
       @ print_scheduled_processes_from (i + 1) sps"

definition print_scheduled_processes :: "scheduled_process_t list \<Rightarrow> string" where
  "print_scheduled_processes sps = ''['' @ print_scheduled_processes_from 0 sps @ '']''"

section \<open>The array\<close>

text \<open>The lines that \<open>fgets\<close> gives one after the other.\<close>

function file_lines :: "string \<Rightarrow> string list" where
  "file_lines fp =
     (case fgets LINE_MAX_LEN fp of
        None \<Rightarrow> []
      | Some (line, fp') \<Rightarrow> line # file_lines fp')"
  by pat_completeness auto
termination
  by (relation "measure length") (auto dest: fgets_less)

declare file_lines.simps [simp del]

text \<open>What the lines give, in order and without an array.\<close>

fun collect_lines :: "string list \<Rightarrow> scheduled_process_t list res" where
  "collect_lines [] = Inr []"
| "collect_lines (line # rest) =
     res_bind (parse_line line) (\<lambda>proc.
     res_bind (collect_lines rest) (\<lambda>procs.
       Inr (case proc of None \<Rightarrow> procs | Some p \<Rightarrow> p # procs)))"

definition array_ok :: "sched_array \<Rightarrow> bool" where
  "array_ok arr \<longleftrightarrow> length (sa_items arr) \<le> sa_max_len arr \<and> 0 < sa_max_len arr"

lemma array_write_ok:
  assumes "array_ok arr"
  obtains arr' where "array_write arr p = Inr arr'" and "array_ok arr'"
    and "sa_items arr' = sa_items arr @ [p]"
proof -
  let ?n = "if length (sa_items arr) = sa_max_len arr then sa_max_len arr * 2 else sa_max_len arr"
  have "array_write arr p = Inr \<lparr>sa_items = sa_items arr @ [p], sa_max_len = ?n\<rparr>"
    using assms by (simp add: array_write_def array_ok_def Let_def
        SCHEDULED_PROCS_MAX_LEN_GROW_FACTOR_def)
  then show thesis by (rule that) (use assms in \<open>auto simp: array_ok_def\<close>)
qed

lemma read_lines_collect:
  "array_ok arr \<Longrightarrow>
   (case collect_lines (file_lines fp) of
      Inl e \<Rightarrow> read_lines arr fp = Inl e
    | Inr procs \<Rightarrow> \<exists>arr'. read_lines arr fp = Inr arr' \<and> array_ok arr' \<and>
        sa_items arr' = sa_items arr @ procs)"
proof (induction fp arbitrary: arr rule: file_lines.induct)
  case (1 fp)
  show ?case
  proof (cases "fgets LINE_MAX_LEN fp")
    case None
    with 1(2) show ?thesis by (simp add: file_lines.simps [of fp] read_lines.simps [of arr fp])
  next
    case (Some a)
    obtain line fp' where a: "a = (line, fp')" by fastforce
    note IH = 1(1) [OF Some a [symmetric]]
    note unfold = file_lines.simps [of fp] read_lines.simps [of arr fp] Some a
    show ?thesis
    proof (cases "parse_line line")
      case (Inl e)
      then show ?thesis by (simp add: unfold)
    next
      case (Inr r)
      show ?thesis
      proof (cases r)
        case None
        with IH [OF 1(2)] Inr show ?thesis
          by (cases "collect_lines (file_lines fp')") (auto simp: unfold)
      next
        case (Some p)
        from array_write_ok [OF 1(2), of p] obtain arr' where "array_write arr p = Inr arr'"
          and "array_ok arr'" and "sa_items arr' = sa_items arr @ [p]" .
        with IH [of arr'] Inr Some show ?thesis
          by (cases "collect_lines (file_lines fp')") (auto simp: unfold)
      qed
    qed
  qed
qed

lemma parse_process_data_file_collect:
  "parse_process_data_file fp = collect_lines (file_lines fp)"
proof -
  have "array_ok \<lparr>sa_items = [], sa_max_len = INITIAL_SCHEDULED_PROCS_MAX_LEN\<rparr>"
    by (simp add: array_ok_def INITIAL_SCHEDULED_PROCS_MAX_LEN_def)
  from read_lines_collect [OF this, of fp] show ?thesis
    by (cases "collect_lines (file_lines fp)")
      (auto simp: parse_process_data_file_def array_ok_def)
qed

section \<open>Tokens\<close>

text \<open>The words of a line: its maximal parts without the delimiter.\<close>

function words :: "string \<Rightarrow> string list" where
  "words s =
     (case dropWhile (\<lambda>c. c = TOKEN_DELIMITER) s of
        [] \<Rightarrow> []
      | t \<Rightarrow> takeWhile (\<lambda>c. c \<noteq> TOKEN_DELIMITER) t
             # words (drop 1 (dropWhile (\<lambda>c. c \<noteq> TOKEN_DELIMITER) t)))"
  by pat_completeness auto
termination
proof (relation "measure length")
  fix s c and t :: string
  assume s: "dropWhile (\<lambda>c. c = TOKEN_DELIMITER) s = c # t"
  have "c \<noteq> TOKEN_DELIMITER" using s by (metis (full_types) dropWhile_eq_Cons_conv)
  then have "length (dropWhile (\<lambda>c. c \<noteq> TOKEN_DELIMITER) (c # t)) \<le> length t"
    by (simp add: length_dropWhile_le)
  moreover have "length (c # t) \<le> length s" unfolding s [symmetric] by (rule length_dropWhile_le)
  ultimately show "(drop 1 (dropWhile (\<lambda>c. c \<noteq> TOKEN_DELIMITER) (c # t)), s) \<in> measure length"
    by simp
qed simp

declare words.simps [simp del]

lemma strtok_words:
  "strtok TOKEN_DELIMITER s = (case words s of [] \<Rightarrow> (None, []) | w # ws \<Rightarrow>
     (Some w, drop 1 (dropWhile (\<lambda>c. c \<noteq> TOKEN_DELIMITER) (dropWhile (\<lambda>c. c = TOKEN_DELIMITER) s))))"
  by (subst words.simps)
    (cases "dropWhile (\<lambda>c. c = TOKEN_DELIMITER) s", simp_all add: strtok_def del: dropWhile_eq_Nil_conv)

lemma words_tl:
  assumes "words s = w # ws" and "strtok TOKEN_DELIMITER s = (tok, s')"
  shows "tok = Some w" and "words s' = ws"
  using assms by (subst (asm) words.simps, simp add: strtok_def split: list.splits)+

lemma token_loop_None [simp]:
  "token_loop (tokens @ [None]) s = tokens @ [None]" "token_loop [None] s = [None]"
  by (subst token_loop.simps, simp)+

lemma token_loop_words:
  assumes "tokens \<noteq> []" and "last tokens \<noteq> None" and "length tokens \<le> TOKENS_LEN"
  shows "token_loop tokens s =
    take TOKENS_LEN (tokens @ map Some (words s) @ [None])"
  using assms
proof (induction tokens s rule: token_loop.induct)
  case (1 tokens s)
  obtain tok s' where tok: "strtok TOKEN_DELIMITER s = (tok, s')" by fastforce
  show ?case
  proof (cases "length tokens < TOKENS_LEN")
    case False
    with 1(3-) show ?thesis by (simp add: token_loop.simps [of tokens s])
  next
    case True
    then have step: "token_loop tokens s = token_loop (tokens @ [tok]) s'"
      using 1(3) by (simp add: token_loop.simps [of tokens s] tok)
    show ?thesis
    proof (cases "words s")
      case Nil
      then have "tok = None" using tok by (simp add: strtok_words)
      with True Nil show ?thesis
        by (simp add: step)
    next
      case (Cons w ws)
      note tl = words_tl [OF Cons tok]
      have "token_loop (tokens @ [tok]) s' = take TOKENS_LEN ((tokens @ [tok]) @ map Some (words s') @ [None])"
        using 1(1) [OF _ tok [symmetric]] 1(3) True tl(1) by simp
      then show ?thesis by (simp add: step tl Cons)
    qed
  qed
qed

lemma line_tokens_words:
  "line_tokens line = take TOKENS_LEN (map Some (words (c_string line)) @ [None])"
proof -
  obtain tok s where tok: "strtok TOKEN_DELIMITER (c_string line) = (tok, s)" by fastforce
  show ?thesis
  proof (cases "words (c_string line)")
    case Nil
    then have "tok = None" using tok by (simp add: strtok_words)
    with Nil show ?thesis
      by (simp add: line_tokens_def tok TOKENS_LEN_def)
  next
    case (Cons w ws)
    note tl = words_tl [OF Cons tok]
    show ?thesis
      by (simp add: line_tokens_def tok tl Cons token_loop_words TOKENS_LEN_def)
  qed
qed

lemma parse_line_few:
  "length (words (c_string line)) < 3 \<Longrightarrow> parse_line line = Inr None"
  by (simp add: parse_line_def line_tokens_words TOKENS_LEN_def min_def)

lemma length_three_cases:
  assumes "length xs = 3" obtains x y z where "xs = [x, y, z]"
  using assms that by (auto simp: numeral_eq_Suc length_Suc_conv)

lemma parse_line_three:
  assumes "words (c_string line) = [t0, t1, t2]"
  shows "parse_line line = res_bind (atoi t0) (\<lambda>_. res_bind (atoi t1) (\<lambda>_.
    res_bind (atoi t2) (\<lambda>_. Inl NullDeref)))"
  by (simp add: parse_line_def line_tokens_words TOKENS_LEN_def assms atoi_ptr_def numeral_eq_Suc)

lemma parse_line_four:
  assumes "words (c_string line) = t0 # t1 # t2 # t3 # ts"
  shows "parse_line line = res_bind (atoi t0) (\<lambda>a. res_bind (atoi t1) (\<lambda>b.
    res_bind (atoi t2) (\<lambda>c. res_bind (atoi t3) (\<lambda>d. Inr (Some (new_scheduled_process a b c d))))))"
  by (simp add: parse_line_def line_tokens_words TOKENS_LEN_def assms atoi_ptr_def numeral_eq_Suc)

section \<open>Writing and reading back\<close>

definition render_process :: "scheduled_process_t \<Rightarrow> string" where
  "render_process sp = show_int (sp_start_time sp) @ '' '' @ show_int (sp_process_id sp) @ '' ''
     @ show_int (sp_memory_size sp) @ '' '' @ show_int (sp_job_time sp) @ [newline]"

definition render_file :: "scheduled_process_t list \<Rightarrow> string" where
  "render_file sps = concat (map render_process sps)"

definition int_process :: "scheduled_process_t \<Rightarrow> bool" where
  "int_process sp \<longleftrightarrow> int_range (sp_start_time sp) \<and> int_range (sp_process_id sp) \<and>
     int_range (sp_memory_size sp) \<and> int_range (sp_job_time sp)"

lemma words_word:
  assumes "w \<noteq> []" and "\<forall>c \<in> set w. c \<noteq> TOKEN_DELIMITER"
  shows "words (w @ TOKEN_DELIMITER # s) = w # words s" and "words w = [w]"
proof -
  obtain c cs where w: "w = c # cs" using assms(1) by (cases w) auto
  have c: "c \<noteq> TOKEN_DELIMITER" using assms(2) w by simp
  have "takeWhile (\<lambda>c. c \<noteq> TOKEN_DELIMITER) (w @ TOKEN_DELIMITER # s) = w"
    and "dropWhile (\<lambda>c. c \<noteq> TOKEN_DELIMITER) (w @ TOKEN_DELIMITER # s) = TOKEN_DELIMITER # s"
    using assms(2) by (auto simp: takeWhile_append2 dropWhile_append2)
  with w c show "words (w @ TOKEN_DELIMITER # s) = w # words s"
    by (subst words.simps) simp
  have "takeWhile (\<lambda>c. c \<noteq> TOKEN_DELIMITER) w = w" and "dropWhile (\<lambda>c. c \<noteq> TOKEN_DELIMITER) w = []"
    using assms(2) by auto
  with w c show "words w = [w]"
    by (subst words.simps) (simp add: words.simps [of "[]"] del: dropWhile_eq_Nil_conv)
qed

lemma show_int_no_delimiter: "c \<in> set (show_int x) \<Longrightarrow> c \<noteq> TOKEN_DELIMITER \<and> c \<noteq> newline \<and> c \<noteq> NUL"
  using show_int_chars isdigit_not_separator by (fastforce simp: TOKEN_DELIMITER_def)

lemma words_render_process:
  "words (c_string (render_process sp)) =
    [show_int (sp_start_time sp), show_int (sp_process_id sp), show_int (sp_memory_size sp),
     show_int (sp_job_time sp) @ [newline]]"
proof -
  have "c \<noteq> NUL" if "c \<in> set (render_process sp)" for c
    using that show_int_no_delimiter by (fastforce simp: render_process_def newline_def NUL_def)
  then have "c_string (render_process sp) = render_process sp" by (simp add: c_string_def)
  moreover have "render_process sp = show_int (sp_start_time sp) @ TOKEN_DELIMITER
      # show_int (sp_process_id sp) @ TOKEN_DELIMITER # show_int (sp_memory_size sp)
      @ TOKEN_DELIMITER # show_int (sp_job_time sp) @ [newline]"
    by (simp add: render_process_def TOKEN_DELIMITER_def)
  moreover have "\<forall>c \<in> set (show_int x @ [newline]). c \<noteq> TOKEN_DELIMITER" for x
    using show_int_no_delimiter by (auto simp: newline_def TOKEN_DELIMITER_def)
  then have "words (show_int x @ [newline]) = [show_int x @ [newline]]" for x
    by (intro words_word(2)) simp_all
  moreover have "words (show_int x @ TOKEN_DELIMITER # s) = show_int x # words s" for x s
    using show_int_no_delimiter by (intro words_word(1)) simp_all
  ultimately show ?thesis by simp
qed

lemma parse_line_render:
  assumes "int_process sp"
  shows "parse_line (render_process sp) = Inr (Some sp)"
proof -
  have "atoi (show_int x @ [newline]) = c_int x" for x
    by (intro atoi_show_int) (simp add: isdigit_def newline_def)
  moreover have "atoi (show_int x) = c_int x" for x using atoi_show_int [of "[]" x] by simp
  ultimately show ?thesis
    using assms by (simp add: parse_line_four [OF words_render_process] int_process_def
        new_scheduled_process_def)
qed

lemma fgets_render:
  assumes "int_process sp"
  shows "fgets LINE_MAX_LEN (render_process sp @ rest) = Some (render_process sp, rest)"
proof -
  let ?l = "show_int (sp_start_time sp) @ '' '' @ show_int (sp_process_id sp) @ '' ''
     @ show_int (sp_memory_size sp) @ '' '' @ show_int (sp_job_time sp)"
  have "length ?l < LINE_MAX_LEN - 1"
    using assms length_show_int [of "sp_start_time sp"] length_show_int [of "sp_process_id sp"]
      length_show_int [of "sp_memory_size sp"] length_show_int [of "sp_job_time sp"]
    by (simp add: int_process_def LINE_MAX_LEN_def)
  moreover have "newline \<notin> set ?l"
    using show_int_no_delimiter by (fastforce simp: newline_def)
  ultimately have "read_line (LINE_MAX_LEN - 1) (?l @ newline # rest) = (?l @ [newline], rest)"
    by (rule read_line_whole [rotated])
  then show ?thesis by (simp add: fgets_def render_process_def)
qed

lemma file_lines_render:
  "\<forall>sp \<in> set sps. int_process sp \<Longrightarrow> file_lines (render_file sps) = map render_process sps"
proof (induction sps)
  case Nil
  then show ?case by (simp add: render_file_def file_lines.simps fgets_def)
next
  case (Cons sp sps)
  then show ?case
    by (subst file_lines.simps) (simp add: render_file_def fgets_render)
qed

lemma collect_render:
  "\<forall>sp \<in> set sps. int_process sp \<Longrightarrow> collect_lines (map render_process sps) = Inr sps"
  by (induction sps) (simp_all add: parse_line_render)




section \<open>Properties of the parser\<close>

text \<open>The array of the parser is never written outside its bounds, for any file: growing
  it by doubling always happens in time, and the result is exactly what the lines give one
  after the other, or the error of the first line that has one.\<close>

theorem parse_process_data_file_lines:
  "parse_process_data_file fp = collect_lines (file_lines fp)"
  by (rule parse_process_data_file_collect)

text \<open>C33: What a line gives depends on the number of its words: with fewer than three it is
  skipped, with four or more the first four are its numbers, and with exactly three the
  parser passes a null pointer to \<open>atoi\<close> unless a number is out of range before that.\<close>

theorem parse_line_by_words:
  "(length (words (c_string line)) < 3 \<longrightarrow> parse_line line = Inr None) \<and>
   (\<forall>t0 t1 t2. words (c_string line) = [t0, t1, t2] \<longrightarrow>
      parse_line line = res_bind (atoi t0) (\<lambda>_. res_bind (atoi t1) (\<lambda>_.
        res_bind (atoi t2) (\<lambda>_. Inl NullDeref)))) \<and>
   (\<forall>t0 t1 t2 t3 ts. words (c_string line) = t0 # t1 # t2 # t3 # ts \<longrightarrow>
      parse_line line = res_bind (atoi t0) (\<lambda>a. res_bind (atoi t1) (\<lambda>b. res_bind (atoi t2) (\<lambda>c.
        res_bind (atoi t3) (\<lambda>d. Inr (Some (new_scheduled_process a b c d)))))))"
  by (simp add: parse_line_few parse_line_three parse_line_four)

theorem parse_line_by_words_witness:
  "parse_line ''7'' = Inr None \<and> parse_line ''1 2 3'' = Inl NullDeref \<and>
   parse_line ''1 2 3 4 5'' = Inr (Some (new_scheduled_process 1 2 3 4))"
proof -
  have w: "words (c_string ''7'') = [''7'']" "words (c_string ''1 2 3'') = [''1'', ''2'', ''3'']"
    "words (c_string ''1 2 3 4 5'') = ''1'' # ''2'' # ''3'' # ''4'' # [''5'']"
    by code_simp+
  have a: "atoi ''1'' = Inr 1" "atoi ''2'' = Inr 2" "atoi ''3'' = Inr 3" "atoi ''4'' = Inr 4"
    by code_simp+
  show ?thesis
    using parse_line_by_words [of "''7''"] parse_line_by_words [of "''1 2 3''"]
      parse_line_by_words [of "''1 2 3 4 5''"] by (simp add: w a)
qed

text \<open>C19: Reading inverts writing: a file with one line of four numbers for each process is
  read back as these processes, for all values of type \<open>int\<close>.\<close>

theorem parse_render_roundtrip:
  assumes "\<forall>sp \<in> set sps. int_process sp"
  shows "parse_process_data_file (render_file sps) = Inr sps"
  using assms by (simp add: parse_process_data_file_collect file_lines_render collect_render)

theorem parse_render_roundtrip_witness:
  "parse_process_data_file (render_file [new_scheduled_process 0 (-7) 2147483647 15]) =
     Inr [new_scheduled_process 0 (-7) 2147483647 15]"
  by (rule parse_render_roundtrip)
    (simp add: new_scheduled_process_def int_process_def int_range_def INT_MAX_def INT_MIN_def)



end
