(* ===== verification/Process_Scheduler.thy ===== *)
theory Process_Scheduler
  imports Memory_Swapping Process_Parser "HOL-Library.Signed_Division"
begin

text \<open>
  The process scheduler of the simulator (\<open>project1/process-scheduler.c\<close> and \<open>.h\<close>):
  process control blocks, their queues, the operations on them, and the two runners. The
  body of the \<open>while (1)\<close> loop of a runner is a function from states to the next state or
  the state it leaves the loop with (\<open>fcfs_step\<close>, \<open>multi_step\<close>); the loops over them are
  total, as shown in the theories \<open>Fcfs\<close> and \<open>Multi\<close>.

  A queue is the list of its control blocks, head first: control blocks are reached
  through one queue or the variable \<open>running\<close> only. A control block refers to its process
  memory by address.
\<close>

section \<open>Data\<close>

definition MIN_PRIORITY :: int where "MIN_PRIORITY = 3"
definition Q1_QUANTUM :: int where "Q1_QUANTUM = 2"
definition Q2_QUANTUM :: int where "Q2_QUANTUM = 4"
definition Q3_QUANTUM :: int where "Q3_QUANTUM = 8"

datatype process_state_t = ready | running | terminated

record process_control_block_t =
  pcb_process_id :: int
  pcb_process_state :: process_state_t
  pcb_process_memory :: addr
  pcb_priority :: int
  pcb_job_time :: int
  pcb_burst_time :: int
  pcb_cpu_time :: int

type_synonym pcbs_queue_t = "process_control_block_t list"

text \<open>What the simulation prints: a status line, or the final line.\<close>

datatype out_line =
    Status (st_time: int) (st_running: int) (st_numprocesses: int) (st_numholes: int) (st_memusage: int)
  | Finished int

section \<open>Control blocks\<close>

definition new_process_control_block ::
  "int \<Rightarrow> int \<Rightarrow> int \<Rightarrow> process_memories_list_t
    \<Rightarrow> process_control_block_t \<times> process_memories_list_t" where
  "new_process_control_block process_id memory_size job_time proc_mems_list =
     (let a = malloc_addr proc_mems_list in
      (\<lparr>pcb_process_id = process_id, pcb_process_state = ready, pcb_process_memory = a,
        pcb_priority = 1, pcb_job_time = job_time, pcb_burst_time = 0, pcb_cpu_time = 0\<rparr>,
       add_process_memory_to_process_memories_list
         (a, new_process_memory memory_size process_id) proc_mems_list))"

definition new_process_control_block_by_scheduled_process ::
  "scheduled_process_t \<Rightarrow> process_memories_list_t
    \<Rightarrow> process_control_block_t \<times> process_memories_list_t" where
  "new_process_control_block_by_scheduled_process sp proc_mems_list =
     new_process_control_block (sp_process_id sp) (sp_memory_size sp) (sp_job_time sp) proc_mems_list"

definition new_pcbs_queue :: pcbs_queue_t where "new_pcbs_queue = []"

definition new_pcbs_list :: pcbs_queue_t where "new_pcbs_list = new_pcbs_queue"

text \<open>
  Insertion before the first control block of lower priority (larger value), or of the
  same priority and larger process id; else at the end.
\<close>

fun add_pcb_to_pcbs_queue :: "process_control_block_t \<Rightarrow> pcbs_queue_t \<Rightarrow> pcbs_queue_t" where
  "add_pcb_to_pcbs_queue pcb [] = [pcb]"
| "add_pcb_to_pcbs_queue pcb (curr_pcb # rest) =
     (if pcb_priority pcb < pcb_priority curr_pcb \<or>
         pcb_priority pcb = pcb_priority curr_pcb \<and> pcb_process_id pcb < pcb_process_id curr_pcb
      then pcb # curr_pcb # rest
      else curr_pcb # add_pcb_to_pcbs_queue pcb rest)"

definition pop_front_pcb_from_pcbs_queue ::
  "pcbs_queue_t \<Rightarrow> process_control_block_t option \<times> pcbs_queue_t" where
  "pop_front_pcb_from_pcbs_queue pcbs_queue =
     (case pcbs_queue of [] \<Rightarrow> (None, []) | pcb # rest \<Rightarrow> (Some pcb, rest))"

fun append_pcb_to_pcbs_list :: "process_control_block_t \<Rightarrow> pcbs_queue_t \<Rightarrow> pcbs_queue_t" where
  "append_pcb_to_pcbs_list pcb [] = [pcb]"
| "append_pcb_to_pcbs_list pcb (curr_pcb # rest) = curr_pcb # append_pcb_to_pcbs_list pcb rest"

definition pop_front_pcb_from_pcbs_list ::
  "pcbs_queue_t \<Rightarrow> process_control_block_t option \<times> pcbs_queue_t" where
  "pop_front_pcb_from_pcbs_list pcbs_list = pop_front_pcb_from_pcbs_queue pcbs_list"

definition load_pcb ::
  "process_control_block_t \<Rightarrow> int \<Rightarrow> process_memories_list_t \<Rightarrow> free_memory_segments_list_t
    \<Rightarrow> (process_control_block_t \<times> process_memories_list_t \<times> free_memory_segments_list_t) res" where
  "load_pcb pcb time proc_mems_list mem_segs_list =
     (case map_of proc_mems_list (pcb_process_memory pcb) of
        None \<Rightarrow> Inl NullDeref
      | Some proc_mem \<Rightarrow>
          res_bind
            (if is_process_memory_in_disk proc_mem
             then swap_in_process_memory (pcb_process_memory pcb) time proc_mems_list mem_segs_list
             else Inr (proc_mems_list, mem_segs_list))
            (\<lambda>(proc_mems_list', mem_segs_list').
               Inr (pcb\<lparr>pcb_process_state := running, pcb_burst_time := 0\<rparr>,
                    proc_mems_list', mem_segs_list')))"

definition run_pcb :: "process_control_block_t \<Rightarrow> process_control_block_t res" where
  "run_pcb pcb =
     res_bind (c_int (pcb_burst_time pcb + 1)) (\<lambda>burst_time.
     res_bind (c_int (pcb_cpu_time pcb + 1)) (\<lambda>cpu_time.
       Inr (pcb\<lparr>pcb_burst_time := burst_time, pcb_cpu_time := cpu_time\<rparr>)))"

definition preempt_pcb :: "process_control_block_t \<Rightarrow> process_control_block_t" where
  "preempt_pcb pcb = pcb\<lparr>pcb_process_state := ready\<rparr>"

definition ready_and_decrease_priority_pcb :: "process_control_block_t \<Rightarrow> process_control_block_t" where
  "ready_and_decrease_priority_pcb pcb =
     pcb\<lparr>pcb_priority := (if pcb_priority pcb + 1 > MIN_PRIORITY then MIN_PRIORITY
                           else pcb_priority pcb + 1),
         pcb_process_state := ready, pcb_burst_time := 0\<rparr>"

definition terminate_pcb ::
  "process_control_block_t \<Rightarrow> process_memories_list_t \<Rightarrow> free_memory_segments_list_t
    \<Rightarrow> (process_control_block_t \<times> process_memories_list_t \<times> free_memory_segments_list_t) res" where
  "terminate_pcb pcb proc_mems_list mem_segs_list =
     (case map_of proc_mems_list (pcb_process_memory pcb) of
        None \<Rightarrow> Inl NullDeref
      | Some proc_mem \<Rightarrow>
          res_bind
            (if \<not> is_process_memory_in_disk proc_mem
             then swap_out_process_memory_by_process_memory
                    (pcb_process_memory pcb) proc_mems_list mem_segs_list
             else Inr (proc_mems_list, mem_segs_list))
            (\<lambda>(proc_mems_list', mem_segs_list').
               Inr (pcb\<lparr>pcb_process_state := terminated\<rparr>, proc_mems_list', mem_segs_list')))"

definition is_pcb_finished :: "process_control_block_t \<Rightarrow> bool" where
  "is_pcb_finished pcb \<longleftrightarrow> pcb_cpu_time pcb \<ge> pcb_job_time pcb"

definition get_quantum_by_pcb :: "process_control_block_t \<Rightarrow> int" where
  "get_quantum_by_pcb pcb =
     (if pcb_priority pcb = 1 then Q1_QUANTUM
      else if pcb_priority pcb = 2 then Q2_QUANTUM
      else if pcb_priority pcb = 3 then Q3_QUANTUM
      else Q3_QUANTUM)"

definition is_quantum_exhausted_by_pcb :: "process_control_block_t \<Rightarrow> bool" where
  "is_quantum_exhausted_by_pcb pcb \<longleftrightarrow> pcb_burst_time pcb \<ge> get_quantum_by_pcb pcb"

text \<open>
  The status line. The percentage is rounded up; \<open>/\<close> and \<open>%\<close> truncate, and dividing by
  zero or a product outside \<open>int\<close> have no defined result.
\<close>

definition print_simulation_status ::
  "int \<Rightarrow> process_control_block_t \<Rightarrow> process_memories_list_t \<Rightarrow> free_memory_segments_list_t
    \<Rightarrow> int \<Rightarrow> out_line res" where
  "print_simulation_status time pcb process_memories_list free_list memsize =
     (let memusagesize = get_process_memories_list_not_in_disk_size process_memories_list in
      res_bind (c_int (100 * memusagesize)) (\<lambda>memusageproportion.
        if memsize = 0 then Inl DivByZero
        else Inr (Status time (pcb_process_id pcb)
               (get_process_memories_list_not_in_disk_count process_memories_list)
               (get_free_memory_segments_list_count free_list)
               (memusageproportion sdiv memsize
                 + (if memusageproportion smod memsize \<noteq> 0 then 1 else 0)))))"

section \<open>Arrival of scheduled processes\<close>

text \<open>
  The array of scheduled processes ends with \<open>NULL\<close>: reading at its length gives \<open>NULL\<close>,
  beyond it is out of bounds.
\<close>

definition scheduled_at :: "scheduled_process_t list \<Rightarrow> nat \<Rightarrow> scheduled_process_t option res" where
  "scheduled_at sps i =
     (if i < length sps then Inr (Some (sps ! i))
      else if i = length sps then Inr None
      else Inl OutOfBounds)"

function check_scheduled_processes ::
  "scheduled_process_t list \<Rightarrow> nat \<Rightarrow> int \<Rightarrow> pcbs_queue_t \<Rightarrow> process_memories_list_t
    \<Rightarrow> (nat \<times> pcbs_queue_t \<times> process_memories_list_t) res" where
  "check_scheduled_processes sps spi time ready_queue proc_mems_list =
     res_bind (scheduled_at sps spi) (\<lambda>next_scheduled_process.
       case next_scheduled_process of
         None \<Rightarrow> Inr (spi, ready_queue, proc_mems_list)
       | Some sp \<Rightarrow>
           (if sp_start_time sp \<le> time
            then case new_process_control_block_by_scheduled_process sp proc_mems_list of
                   (pcb, proc_mems_list') \<Rightarrow>
                     check_scheduled_processes sps (spi + 1) time
                       (append_pcb_to_pcbs_list pcb ready_queue) proc_mems_list'
            else Inr (spi, ready_queue, proc_mems_list)))"
  by pat_completeness auto
termination
  by (relation "measure (\<lambda>(sps, spi, time, q, procs). length sps - spi)")
    (auto simp: scheduled_at_def split: if_splits)

declare check_scheduled_processes.simps [simp del]

section \<open>The state of a runner\<close>

record sim_state =
  sim_time :: int
  sim_running :: "process_control_block_t option"
  sim_terminated :: pcbs_queue_t
  sim_spi :: nat
  sim_procs :: process_memories_list_t
  sim_segs :: free_memory_segments_list_t
  sim_out :: "out_line list"

record fcfs_state = sim_state +
  ready_queue :: pcbs_queue_t

record multi_state = sim_state +
  ready_qs :: "pcbs_queue_t list"

section \<open>First come first serve\<close>

text \<open>The part of the loop body that finds a process to run; \<open>Break\<close> leaves the loop.\<close>

definition fcfs_dispatch ::
  "scheduled_process_t list \<Rightarrow> int \<Rightarrow> fcfs_state \<Rightarrow> fcfs_state control res" where
  "fcfs_dispatch sps memsize s =
     (case sim_running s of
        Some _ \<Rightarrow> Inr (Continue s)
      | None \<Rightarrow>
          (case pop_front_pcb_from_pcbs_queue (ready_queue s) of
             (Some pcb, q) \<Rightarrow>
               res_bind (load_pcb pcb (sim_time s) (sim_procs s) (sim_segs s))
                 (\<lambda>(pcb', procs, segs).
               res_bind (print_simulation_status (sim_time s) pcb' procs segs memsize) (\<lambda>line.
                 Inr (Continue (s\<lparr>ready_queue := q, sim_running := Some pcb', sim_procs := procs,
                                  sim_segs := segs, sim_out := sim_out s @ [line]\<rparr>))))
           | (None, q) \<Rightarrow>
               res_bind (scheduled_at sps (sim_spi s)) (\<lambda>sp.
                 if q = [] \<and> sp = None then Inr (Break s)
                 else Inr (Continue (s\<lparr>ready_queue := q\<rparr>)))))"

text \<open>The rest of the body: one time step of the running process, and its termination.\<close>

definition fcfs_execute :: "fcfs_state \<Rightarrow> fcfs_state res" where
  "fcfs_execute s =
     (case sim_running s of
        None \<Rightarrow>
          res_bind (c_int (sim_time s + 1)) (\<lambda>time. Inr (s\<lparr>sim_time := time\<rparr>))
      | Some pcb \<Rightarrow>
          res_bind (run_pcb pcb) (\<lambda>pcb'.
          res_bind (c_int (sim_time s + 1)) (\<lambda>time.
            if is_pcb_finished pcb'
            then res_bind (terminate_pcb pcb' (sim_procs s) (sim_segs s)) (\<lambda>(pcb'', procs, segs).
                   Inr (s\<lparr>sim_time := time, sim_running := None, sim_procs := procs,
                          sim_segs := segs,
                          sim_terminated := append_pcb_to_pcbs_list pcb'' (sim_terminated s)\<rparr>))
            else Inr (s\<lparr>sim_time := time, sim_running := Some pcb'\<rparr>))))"

definition fcfs_arrive :: "scheduled_process_t list \<Rightarrow> fcfs_state \<Rightarrow> fcfs_state res" where
  "fcfs_arrive sps s =
     res_bind (check_scheduled_processes sps (sim_spi s) (sim_time s) (ready_queue s) (sim_procs s))
       (\<lambda>(spi, q, procs). Inr (s\<lparr>sim_spi := spi, ready_queue := q, sim_procs := procs\<rparr>))"

definition fcfs_step ::
  "scheduled_process_t list \<Rightarrow> int \<Rightarrow> fcfs_state \<Rightarrow> fcfs_state control res" where
  "fcfs_step sps memsize s =
     res_bind (fcfs_arrive sps s) (\<lambda>s1.
     res_bind (fcfs_dispatch sps memsize s1) (\<lambda>c.
       case c of
         Break s2 \<Rightarrow> Inr (Break s2)
       | Continue s2 \<Rightarrow> res_bind (fcfs_execute s2) (\<lambda>s3. Inr (Continue s3))))"

definition fcfs_init :: "int \<Rightarrow> fcfs_state" where
  "fcfs_init memsize =
     \<lparr>sim_time = 0, sim_running = None, sim_terminated = new_pcbs_list, sim_spi = 0,
      sim_procs = new_process_memories_list, sim_segs = new_free_memory_segments_list memsize,
      sim_out = [], ready_queue = new_pcbs_queue\<rparr>"

section \<open>Multi-level feedback queue\<close>

text \<open>The \<open>for\<close> loop over the queues: the first control block of the first queue with one.\<close>

fun pop_first_ready :: "pcbs_queue_t list \<Rightarrow> process_control_block_t option \<times> pcbs_queue_t list" where
  "pop_first_ready [] = (None, [])"
| "pop_first_ready (q # qs) =
     (case pop_front_pcb_from_pcbs_queue q of
        (Some pcb, q') \<Rightarrow> (Some pcb, q' # qs)
      | (None, q') \<Rightarrow> (case pop_first_ready qs of (r, qs') \<Rightarrow> (r, q' # qs')))"

definition multi_arrive :: "scheduled_process_t list \<Rightarrow> multi_state \<Rightarrow> multi_state res" where
  "multi_arrive sps s =
     (case ready_qs s of
        [] \<Rightarrow> Inl OutOfBounds
      | q1 # qs \<Rightarrow>
          res_bind (check_scheduled_processes sps (sim_spi s) (sim_time s) q1 (sim_procs s))
            (\<lambda>(spi, q1', procs).
               Inr (s\<lparr>sim_spi := spi, ready_qs := q1' # qs, sim_procs := procs\<rparr>)))"

definition multi_dispatch ::
  "scheduled_process_t list \<Rightarrow> int \<Rightarrow> multi_state \<Rightarrow> multi_state control res" where
  "multi_dispatch sps memsize s =
     (case sim_running s of
        Some _ \<Rightarrow> Inr (Continue s)
      | None \<Rightarrow>
          (case pop_first_ready (ready_qs s) of
             (Some pcb, qs) \<Rightarrow>
               res_bind (load_pcb pcb (sim_time s) (sim_procs s) (sim_segs s))
                 (\<lambda>(pcb', procs, segs).
               res_bind (print_simulation_status (sim_time s) pcb' procs segs memsize) (\<lambda>line.
                 Inr (Continue (s\<lparr>ready_qs := qs, sim_running := Some pcb', sim_procs := procs,
                                  sim_segs := segs, sim_out := sim_out s @ [line]\<rparr>))))
           | (None, qs) \<Rightarrow>
               res_bind (scheduled_at sps (sim_spi s)) (\<lambda>sp.
                 if sp = None then Inr (Break s)
                 else Inr (Continue (s\<lparr>ready_qs := qs\<rparr>)))))"

definition append_to_queue ::
  "process_control_block_t \<Rightarrow> int \<Rightarrow> pcbs_queue_t list \<Rightarrow> pcbs_queue_t list res" where
  "append_to_queue pcb i qs =
     (if 0 \<le> i \<and> nat i < length qs
      then Inr (qs[nat i := append_pcb_to_pcbs_list pcb (qs ! nat i)])
      else Inl OutOfBounds)"

definition multi_execute :: "multi_state \<Rightarrow> multi_state res" where
  "multi_execute s =
     (case sim_running s of
        None \<Rightarrow>
          res_bind (c_int (sim_time s + 1)) (\<lambda>time. Inr (s\<lparr>sim_time := time\<rparr>))
      | Some pcb \<Rightarrow>
          res_bind (run_pcb pcb) (\<lambda>pcb'.
          res_bind (c_int (sim_time s + 1)) (\<lambda>time.
            if is_pcb_finished pcb'
            then res_bind (terminate_pcb pcb' (sim_procs s) (sim_segs s)) (\<lambda>(pcb'', procs, segs).
                   Inr (s\<lparr>sim_time := time, sim_running := None, sim_procs := procs,
                          sim_segs := segs,
                          sim_terminated := append_pcb_to_pcbs_list pcb'' (sim_terminated s)\<rparr>))
            else if is_quantum_exhausted_by_pcb pcb'
            then (let pcb'' = ready_and_decrease_priority_pcb pcb' in
                  res_bind (append_to_queue pcb'' (pcb_priority pcb'' - 1) (ready_qs s)) (\<lambda>qs.
                    Inr (s\<lparr>sim_time := time, sim_running := None, ready_qs := qs\<rparr>)))
            else Inr (s\<lparr>sim_time := time, sim_running := Some pcb'\<rparr>))))"

definition multi_step ::
  "scheduled_process_t list \<Rightarrow> int \<Rightarrow> multi_state \<Rightarrow> multi_state control res" where
  "multi_step sps memsize s =
     res_bind (multi_arrive sps s) (\<lambda>s1.
     res_bind (multi_dispatch sps memsize s1) (\<lambda>c.
       case c of
         Break s2 \<Rightarrow> Inr (Break s2)
       | Continue s2 \<Rightarrow> res_bind (multi_execute s2) (\<lambda>s3. Inr (Continue s3))))"

definition multi_init :: "int \<Rightarrow> multi_state" where
  "multi_init memsize =
     \<lparr>sim_time = 0, sim_running = None, sim_terminated = new_pcbs_list, sim_spi = 0,
      sim_procs = new_process_memories_list, sim_segs = new_free_memory_segments_list memsize,
      sim_out = [], ready_qs = replicate (nat MIN_PRIORITY) new_pcbs_queue\<rparr>"

end
