(* ===== verification/Scheduler_Lemmas.thy ===== *)
theory Scheduler_Lemmas
  imports Process_Scheduler
begin

text \<open>
  What the two runners of \<open>project1/process-scheduler.c\<close> share: the queue contract, the
  arrival of scheduled processes in closed form, loading, running and terminating a
  process under the memory invariant, the measure that every round of a runner
  decreases, and the loop itself as a locale (\<open>sim_loop\<close>) that both runners interpret.
\<close>

section \<open>Queues\<close>

lemma append_pcb_to_pcbs_list_eq [simp]: "append_pcb_to_pcbs_list pcb q = q @ [pcb]"
  by (induction q) auto

text \<open>The contract of a first-in first-out queue.\<close>

locale fifo_queue =
  fixes empty :: 'q
    and enq :: "'a \<Rightarrow> 'q \<Rightarrow> 'q"
    and deq :: "'q \<Rightarrow> 'a option \<times> 'q"
    and contents :: "'q \<Rightarrow> 'a list"
  assumes contents_empty: "contents empty = []"
    and contents_enq: "contents (enq x q) = contents q @ [x]"
    and deq_empty: "contents q = [] \<Longrightarrow> fst (deq q) = None \<and> contents (snd (deq q)) = []"
    and deq_Cons: "contents q = x # xs \<Longrightarrow> fst (deq q) = Some x \<and> contents (snd (deq q)) = xs"
begin

fun enq_all :: "'a list \<Rightarrow> 'q \<Rightarrow> 'q" where
  "enq_all [] q = q"
| "enq_all (x # xs) q = enq_all xs (enq x q)"

fun deq_all :: "nat \<Rightarrow> 'q \<Rightarrow> 'a option list" where
  "deq_all 0 q = []"
| "deq_all (Suc n) q = fst (deq q) # deq_all n (snd (deq q))"

lemma contents_enq_all: "contents (enq_all xs q) = contents q @ xs"
  by (induction xs arbitrary: q) (simp_all add: contents_enq)

lemma deq_all_contents: "deq_all (length (contents q)) q = map Some (contents q)"
proof (induction "length (contents q)" arbitrary: q)
  case 0
  then show ?case by simp
next
  case (Suc n)
  then obtain x xs where c: "contents q = x # xs" by (cases "contents q") auto
  with Suc deq_Cons [OF c] show ?case by (metis deq_all.simps(2) length_Cons list.simps(9) nat.inject)
qed

text \<open>What is put in comes out in the same order, and nothing else.\<close>

lemma fifo_order: "deq_all (length xs) (enq_all xs empty) = map Some xs"
  using deq_all_contents [of "enq_all xs empty"] by (simp add: contents_enq_all contents_empty)

end

interpretation pcbs_list: fifo_queue new_pcbs_list append_pcb_to_pcbs_list
  pop_front_pcb_from_pcbs_list "\<lambda>q. q"
  by unfold_locales
    (simp_all add: new_pcbs_list_def new_pcbs_queue_def pop_front_pcb_from_pcbs_list_def
      pop_front_pcb_from_pcbs_queue_def)

section \<open>Arrival of scheduled processes\<close>

fun arrivals ::
  "scheduled_process_t list \<Rightarrow> process_memories_list_t \<Rightarrow> pcbs_queue_t \<times> process_memories_list_t" where
  "arrivals [] procs = ([], procs)"
| "arrivals (sp # sps) procs =
     (case new_process_control_block_by_scheduled_process sp procs of
        (pcb, procs') \<Rightarrow> (case arrivals sps procs' of (pcbs, procs'') \<Rightarrow> (pcb # pcbs, procs'')))"

definition due :: "scheduled_process_t list \<Rightarrow> nat \<Rightarrow> int \<Rightarrow> scheduled_process_t list" where
  "due sps spi time = takeWhile (\<lambda>sp. sp_start_time sp \<le> time) (drop spi sps)"

lemma check_scheduled_processes_eq:
  "spi \<le> length sps \<Longrightarrow>
   check_scheduled_processes sps spi time q procs =
     (case arrivals (due sps spi time) procs of
        (pcbs, procs') \<Rightarrow> Inr (spi + length (due sps spi time), q @ pcbs, procs'))"
proof (induction sps spi time q procs rule: check_scheduled_processes.induct)
  case (1 sps spi time q procs)
  show ?case
  proof (cases "spi < length sps")
    case False
    with "1.prems" show ?thesis
      by (simp add: check_scheduled_processes.simps scheduled_at_def due_def)
  next
    case True
    then have drop: "drop spi sps = sps ! spi # drop (Suc spi) sps"
      by (simp add: Cons_nth_drop_Suc)
    show ?thesis
    proof (cases "sp_start_time (sps ! spi) \<le> time")
      case False
      with True show ?thesis
        by (simp add: check_scheduled_processes.simps scheduled_at_def due_def drop)
    next
      case start: True
      obtain pcb procs' where new:
        "new_process_control_block_by_scheduled_process (sps ! spi) procs = (pcb, procs')"
        by (cases "new_process_control_block_by_scheduled_process (sps ! spi) procs")
      have at: "scheduled_at sps spi = Inr (Some (sps ! spi))"
        using True by (simp add: scheduled_at_def)
      have due: "due sps spi time = sps ! spi # due sps (spi + 1) time"
        using start by (simp add: due_def drop)
      show ?thesis
        using "1.IH" [OF at refl start new [symmetric]] True
        unfolding check_scheduled_processes.simps [of sps spi time q procs] at due
        by (simp add: start new case_prod_unfold)
    qed
  qed
qed

lemma check_scheduled_processes_beyond:
  "length sps < spi \<Longrightarrow> check_scheduled_processes sps spi time q procs = Inl OutOfBounds"
  by (simp add: check_scheduled_processes.simps scheduled_at_def)

lemma due_prefix: "due sps spi time = take (length (due sps spi time)) (drop spi sps)"
  unfolding due_def by (rule takeWhile_eq_take)

lemma due_length: "spi \<le> length sps \<Longrightarrow> spi + length (due sps spi time) \<le> length sps"
  using length_takeWhile_le [of "\<lambda>sp. sp_start_time sp \<le> time" "drop spi sps"]
  by (simp add: due_def)

lemma due_start: "sp \<in> set (due sps spi time) \<Longrightarrow> sp_start_time sp \<le> time"
  unfolding due_def by (auto dest: set_takeWhileD)

lemma due_next:
  assumes "spi + length (due sps spi time) < length sps"
  shows "time < sp_start_time (sps ! (spi + length (due sps spi time)))"
proof -
  let ?P = "\<lambda>sp. sp_start_time sp \<le> time"
  have "length (takeWhile ?P (drop spi sps)) < length (drop spi sps)"
    using assms by (simp add: due_def)
  from nth_length_takeWhile [OF this] show ?thesis
    using assms by (simp add: due_def nth_drop)
qed

section \<open>Control blocks and the process memories they refer to\<close>

text \<open>\<open>pcb\<close> stands for \<open>sp\<close>, and its pointer leads to a process memory of \<open>sp\<close>'s size.\<close>

definition represents ::
  "process_memories_list_t \<Rightarrow> scheduled_process_t \<Rightarrow> process_control_block_t \<Rightarrow> bool" where
  "represents procs sp pcb \<longleftrightarrow>
     pcb_process_id pcb = sp_process_id sp \<and> pcb_job_time pcb = sp_job_time sp \<and>
     (\<exists>pm. map_of procs (pcb_process_memory pcb) = Some pm \<and>
        pm_size pm = sp_memory_size sp \<and> pm_process_id pm = sp_process_id sp)"

text \<open>Process memories may move between disk and memory, but keep their size and owner.\<close>

definition mem_ext :: "process_memories_list_t \<Rightarrow> process_memories_list_t \<Rightarrow> bool" where
  "mem_ext procs procs' \<longleftrightarrow>
     (\<forall>a pm. map_of procs a = Some pm \<longrightarrow>
        (\<exists>pm'. map_of procs' a = Some pm' \<and> pm_size pm' = pm_size pm
           \<and> pm_process_id pm' = pm_process_id pm))"

lemma mem_ext_refl [simp]: "mem_ext procs procs"
  by (simp add: mem_ext_def)

lemma mem_ext_trans: "mem_ext xs ys \<Longrightarrow> mem_ext ys zs \<Longrightarrow> mem_ext xs zs"
  unfolding mem_ext_def by metis

lemma mem_ext_append: "mem_ext procs (procs @ ps)"
  by (simp add: mem_ext_def map_add_Some_iff)

lemma mem_ext_set_in_disk: "mem_ext procs (upd_at a set_in_disk procs)"
  by (auto simp: mem_ext_def map_of_upd_at set_in_disk_def)

lemma mem_ext_evicted:
  assumes "evicted a procs procs'" and "map_of procs a = Some pm" and "map_of procs' a = Some pm'"
    and "pm_size pm' = pm_size pm" and "pm_process_id pm' = pm_process_id pm"
  shows "mem_ext procs procs'"
  unfolding mem_ext_def
proof (intro allI impI)
  fix b q
  assume b: "map_of procs b = Some q"
  show "\<exists>q'. map_of procs' b = Some q' \<and> pm_size q' = pm_size q \<and> pm_process_id q' = pm_process_id q"
  proof (cases "b = a")
    case True
    with assms b show ?thesis by auto
  next
    case False
    with assms(1) b have "map_of procs' b = Some q \<or> map_of procs' b = Some (set_in_disk q)"
      by (auto simp: evicted_def)
    then show ?thesis by (auto simp: set_in_disk_def)
  qed
qed

lemma represents_ext: "represents procs sp pcb \<Longrightarrow> mem_ext procs procs' \<Longrightarrow> represents procs' sp pcb"
  unfolding represents_def mem_ext_def by metis

lemma represents_upd [simp]:
  "represents procs sp (pcb\<lparr>pcb_process_state := x\<rparr>) = represents procs sp pcb"
  "represents procs sp (pcb\<lparr>pcb_burst_time := b\<rparr>) = represents procs sp pcb"
  "represents procs sp (pcb\<lparr>pcb_cpu_time := c\<rparr>) = represents procs sp pcb"
  "represents procs sp (pcb\<lparr>pcb_priority := p\<rparr>) = represents procs sp pcb"
  by (simp_all add: represents_def)

text \<open>A control block that has not run.\<close>

definition fresh_pcb :: "process_control_block_t \<Rightarrow> bool" where
  "fresh_pcb pcb \<longleftrightarrow> pcb_process_state pcb = ready \<and> pcb_priority pcb = 1 \<and>
     pcb_burst_time pcb = 0 \<and> pcb_cpu_time pcb = 0"

lemma arrivals_ok:
  assumes "mem_inv m procs segs" and "\<forall>sp \<in> set sps. 0 < sp_memory_size sp"
    and "arrivals sps procs = (pcbs, procs')"
  shows "mem_inv m procs' segs \<and> mem_ext procs procs' \<and> resident procs' = resident procs \<and>
    list_all2 (represents procs') sps pcbs \<and> (\<forall>pcb \<in> set pcbs. fresh_pcb pcb)"
  using assms
proof (induction sps arbitrary: procs pcbs)
  case Nil
  then show ?case by simp
next
  case (Cons sp sps)
  let ?a = "malloc_addr procs"
  let ?pm = "new_process_memory (sp_memory_size sp) (sp_process_id sp)"
  let ?procs = "procs @ [(?a, ?pm)]"
  let ?pcb = "\<lparr>pcb_process_id = sp_process_id sp, pcb_process_state = ready,
    pcb_process_memory = ?a, pcb_priority = 1, pcb_job_time = sp_job_time sp,
    pcb_burst_time = 0, pcb_cpu_time = 0\<rparr>"
  have new: "new_process_control_block_by_scheduled_process sp procs = (?pcb, ?procs)"
    by (simp add: new_process_control_block_by_scheduled_process_def new_process_control_block_def Let_def)
  then obtain pcbs' where pcbs: "pcbs = ?pcb # pcbs'" and rest: "arrivals sps ?procs = (pcbs', procs')"
    using Cons.prems(3) by (auto split: prod.splits)
  have "mem_inv m ?procs segs"
    using Cons.prems by (simp add: mem_inv_add_new)
  note IH = Cons.IH [OF this _ rest]
  have "map_of ?procs ?a = Some ?pm"
    using malloc_addr_fresh [of procs] by (simp add: map_add_Some_iff map_of_eq_None_iff)
  then have "represents ?procs sp ?pcb"
    by (simp add: represents_def new_process_memory_def)
  moreover have "resident ?procs = resident procs" by (simp add: resident_def)
  ultimately show ?case
    using IH Cons.prems(2) mem_ext_trans [OF mem_ext_append] pcbs
    by (auto simp: fresh_pcb_def intro: represents_ext)
qed

lemma arrivals_map_of:
  "arrivals sps procs = (pcbs, procs') \<Longrightarrow> map_of procs a = Some pm \<Longrightarrow> map_of procs' a = Some pm"
  by (induction sps arbitrary: procs pcbs)
    (auto simp: new_process_control_block_by_scheduled_process_def new_process_control_block_def
      Let_def map_add_Some_iff split: prod.splits)

section \<open>Loading, running and terminating\<close>

definition in_memory :: "process_memories_list_t \<Rightarrow> process_control_block_t \<Rightarrow> bool" where
  "in_memory procs pcb \<longleftrightarrow>
     (\<exists>pm. map_of procs (pcb_process_memory pcb) = Some pm \<and> \<not> is_process_memory_in_disk pm)"

lemma in_memory_upd [simp]:
  "in_memory procs (pcb\<lparr>pcb_process_state := x\<rparr>) = in_memory procs pcb"
  "in_memory procs (pcb\<lparr>pcb_burst_time := b\<rparr>) = in_memory procs pcb"
  "in_memory procs (pcb\<lparr>pcb_cpu_time := c\<rparr>) = in_memory procs pcb"
  by (simp_all add: in_memory_def)

lemma evicted_resident:
  assumes ev: "evicted a procs procs'" and wf: "procs_wf m procs'"
  shows "fst ` set (resident procs') \<subseteq> insert a (fst ` set (resident procs))"
proof
  fix b
  assume "b \<in> fst ` set (resident procs')"
  then obtain p where p: "p \<in> set (resident procs')" and b: "b = fst p" by blast
  note mp = map_of_resident [OF wf p]
  show "b \<in> insert a (fst ` set (resident procs))"
  proof (cases "b = a")
    case False
    with ev have "map_of procs' b = map_of procs b \<or> map_of procs' b = map_option set_in_disk (map_of procs b)"
      by (simp add: evicted_def)
    with mp have "map_of procs b = Some (snd p)"
      by (cases "map_of procs (fst p)") (auto simp: b)
    then have "(b, snd p) \<in> set (resident procs)"
      using mp(2) by (auto simp: set_resident dest: map_of_SomeD)
    then show ?thesis by force
  qed simp
qed

lemma load_pcb_ok:
  assumes inv: "mem_inv m procs segs" and rep: "represents procs sp pcb"
    and fits: "sp_memory_size sp \<le> m"
  obtains procs' segs' where
    "load_pcb pcb time procs segs =
      Inr (pcb\<lparr>pcb_process_state := running, pcb_burst_time := 0\<rparr>, procs', segs')"
    and "mem_inv m procs' segs'" and "mem_ext procs procs'" and "in_memory procs' pcb"
    and "fst ` set (resident procs') \<subseteq> insert (pcb_process_memory pcb) (fst ` set (resident procs))"
proof -
  from rep obtain pm where a: "map_of procs (pcb_process_memory pcb) = Some pm"
    and sz: "pm_size pm = sp_memory_size sp"
    by (auto simp: represents_def)
  show thesis
  proof (cases "is_process_memory_in_disk pm")
    case False
    with a inv show thesis
      by (intro that [of procs segs]) (auto simp: load_pcb_def in_memory_def)
  next
    case True
    from swap_in_process_memory_ok [OF inv a, of time] sz fits obtain procs' segs' pm' where
      swap: "swap_in_process_memory (pcb_process_memory pcb) time procs segs = Inr (procs', segs')"
      and inv': "mem_inv m procs' segs'" and ev: "evicted (pcb_process_memory pcb) procs procs'"
      and a': "map_of procs' (pcb_process_memory pcb) = Some pm'"
      and pm': "\<not> is_process_memory_in_disk pm'" "pm_size pm' = pm_size pm"
        "pm_process_id pm' = pm_process_id pm"
      by auto
    have "procs_wf m procs'" using inv' by (simp add: mem_inv_def)
    from evicted_resident [OF ev this] show thesis
      using swap a True inv' mem_ext_evicted [OF ev a a' pm'(2,3)] a' pm'(1)
      by (intro that [of procs' segs']) (auto simp: load_pcb_def in_memory_def)
  qed
qed

lemma terminate_pcb_ok:
  assumes inv: "mem_inv m procs segs" and rep: "represents procs sp pcb"
  obtains procs' segs' where
    "terminate_pcb pcb procs segs = Inr (pcb\<lparr>pcb_process_state := terminated\<rparr>, procs', segs')"
    and "mem_inv m procs' segs'" and "mem_ext procs procs'" and "\<not> in_memory procs' pcb"
    and "procs' = upd_at (pcb_process_memory pcb) (\<lambda>pm. if is_process_memory_in_disk pm
           then pm else set_in_disk pm) procs"
proof -
  let ?a = "pcb_process_memory pcb"
  let ?f = "\<lambda>pm. if is_process_memory_in_disk pm then pm else set_in_disk pm"
  from rep obtain pm where a: "map_of procs ?a = Some pm" by (auto simp: represents_def)
  have dist: "distinct (map fst procs)" using inv by (simp add: mem_inv_def procs_wf_def)
  from map_of_SomeE [OF a dist] obtain xs ys where procs: "procs = xs @ (?a, pm) # ys"
    and notin: "?a \<notin> fst ` set xs" "?a \<notin> fst ` set ys"
    by blast
  show thesis
  proof (cases "is_process_memory_in_disk pm")
    case True
    then have "upd_at ?a ?f procs = procs" using procs notin by (simp add: upd_at_notin)
    with True a inv show thesis
      by (intro that [of procs segs]) (auto simp: terminate_pcb_def in_memory_def)
  next
    case False
    then have eq: "upd_at ?a ?f procs = upd_at ?a set_in_disk procs"
      using procs notin by (simp add: upd_at_notin)
    show thesis
      using False a mem_inv_release [OF inv a False] mem_ext_set_in_disk [of procs ?a]
      by (intro that [of "upd_at ?a set_in_disk procs"])
        (auto simp: terminate_pcb_def swap_out_process_memory_by_process_memory_def
          in_memory_def map_of_upd_at eq)
  qed
qed

lemma resident_terminated:
  "fst ` set (resident (upd_at a (\<lambda>pm. if is_process_memory_in_disk pm then pm else set_in_disk pm) procs))
    \<subseteq> fst ` set (resident procs) - {a}"
proof (induction procs)
  case Nil
  then show ?case by (simp add: resident_def)
next
  case (Cons p procs)
  obtain b pm where p: "p = (b, pm)" by fastforce
  have "resident (p # procs) = (if is_process_memory_in_disk pm then [] else [p]) @ resident procs"
    by (simp add: resident_def p)
  moreover have "resident (upd_at a (\<lambda>pm. if is_process_memory_in_disk pm then pm else set_in_disk pm) (p # procs)) =
      (if b = a \<or> is_process_memory_in_disk pm then [] else [p]) @
      resident (upd_at a (\<lambda>pm. if is_process_memory_in_disk pm then pm else set_in_disk pm) procs)"
    by (simp add: resident_def p)
  ultimately show ?case using Cons.IH by (auto simp: p split: if_splits)
qed

text \<open>The running process: its counters are in order and it is not finished.\<close>

definition pcb_running :: "process_control_block_t \<Rightarrow> bool" where
  "pcb_running pcb \<longleftrightarrow> pcb_process_state pcb = running \<and> 0 \<le> pcb_burst_time pcb \<and>
     pcb_burst_time pcb \<le> pcb_cpu_time pcb \<and> pcb_cpu_time pcb < max 1 (pcb_job_time pcb) \<and>
     pcb_job_time pcb \<le> INT_MAX"

lemma run_pcb_ok:
  assumes "pcb_running pcb"
  shows "run_pcb pcb =
    Inr (pcb\<lparr>pcb_burst_time := pcb_burst_time pcb + 1, pcb_cpu_time := pcb_cpu_time pcb + 1\<rparr>)"
proof -
  have "int_range (pcb_burst_time pcb + 1)" and "int_range (pcb_cpu_time pcb + 1)"
    using assms by (auto simp: pcb_running_def INT_MAX_def intro!: int_rangeI split: if_splits)
  then show ?thesis by (simp add: run_pcb_def c_int_ok)
qed

section \<open>The status line\<close>

lemma sdiv_nonneg: "0 \<le> (a::int) \<Longrightarrow> 0 < b \<Longrightarrow> a sdiv b = a div b"
  by (simp add: signed_divide_int_def sgn_if)

lemma smod_nonneg: "0 \<le> (a::int) \<Longrightarrow> 0 < b \<Longrightarrow> a smod b = a mod b"
  by (cases "a = 0") (simp_all add: signed_modulo_int_def sgn_if)

definition percent_up :: "int \<Rightarrow> int \<Rightarrow> int" where
  "percent_up part whole = (100 * part + whole - 1) div whole"

lemma ceil_div:
  assumes "0 < (b::int)"
  shows "a div b + (if a mod b \<noteq> 0 then 1 else 0) = (a + b - 1) div b"
proof (cases "a mod b = 0")
  case True
  then obtain k where k: "a = b * k" by (auto simp: dvd_eq_mod_eq_0 [symmetric] elim: dvdE)
  have "(b * k + (b - 1)) div b = k" using assms by (simp add: div_pos_pos_trivial)
  then show ?thesis using True k assms by (simp add: algebra_simps)
next
  case False
  have "(a + b - 1) div b = (a - 1) div b + 1"
    using assms by (metis add.commute add_diff_eq div_add_self2 less_irrefl)
  moreover have "(a - 1) div b = a div b"
  proof (rule int_div_pos_eq [of _ _ _ "a mod b - 1"])
    show "a - 1 = b * (a div b) + (a mod b - 1)" by simp
    show "0 \<le> a mod b - 1" using False pos_mod_sign [OF assms, of a] by simp
    show "a mod b - 1 < b" using pos_mod_bound [OF assms, of a] by simp
  qed
  ultimately show ?thesis using False by simp
qed

lemma print_simulation_status_ok:
  assumes inv: "mem_inv m procs segs" and m: "0 < m" "100 * m \<le> INT_MAX"
  shows "print_simulation_status time pcb procs segs m =
    Inr (Status time (pcb_process_id pcb) (int (length (resident procs))) (int (length segs))
      (percent_up (get_process_memories_list_not_in_disk_size procs) m))"
proof -
  let ?u = "get_process_memories_list_not_in_disk_size procs"
  note bounds = not_in_disk_size_bounds [OF inv m(1)]
  have "int_range (100 * ?u)" using bounds m by (intro int_rangeI) auto
  then show ?thesis
    using bounds m ceil_div [OF m(1), of "100 * ?u"]
    by (simp add: print_simulation_status_def c_int_ok sdiv_nonneg smod_nonneg percent_up_def)
qed

section \<open>Progress\<close>

text \<open>The time steps a process still needs: one at least, even for a job time of zero.\<close>

definition pcb_left :: "process_control_block_t \<Rightarrow> nat" where
  "pcb_left pcb = nat (max 1 (pcb_job_time pcb - pcb_cpu_time pcb))"

definition sp_left :: "scheduled_process_t \<Rightarrow> nat" where
  "sp_left sp = nat (max 1 (sp_job_time sp))"

definition latest :: "scheduled_process_t list \<Rightarrow> int" where
  "latest sps = foldr (\<lambda>sp t. max (sp_start_time sp) t) sps 0"

text \<open>
  The measure of a runner: the time steps that the live and the coming processes need,
  and the time until the last of them has arrived.
\<close>

definition work :: "scheduled_process_t list \<Rightarrow> pcbs_queue_t \<Rightarrow> nat \<Rightarrow> int \<Rightarrow> nat" where
  "work sps live spi time =
     sum_list (map pcb_left live) + sum_list (map sp_left (drop spi sps)) + nat (latest sps - time)"

lemma latest_ge: "sp \<in> set sps \<Longrightarrow> sp_start_time sp \<le> latest sps"
  by (induction sps) (auto simp: latest_def)

lemma pcb_left_pos [simp]: "0 < pcb_left pcb"
  by (simp add: pcb_left_def)

lemma pcb_left_upd [simp]:
  "pcb_left (pcb\<lparr>pcb_process_state := x\<rparr>) = pcb_left pcb"
  "pcb_left (pcb\<lparr>pcb_burst_time := b\<rparr>) = pcb_left pcb"
  "pcb_left (pcb\<lparr>pcb_priority := p\<rparr>) = pcb_left pcb"
  by (simp_all add: pcb_left_def)

lemma arrivals_left:
  "arrivals sps procs = (pcbs, procs') \<Longrightarrow> map pcb_left pcbs = map sp_left sps"
  by (induction sps arbitrary: procs pcbs)
    (auto simp: new_process_control_block_by_scheduled_process_def new_process_control_block_def
      Let_def pcb_left_def sp_left_def split: prod.splits)

lemma work_arrive:
  assumes "spi \<le> length sps"
    and "arrivals (due sps spi time) procs = (pcbs, procs')"
  shows "sum_list (map pcb_left pcbs) + sum_list (map sp_left (drop (spi + length (due sps spi time)) sps))
    = sum_list (map sp_left (drop spi sps))"
proof -
  have "drop spi sps = due sps spi time @ drop (length (due sps spi time)) (drop spi sps)"
    using due_prefix [of sps spi time] by (metis append_take_drop_id)
  then have "sum_list (map sp_left (drop spi sps)) =
      sum_list (map sp_left (due sps spi time))
      + sum_list (map sp_left (drop (length (due sps spi time)) (drop spi sps)))"
    by (metis map_append sum_list_append)
  then show ?thesis
    unfolding arrivals_left [OF assms(2)] by (simp add: add.commute)
qed

lemma pcb_left_run:
  assumes "run_pcb pcb = Inr pcb'" and "\<not> is_pcb_finished pcb'"
  shows "pcb_left pcb = Suc (pcb_left pcb')"
  using assms by (auto simp: run_pcb_def pcb_left_def is_pcb_finished_def split: if_splits)

section \<open>The end of the simulation\<close>

text \<open>
  When a scheduler that never idles while work is left is done: it has worked off the
  processes of the file in any order, each needing at least one step.
\<close>

fun end_time :: "int \<Rightarrow> scheduled_process_t list \<Rightarrow> int" where
  "end_time t [] = t"
| "end_time t (sp # sps) = end_time (max t (sp_start_time sp) + max 1 (sp_job_time sp)) sps"

lemma int_sp_left: "int (sp_left sp) = max 1 (sp_job_time sp)"
  by (simp add: sp_left_def)

lemma end_time_due:
  "\<forall>sp \<in> set xs. sp_start_time sp \<le> t \<Longrightarrow>
   end_time t (xs @ ys) = end_time (t + int (sum_list (map sp_left xs))) ys"
proof (induction xs arbitrary: t)
  case Nil
  then show ?case by simp
next
  case (Cons sp xs)
  have "\<forall>q \<in> set xs. sp_start_time q \<le> t + max 1 (sp_job_time sp)"
    using Cons.prems by auto
  from Cons.IH [OF this] Cons.prems show ?case
    by (simp add: int_sp_left max_absorb1 add.assoc)
qed

lemma end_time_wait: "t < sp_start_time sp \<Longrightarrow> end_time t (sp # sps) = end_time (t + 1) (sp # sps)"
  by (simp add: max_def)

lemma drop_due: "drop spi sps = due sps spi t @ drop (spi + length (due sps spi t)) sps"
  using due_prefix [of sps spi t] by (metis append_take_drop_id drop_drop add.commute)

lemma end_time_arrive:
  assumes "arrivals (due sps spi t) procs = (pcbs, procs')" and "0 \<le> w"
  shows "end_time (t + w) (drop spi sps)
    = end_time (t + w + int (sum_list (map pcb_left pcbs))) (drop (spi + length (due sps spi t)) sps)"
proof -
  have "\<forall>sp \<in> set (due sps spi t). sp_start_time sp \<le> t + w"
    using due_start [of _ sps spi t] assms(2) by fastforce
  from end_time_due [OF this] show ?thesis
    unfolding arrivals_left [OF assms(1)] by (subst drop_due [of spi sps t]) simp
qed

section \<open>Valid input\<close>

text \<open>Input for which the simulation is defined.\<close>

definition valid_input :: "int \<Rightarrow> scheduled_process_t list \<Rightarrow> bool" where
  "valid_input m sps \<longleftrightarrow> 0 < m \<and> 100 * m \<le> INT_MAX \<and>
     (\<forall>sp \<in> set sps. 0 < sp_memory_size sp \<and> sp_memory_size sp \<le> m \<and> sp_job_time sp \<le> INT_MAX) \<and>
     latest sps + int (sum_list (map sp_left sps)) \<le> INT_MAX"

lemma valid_inputD:
  assumes "valid_input m sps"
  shows "0 < m" and "100 * m \<le> INT_MAX"
    and "sp \<in> set sps \<Longrightarrow> 0 < sp_memory_size sp \<and> sp_memory_size sp \<le> m \<and> sp_job_time sp \<le> INT_MAX"
  using assms by (auto simp: valid_input_def)

text \<open>A small process data file: the one of the project's specification.\<close>

definition demo_sps :: "scheduled_process_t list" where
  "demo_sps = [new_scheduled_process 0 4 98 15, new_scheduled_process 3 2 33 20,
     new_scheduled_process 5 1 100 10, new_scheduled_process 20 3 5 15]"

lemma demo_sps_valid: "valid_input 100 demo_sps"
  by (simp add: valid_input_def demo_sps_def new_scheduled_process_def latest_def sp_left_def INT_MAX_def)

lemma demo_sps_parsed: "parse_process_data_file (render_file demo_sps) = Inr demo_sps"
proof -
  have "\<forall>sp \<in> set demo_sps. int_process sp"
    by (simp add: demo_sps_def new_scheduled_process_def int_process_def int_range_def INT_MAX_def INT_MIN_def)
  then show ?thesis by (simp only: parse_process_data_file_collect file_lines_render collect_render)
qed

lemma set_due_subset: "set (due sps spi t) \<subseteq> set sps"
  by (auto simp: due_def dest!: set_takeWhileD in_set_dropD)

lemma c_int_time:
  assumes "0 \<le> t" and "t + int w \<le> INT_MAX" and "0 < w"
  shows "c_int (t + 1) = Inr (t + 1)"
  using assms by (intro c_int_ok int_rangeI) auto

lemma pcb_running_load:
  assumes "fresh_pcb pcb" and "pcb_job_time pcb \<le> INT_MAX"
  shows "pcb_running (pcb\<lparr>pcb_process_state := running, pcb_burst_time := 0\<rparr>)"
    and "int (pcb_left pcb) = max 1 (pcb_job_time pcb)"
  using assms by (auto simp: fresh_pcb_def pcb_running_def pcb_left_def)

lemma latest_nonneg: "0 \<le> latest sps"
  by (induction sps) (simp_all add: latest_def)

lemma pcb_running_run:
  fixes pcb defines "pcb' \<equiv> pcb\<lparr>pcb_burst_time := pcb_burst_time pcb + 1, pcb_cpu_time := pcb_cpu_time pcb + 1\<rparr>"
  assumes "pcb_running pcb"
  shows "\<not> is_pcb_finished pcb' \<Longrightarrow> pcb_running pcb'"
    and "is_pcb_finished pcb' \<Longrightarrow> pcb_cpu_time pcb' = max 1 (pcb_job_time pcb)"
    and "is_pcb_finished pcb' \<Longrightarrow> pcb_left pcb = 1"
  using assms by (auto simp: pcb_running_def is_pcb_finished_def pcb_left_def)

section \<open>The loop of a runner\<close>

text \<open>
  A runner repeats its step until the step breaks. If an invariant guarantees that the
  step does not fail, is kept by it and makes a measure smaller, and gives a property
  when the step breaks, then the run returns a state with this property.
\<close>

locale sim_loop =
  fixes step :: "'s \<Rightarrow> 's control res"
    and run :: "'s \<Rightarrow> 's res"
    and inv :: "'s \<Rightarrow> bool"
    and measure_of :: "'s \<Rightarrow> nat"
    and final :: "'s \<Rightarrow> bool"
  assumes run_unfold: "run s =
        res_bind (step s) (\<lambda>c. case c of Break s' \<Rightarrow> Inr s' | Continue s' \<Rightarrow> run s')"
    and step_ok: "inv s \<Longrightarrow> \<exists>c. step s = Inr c"
    and step_continue: "inv s \<Longrightarrow> step s = Inr (Continue s') \<Longrightarrow> inv s' \<and> measure_of s' < measure_of s"
    and step_break: "inv s \<Longrightarrow> step s = Inr (Break s') \<Longrightarrow> final s'"
begin

theorem run_total: "inv s \<Longrightarrow> \<exists>s'. run s = Inr s' \<and> final s'"
proof (induction s rule: measure_induct_rule [of measure_of])
  case (less s)
  from step_ok [OF less.prems] obtain c where c: "step s = Inr c" by blast
  show ?case
  proof (cases c)
    case (Break s')
    with step_break [OF less.prems] c show ?thesis by (simp add: run_unfold [of s])
  next
    case (Continue s')
    with step_continue [OF less.prems] less.IH c show ?thesis by (simp add: run_unfold [of s])
  qed
qed

text \<open>The states at the beginning of a round.\<close>

inductive rounds :: "'s \<Rightarrow> 's \<Rightarrow> bool" for s0 where
  start: "rounds s0 s0"
| round: "rounds s0 s \<Longrightarrow> step s = Inr (Continue s') \<Longrightarrow> rounds s0 s'"

lemma rounds_inv: "rounds s0 s \<Longrightarrow> inv s0 \<Longrightarrow> inv s"
  by (induction rule: rounds.induct) (auto dest: step_continue)

end

section \<open>Properties of the queues and of arrival\<close>

definition pcb_before :: "process_control_block_t \<Rightarrow> process_control_block_t \<Rightarrow> bool" where
  "pcb_before p q \<longleftrightarrow> pcb_priority p < pcb_priority q \<or>
     pcb_priority p = pcb_priority q \<and> pcb_process_id p \<le> pcb_process_id q"

lemma pcb_before_trans: "pcb_before p q \<Longrightarrow> pcb_before q r \<Longrightarrow> pcb_before p r"
  by (auto simp: pcb_before_def)

lemma set_add_pcb: "set (add_pcb_to_pcbs_queue pcb q) = insert pcb (set q)"
  by (induction q) auto

lemma sorted_add_pcb:
  "sorted_wrt pcb_before q \<Longrightarrow> sorted_wrt pcb_before (add_pcb_to_pcbs_queue pcb q)"
proof (induction q)
  case Nil
  then show ?case by simp
next
  case (Cons p q)
  show ?case
  proof (cases "pcb_priority pcb < pcb_priority p \<or>
      pcb_priority pcb = pcb_priority p \<and> pcb_process_id pcb < pcb_process_id p")
    case True
    then have "pcb_before pcb p" by (auto simp: pcb_before_def)
    with True Cons.prems show ?thesis by (auto intro: pcb_before_trans)
  next
    case False
    then have "pcb_before p pcb" by (auto simp: pcb_before_def)
    with False Cons show ?thesis by (auto simp: set_add_pcb)
  qed
qed

text \<open>Adding a control block to a queue that is ordered by priority and then process id
  keeps it ordered, and adds this block and nothing else.\<close>

theorem add_pcb_to_pcbs_queue_ordered:
  assumes "sorted_wrt pcb_before q"
  shows "sorted_wrt pcb_before (add_pcb_to_pcbs_queue pcb q) \<and>
    mset (add_pcb_to_pcbs_queue pcb q) = add_mset pcb (mset q)"
proof
  show "sorted_wrt pcb_before (add_pcb_to_pcbs_queue pcb q)" using assms by (rule sorted_add_pcb)
  show "mset (add_pcb_to_pcbs_queue pcb q) = add_mset pcb (mset q)" by (induction q) auto
qed

theorem add_pcb_to_pcbs_queue_ordered_witness:
  "let p = fst (new_process_control_block 1 10 5 []); q = fst (new_process_control_block 2 10 5 []) in
   sorted_wrt pcb_before (add_pcb_to_pcbs_queue p [q]) \<and> mset (add_pcb_to_pcbs_queue p [q]) = {#p, q#}"
  unfolding Let_def using add_pcb_to_pcbs_queue_ordered [of "[fst (new_process_control_block 2 10 5 [])]"]
  by simp

text \<open>At time \<open>t\<close> the processes of the file from index \<open>spi\<close> on whose start time has come,
  up to the first one whose time has not, are appended to the queue in the order of the
  file as fresh control blocks, and the index moves behind them; the array is not read
  beyond its end.\<close>

theorem check_scheduled_processes_arrivals:
  assumes "spi \<le> length sps"
  shows "\<exists>pcbs procs'. check_scheduled_processes sps spi t q procs =
      Inr (spi + length (due sps spi t), q @ pcbs, procs') \<and>
    map (\<lambda>pcb. (pcb_process_id pcb, pcb_job_time pcb, pcb_priority pcb, pcb_cpu_time pcb)) pcbs =
      map (\<lambda>sp. (sp_process_id sp, sp_job_time sp, 1, 0)) (due sps spi t) \<and>
    (spi + length (due sps spi t) < length sps \<longrightarrow>
       t < sp_start_time (sps ! (spi + length (due sps spi t))))"
proof -
  obtain pcbs procs' where arr: "arrivals (due sps spi t) procs = (pcbs, procs')" by fastforce
  have "map (\<lambda>pcb. (pcb_process_id pcb, pcb_job_time pcb, pcb_priority pcb, pcb_cpu_time pcb)) pcbs =
      map (\<lambda>sp. (sp_process_id sp, sp_job_time sp, 1, 0)) xs" if "arrivals xs procs = (pcbs, procs')" for xs procs pcbs
    using that
    by (induction xs arbitrary: procs pcbs)
      (auto simp: new_process_control_block_by_scheduled_process_def new_process_control_block_def
        Let_def split: prod.splits)
  from this [OF arr] show ?thesis
    using assms arr due_next [of spi sps t] by (simp add: check_scheduled_processes_eq)
qed

theorem check_scheduled_processes_arrivals_witness:
  "\<exists>pcbs procs'. check_scheduled_processes demo_sps 1 5 [] [] =
      Inr (1 + length (due demo_sps 1 5), [] @ pcbs, procs') \<and>
    map (\<lambda>pcb. (pcb_process_id pcb, pcb_job_time pcb, pcb_priority pcb, pcb_cpu_time pcb)) pcbs =
      map (\<lambda>sp. (sp_process_id sp, sp_job_time sp, 1, 0)) (due demo_sps 1 5)"
proof -
  have "1 \<le> length demo_sps" by (simp add: demo_sps_def)
  from check_scheduled_processes_arrivals [OF this, of 5 "[]" "[]"] show ?thesis by blast
qed

end
