(* ===== verification/Fcfs.thy ===== *)
theory Fcfs
  imports Scheduler_Lemmas
begin

text \<open>
  The first come first serve runner (\<open>fcfs_scheduler_runner\<close> of
  \<open>project1/process-scheduler.c\<close>): its loop ends for every input, and for input whose
  processes fit into main memory it prints exactly the abstract schedule \<open>fcfs_schedule\<close>.
\<close>

section \<open>The loop ends\<close>

definition fcfs_live :: "fcfs_state \<Rightarrow> pcbs_queue_t" where
  "fcfs_live s = (case sim_running s of None \<Rightarrow> [] | Some pcb \<Rightarrow> [pcb]) @ ready_queue s"

definition fcfs_work :: "scheduled_process_t list \<Rightarrow> fcfs_state \<Rightarrow> nat" where
  "fcfs_work sps s = work sps (fcfs_live s) (sim_spi s) (sim_time s)"

lemma fcfs_arrive_cases:
  assumes "fcfs_arrive sps s = Inr s1"
  obtains pcbs procs where "sim_spi s \<le> length sps"
    and "arrivals (due sps (sim_spi s) (sim_time s)) (sim_procs s) = (pcbs, procs)"
    and "s1 = s\<lparr>sim_spi := sim_spi s + length (due sps (sim_spi s) (sim_time s)),
                 ready_queue := ready_queue s @ pcbs, sim_procs := procs\<rparr>"
proof (cases "sim_spi s \<le> length sps")
  case True
  obtain pcbs procs where "arrivals (due sps (sim_spi s) (sim_time s)) (sim_procs s) = (pcbs, procs)"
    by fastforce
  with assms True show thesis
    by (intro that [of pcbs procs]) (simp_all add: fcfs_arrive_def check_scheduled_processes_eq)
next
  case False
  with assms show thesis
    by (simp add: fcfs_arrive_def check_scheduled_processes_beyond)
qed

lemma fcfs_arrive_work:
  assumes "fcfs_arrive sps s = Inr s1"
  shows "fcfs_work sps s1 = fcfs_work sps s"
    and "sim_spi s1 < length sps \<Longrightarrow> sim_time s1 < sp_start_time (sps ! sim_spi s1)"
proof -
  from assms show "fcfs_work sps s1 = fcfs_work sps s"
  proof (cases rule: fcfs_arrive_cases)
    case (1 pcbs procs)
    from work_arrive [OF 1(1,2)] show ?thesis
      by (simp add: 1(3) fcfs_work_def work_def fcfs_live_def add.assoc)
  qed
  from assms show "sim_time s1 < sp_start_time (sps ! sim_spi s1)" if "sim_spi s1 < length sps"
    using that by (cases rule: fcfs_arrive_cases) (use due_next in simp)
qed

lemma fcfs_dispatch_work:
  assumes "fcfs_dispatch sps m s = Inr (Continue s')"
  shows "fcfs_work sps s' = fcfs_work sps s" and "sim_spi s' = sim_spi s" and "sim_time s' = sim_time s"
    and "sim_running s' = None \<Longrightarrow> sim_spi s < length sps"
  using assms
  by (auto simp: fcfs_dispatch_def fcfs_work_def work_def fcfs_live_def load_pcb_def
      pop_front_pcb_from_pcbs_queue_def scheduled_at_def
      split: option.splits prod.splits list.splits if_splits)

lemma fcfs_execute_work:
  assumes "fcfs_execute s = Inr s'"
    and "sim_running s = None \<Longrightarrow> sim_time s < latest sps"
  shows "fcfs_work sps s' < fcfs_work sps s"
proof (cases "sim_running s")
  case None
  with assms show ?thesis
    by (auto simp: fcfs_execute_def fcfs_work_def work_def fcfs_live_def)
next
  case (Some pcb)
  from assms(1) Some obtain pcb' where run: "run_pcb pcb = Inr pcb'"
    by (auto simp: fcfs_execute_def)
  show ?thesis
  proof (cases "is_pcb_finished pcb'")
    case True
    with assms(1) Some run have "fcfs_live s' = ready_queue s" "sim_spi s' = sim_spi s"
      "sim_time s' = sim_time s + 1"
      by (auto simp: fcfs_execute_def fcfs_live_def split: prod.splits)
    moreover obtain n where "pcb_left pcb = Suc n"
      using pcb_left_pos [of pcb] gr0_conv_Suc by blast
    ultimately show ?thesis using Some
      by (simp add: fcfs_work_def work_def fcfs_live_def)
  next
    case False
    with assms(1) Some run have "fcfs_live s' = pcb' # ready_queue s" "sim_spi s' = sim_spi s"
      "sim_time s' = sim_time s + 1"
      by (auto simp: fcfs_execute_def fcfs_live_def)
    then show ?thesis using Some pcb_left_run [OF run False]
      by (simp add: fcfs_work_def work_def fcfs_live_def)
  qed
qed

lemma fcfs_step_work:
  assumes "fcfs_step sps m s = Inr (Continue s')"
  shows "fcfs_work sps s' < fcfs_work sps s"
proof -
  from assms obtain s1 s2 where s1: "fcfs_arrive sps s = Inr s1"
    and s2: "fcfs_dispatch sps m s1 = Inr (Continue s2)" and s': "fcfs_execute s2 = Inr s'"
    by (auto simp: fcfs_step_def split: control.splits)
  have "sim_time s2 < latest sps" if "sim_running s2 = None"
  proof -
    note spi = fcfs_dispatch_work(4) [OF s2 that]
    with fcfs_arrive_work(2) [OF s1] latest_ge [OF nth_mem [OF spi]] show ?thesis
      by (simp add: fcfs_dispatch_work(3) [OF s2])
  qed
  from fcfs_execute_work [OF s' this] show ?thesis
    by (simp add: fcfs_dispatch_work(1) [OF s2] fcfs_arrive_work(1) [OF s1])
qed

text \<open>The loop \<open>while (1)\<close> of the runner, total by the measure.\<close>

function fcfs_loop :: "scheduled_process_t list \<Rightarrow> int \<Rightarrow> fcfs_state \<Rightarrow> fcfs_state res" where
  "fcfs_loop sps memsize s =
     res_bind (fcfs_step sps memsize s) (\<lambda>c.
       case c of Break s' \<Rightarrow> Inr s' | Continue s' \<Rightarrow> fcfs_loop sps memsize s')"
  by pat_completeness auto
termination
  by (relation "measure (\<lambda>(sps, memsize, s). fcfs_work sps s)") (auto simp: fcfs_step_work)

declare fcfs_loop.simps [simp del]

text \<open>
  The runner on the contents of the file that \<open>fopen\<close> opened (\<open>None\<close>: it failed): the
  printed lines.
\<close>

definition fcfs_scheduler_runner :: "string option \<Rightarrow> int \<Rightarrow> out_line list res" where
  "fcfs_scheduler_runner file memsize =
     (case file of
        None \<Rightarrow> Inl (Exit 1)
      | Some fp \<Rightarrow>
          res_bind (parse_process_data_file fp) (\<lambda>scheduled_processes.
          res_bind (fcfs_loop scheduled_processes memsize (fcfs_init memsize)) (\<lambda>s.
            Inr (sim_out s @ [Finished (sim_time s)]))))"

section \<open>The abstract schedule\<close>

text \<open>
  Processes run one after the other in the order of the file, each from its start time or
  the end of its predecessor until it is done; main memory holds the running process only.
\<close>

fun fcfs_schedule :: "int \<Rightarrow> int \<Rightarrow> scheduled_process_t list \<Rightarrow> out_line list" where
  "fcfs_schedule m t [] = [Finished t]"
| "fcfs_schedule m t (sp # sps) =
     (let t0 = max t (sp_start_time sp) in
      Status t0 (sp_process_id sp) 1 (if sp_memory_size sp = m then 0 else 1)
        (percent_up (sp_memory_size sp) m)
      # fcfs_schedule m (t0 + max 1 (sp_job_time sp)) sps)"

text \<open>The lines that are still to come in a state.\<close>

definition fcfs_started :: "fcfs_state \<Rightarrow> nat" where
  "fcfs_started s = length (sim_terminated s) + (case sim_running s of None \<Rightarrow> 0 | Some _ \<Rightarrow> 1)"

definition fcfs_rest :: "int \<Rightarrow> scheduled_process_t list \<Rightarrow> fcfs_state \<Rightarrow> out_line list" where
  "fcfs_rest m sps s =
     fcfs_schedule m (sim_time s + (case sim_running s of None \<Rightarrow> 0 | Some pcb \<Rightarrow> int (pcb_left pcb)))
       (drop (fcfs_started s) sps)"

definition done_for :: "scheduled_process_t \<Rightarrow> process_control_block_t \<Rightarrow> bool" where
  "done_for sp pcb \<longleftrightarrow> pcb_process_id pcb = sp_process_id sp \<and> pcb_job_time pcb = sp_job_time sp \<and>
     pcb_process_state pcb = terminated \<and> pcb_cpu_time pcb = max 1 (sp_job_time sp)"

text \<open>
  The invariant of the runner. Ready are the processes of the file after the started ones
  up to the index \<open>spi\<close>; main memory holds the running process and nothing else.
\<close>

definition fcfs_inv :: "int \<Rightarrow> scheduled_process_t list \<Rightarrow> fcfs_state \<Rightarrow> bool" where
  "fcfs_inv m sps s \<longleftrightarrow> valid_input m sps \<and> mem_inv m (sim_procs s) (sim_segs s) \<and>
     sim_spi s \<le> length sps \<and> fcfs_started s \<le> sim_spi s \<and>
     0 \<le> sim_time s \<and> sim_time s + int (fcfs_work sps s) \<le> INT_MAX \<and>
     (\<forall>sp \<in> set (take (sim_spi s) sps). sp_start_time sp \<le> sim_time s) \<and>
     list_all2 done_for (take (length (sim_terminated s)) sps) (sim_terminated s) \<and>
     list_all2 (represents (sim_procs s))
       (take (sim_spi s - fcfs_started s) (drop (fcfs_started s) sps)) (ready_queue s) \<and>
     (\<forall>pcb \<in> set (ready_queue s). fresh_pcb pcb) \<and>
     (case sim_running s of
        None \<Rightarrow> resident (sim_procs s) = []
      | Some pcb \<Rightarrow> represents (sim_procs s) (sps ! length (sim_terminated s)) pcb \<and>
          pcb_running pcb \<and> map fst (resident (sim_procs s)) = [pcb_process_memory pcb]) \<and>
     sim_out s @ fcfs_rest m sps s = fcfs_schedule m 0 sps"

section \<open>Every round keeps the invariant\<close>

lemma take_due:
  assumes "k \<le> spi" and "spi \<le> length sps"
  shows "take (spi + length (due sps spi t) - k) (drop k sps)
    = take (spi - k) (drop k sps) @ due sps spi t"
proof -
  have n: "spi + length (due sps spi t) - k = (spi - k) + length (due sps spi t)"
    using assms by simp
  have "due sps spi t = take (length (due sps spi t)) (drop (spi - k) (drop k sps))"
    using assms due_prefix [of sps spi t] by simp
  then show ?thesis unfolding n take_add by simp
qed

lemma fcfs_inv_arrive:
  assumes inv: "fcfs_inv m sps s"
  obtains s1 where "fcfs_arrive sps s = Inr s1" and "fcfs_inv m sps s1"
proof -
  let ?d = "due sps (sim_spi s) (sim_time s)"
  let ?k = "fcfs_started s"
  from inv have valid: "valid_input m sps" and mem: "mem_inv m (sim_procs s) (sim_segs s)"
    and spi: "sim_spi s \<le> length sps" "?k \<le> sim_spi s"
    by (auto simp: fcfs_inv_def)
  obtain pcbs procs where arr: "arrivals ?d (sim_procs s) = (pcbs, procs)" by fastforce
  have "\<forall>sp \<in> set ?d. 0 < sp_memory_size sp"
    using valid_inputD(3) [OF valid] set_due_subset by blast
  from arrivals_ok [OF mem this arr]
  have mem': "mem_inv m procs (sim_segs s)" and ext: "mem_ext (sim_procs s) procs"
    and res: "resident procs = resident (sim_procs s)" and rep: "list_all2 (represents procs) ?d pcbs"
    and fresh: "\<forall>pcb \<in> set pcbs. fresh_pcb pcb"
    by auto
  let ?s1 = "s\<lparr>sim_spi := sim_spi s + length ?d, ready_queue := ready_queue s @ pcbs, sim_procs := procs\<rparr>"
  have s1: "fcfs_arrive sps s = Inr ?s1"
    using spi(1) arr by (simp add: fcfs_arrive_def check_scheduled_processes_eq)
  have k: "fcfs_started ?s1 = ?k" by (simp add: fcfs_started_def)
  have "list_all2 (represents procs) (take (sim_spi s - ?k) (drop ?k sps)) (ready_queue s)"
    using inv by (auto simp: fcfs_inv_def intro: list_all2_mono represents_ext [OF _ ext])
  then have ready: "list_all2 (represents procs)
      (take (sim_spi s + length ?d - ?k) (drop ?k sps)) (ready_queue s @ pcbs)"
    using rep by (simp add: take_due spi list_all2_appendI)
  have "take (sim_spi s + length ?d) sps = take (sim_spi s) sps @ ?d"
    using take_due [of 0 "sim_spi s" sps "sim_time s"] spi(1) by simp
  then have started: "\<forall>sp \<in> set (take (sim_spi s + length ?d) sps). sp_start_time sp \<le> sim_time s"
    using inv by (auto simp: fcfs_inv_def dest: due_start)
  have running: "represents procs sp pcb" if "represents (sim_procs s) sp pcb" for sp pcb
    using that ext by (rule represents_ext)
  have rest: "fcfs_rest m sps ?s1 = fcfs_rest m sps s" by (simp add: fcfs_rest_def k)
  have "fcfs_inv m sps ?s1"
    using inv mem' ready started fresh running fcfs_arrive_work(1) [OF s1] due_length [OF spi(1)] spi
    unfolding fcfs_inv_def k rest by (auto simp: res split: option.splits)
  with s1 show thesis by (rule that)
qed

lemma resident_upd_at:
  assumes "resident procs = []" and "map_of procs a = Some pm" and "distinct (map fst procs)"
    and "\<not> is_process_memory_in_disk (f pm)"
  shows "resident (upd_at a f procs) = [(a, f pm)]"
proof -
  from map_of_SomeE [OF assms(2,3)] obtain xs ys where procs: "procs = xs @ (a, pm) # ys"
    and "a \<notin> fst ` set xs" and "a \<notin> fst ` set ys"
    by blast
  then have "upd_at a f procs = xs @ (a, f pm) # ys" by (simp add: upd_at_notin)
  with assms(1,4) procs show ?thesis by (simp add: resident_def split: if_splits)
qed

text \<open>Loading into an empty main memory: the process goes to the top, one hole is left.\<close>

lemma load_pcb_alone:
  assumes inv: "mem_inv m procs segs" and none: "resident procs = []" and m: "0 < m"
    and rep: "represents procs sp pcb" and sz: "0 < sp_memory_size sp" "sp_memory_size sp \<le> m"
  obtains procs' segs' where
    "load_pcb pcb t procs segs =
      Inr (pcb\<lparr>pcb_process_state := running, pcb_burst_time := 0\<rparr>, procs', segs')"
    and "mem_inv m procs' segs'" and "mem_ext procs procs'"
    and "map fst (resident procs') = [pcb_process_memory pcb]"
    and "get_process_memories_list_not_in_disk_size procs' = sp_memory_size sp"
    and "int (length segs') = (if sp_memory_size sp = m then 0 else 1)"
proof -
  let ?a = "pcb_process_memory pcb"
  let ?f = "\<lambda>pm. pm\<lparr>pm_start_address := m, pm_swap_in_time := t\<rparr>"
  from rep obtain pm where a: "map_of procs ?a = Some pm" and pm: "pm_size pm = sp_memory_size sp"
    by (auto simp: represents_def)
  have disk: "is_process_memory_in_disk pm"
    using none map_of_SomeD [OF a] by (auto simp: resident_def filter_empty_conv)
  have segs: "segs = new_free_memory_segments_list m"
    using inv none m used_cells_no_resident by (auto simp: mem_inv_def intro: holes_wf_all_free)
  let ?segs = "if sp_memory_size sp = m then []
    else [\<lparr>fms_start_address = m - sp_memory_size sp, fms_size = m - sp_memory_size sp\<rparr>]"
  have fit: "first_fit (pm_size pm) segs = Some (m, ?segs)"
    using sz by (auto simp: segs pm new_free_memory_segments_list_def Let_def)
  have load: "load_pcb pcb t procs segs =
      Inr (pcb\<lparr>pcb_process_state := running, pcb_burst_time := 0\<rparr>, upd_at ?a ?f procs, ?segs)"
    by (simp add: load_pcb_def a disk swap_in_process_memory.simps [of ?a t procs segs] fit)
  have ndisk: "\<not> is_process_memory_in_disk (?f pm)"
    using m by (simp add: is_process_memory_in_disk_def IN_DISK_def)
  have res: "resident (upd_at ?a ?f procs) = [(?a, ?f pm)]"
    using none a inv ndisk by (intro resident_upd_at) (auto simp: mem_inv_def procs_wf_def)
  have "mem_ext procs (upd_at ?a ?f procs)"
    by (auto simp: mem_ext_def map_of_upd_at)
  with load mem_inv_occupy(1) [OF inv a disk fit, of t] res pm show thesis
    by (intro that [of "upd_at ?a ?f procs" ?segs])
      (auto simp: get_process_memories_list_not_in_disk_size_eq)
qed

lemma fcfs_inv_dispatch:
  assumes inv: "fcfs_inv m sps s"
    and wait: "sim_spi s < length sps \<longrightarrow> sim_time s < sp_start_time (sps ! sim_spi s)"
  obtains (run) s2 where "fcfs_dispatch sps m s = Inr (Continue s2)" and "fcfs_inv m sps s2"
      and "sim_running s2 \<noteq> None"
  | (idle) "fcfs_dispatch sps m s = Inr (Continue s)" and "sim_running s = None"
      and "fcfs_started s = sim_spi s" and "sim_spi s < length sps"
  | (stop) "fcfs_dispatch sps m s = Inr (Break s)" and "sim_running s = None"
      and "fcfs_started s = length sps"
proof (cases "sim_running s")
  case (Some pcb)
  then show thesis
    using inv by (intro run [of s]) (simp_all add: fcfs_dispatch_def)
next
  case None
  let ?k = "length (sim_terminated s)"
  have k: "fcfs_started s = ?k" using None by (simp add: fcfs_started_def)
  from inv have valid: "valid_input m sps" and mem: "mem_inv m (sim_procs s) (sim_segs s)"
    and spi: "sim_spi s \<le> length sps" "?k \<le> sim_spi s"
    and none: "resident (sim_procs s) = []"
    and ready: "list_all2 (represents (sim_procs s)) (take (sim_spi s - ?k) (drop ?k sps)) (ready_queue s)"
    using None by (auto simp: fcfs_inv_def k)
  show thesis
  proof (cases "ready_queue s")
    case Nil
    with ready spi have spi_k: "sim_spi s = ?k" by auto
    show thesis
    proof (cases "sim_spi s < length sps")
      case True
      with None Nil k spi_k show thesis
        by (intro idle) (auto simp: fcfs_dispatch_def pop_front_pcb_from_pcbs_queue_def scheduled_at_def
            intro!: fcfs_state.equality)
    next
      case False
      with None Nil k spi_k spi show thesis
        by (intro stop) (auto simp: fcfs_dispatch_def pop_front_pcb_from_pcbs_queue_def scheduled_at_def)
    qed
  next
    case (Cons pcb q)
    with list_all2_lengthD [OF ready] have lt: "?k < sim_spi s" by auto
    let ?sp = "sps ! ?k"
    have split: "take (sim_spi s - ?k) (drop ?k sps) =
        ?sp # take (sim_spi s - Suc ?k) (drop (Suc ?k) sps)"
      using lt spi by (simp add: Cons_nth_drop_Suc [symmetric] take_Cons' Suc_diff_Suc)
    have sp: "?sp \<in> set sps" using lt spi by simp
    have rep: "represents (sim_procs s) ?sp pcb"
      and q: "list_all2 (represents (sim_procs s)) (take (sim_spi s - Suc ?k) (drop (Suc ?k) sps)) q"
      using ready Cons by (auto simp: split)
    have fresh: "fresh_pcb pcb" using inv Cons by (simp add: fcfs_inv_def)
    have job: "pcb_job_time pcb = sp_job_time ?sp" using rep by (simp add: represents_def)
    let ?pcb = "pcb\<lparr>pcb_process_state := running, pcb_burst_time := 0\<rparr>"
    from load_pcb_alone [OF mem none valid_inputD(1) [OF valid] rep, of "sim_time s"]
      valid_inputD(3) [OF valid sp]
    obtain procs segs where load: "load_pcb pcb (sim_time s) (sim_procs s) (sim_segs s) =
        Inr (?pcb, procs, segs)"
      and mem': "mem_inv m procs segs" and ext: "mem_ext (sim_procs s) procs"
      and res: "map fst (resident procs) = [pcb_process_memory pcb]"
      and sz: "get_process_memories_list_not_in_disk_size procs = sp_memory_size ?sp"
      and holes: "int (length segs) = (if sp_memory_size ?sp = m then 0 else 1)"
      by blast
    let ?line = "Status (sim_time s) (sp_process_id ?sp) 1 (if sp_memory_size ?sp = m then 0 else 1)
      (percent_up (sp_memory_size ?sp) m)"
    have print: "print_simulation_status (sim_time s) ?pcb procs segs m = Inr ?line"
      using print_simulation_status_ok [OF mem' valid_inputD(1,2) [OF valid], of "sim_time s" ?pcb]
        arg_cong [OF res, of length] rep holes sz by (simp add: represents_def)
    let ?s2 = "s\<lparr>ready_queue := q, sim_running := Some ?pcb, sim_procs := procs, sim_segs := segs,
      sim_out := sim_out s @ [?line]\<rparr>"
    have s2: "fcfs_dispatch sps m s = Inr (Continue ?s2)"
      by (simp add: fcfs_dispatch_def None Cons pop_front_pcb_from_pcbs_queue_def load print)
    have k2: "fcfs_started ?s2 = Suc ?k" by (simp add: fcfs_started_def)
    have "?sp \<in> set (take (sim_spi s) sps)"
      using lt spi by (auto simp: in_set_conv_nth)
    then have start: "sp_start_time ?sp \<le> sim_time s"
      using inv by (simp add: fcfs_inv_def)
    have "fcfs_rest m sps s = ?line # fcfs_rest m sps ?s2"
      using start lt spi pcb_running_load(2) [OF fresh] job valid_inputD(3) [OF valid sp] None
      by (simp add: fcfs_rest_def k k2 Cons_nth_drop_Suc [symmetric] Let_def max_def)
    moreover have "list_all2 (represents procs) (take (sim_spi s - Suc ?k) (drop (Suc ?k) sps)) q"
      using q by (rule list_all2_mono) (rule represents_ext [OF _ ext])
    ultimately have "fcfs_inv m sps ?s2"
      using inv mem' lt res represents_ext [OF rep ext] fcfs_dispatch_work(1) [OF s2]
        pcb_running_load(1) [OF fresh] job valid_inputD(3) [OF valid sp] Cons
      unfolding fcfs_inv_def k2 by auto
    with s2 show thesis by (intro run [of ?s2]) simp_all
  qed
qed

lemma resident_terminate:
  assumes "map fst (resident procs) = [a]"
  shows "resident (upd_at a (\<lambda>pm. if is_process_memory_in_disk pm then pm else set_in_disk pm) procs) = []"
proof -
  have "is_process_memory_in_disk (snd p)" if "p \<in> set procs" and "fst p \<noteq> a" for p
  proof (rule ccontr)
    assume "\<not> is_process_memory_in_disk (snd p)"
    with that(1) have "fst p \<in> set (map fst (resident procs))" by (simp add: set_resident)
    with that(2) show False unfolding assms by simp
  qed
  then show ?thesis
    by (force simp: resident_def filter_empty_conv upd_at_def split: if_splits)
qed

lemma fcfs_schedule_wait:
  "t < sp_start_time sp \<Longrightarrow> fcfs_schedule m t (sp # sps) = fcfs_schedule m (t + 1) (sp # sps)"
  by (simp add: max_def)

lemma fcfs_inv_time:
  assumes "fcfs_inv m sps s" and "0 < fcfs_work sps s"
  shows "c_int (sim_time s + 1) = Inr (sim_time s + 1)"
proof -
  from assms(1) have "0 \<le> sim_time s" and "sim_time s + int (fcfs_work sps s) \<le> INT_MAX"
    by (auto simp: fcfs_inv_def)
  then show ?thesis using assms(2) by (rule c_int_time)
qed

lemma fcfs_inv_idle:
  assumes inv: "fcfs_inv m sps s" and None: "sim_running s = None"
    and k: "fcfs_started s = sim_spi s" and lt: "sim_spi s < length sps"
    and wait: "sim_time s < sp_start_time (sps ! sim_spi s)"
  obtains s3 where "fcfs_execute s = Inr s3" and "fcfs_inv m sps s3"
proof -
  let ?s3 = "s\<lparr>sim_time := sim_time s + 1\<rparr>"
  have late: "sim_time s < latest sps"
    using wait latest_ge [OF nth_mem [OF lt]] by simp
  then have "0 < fcfs_work sps s" by (simp add: fcfs_work_def work_def)
  from fcfs_inv_time [OF inv this] have s3: "fcfs_execute s = Inr ?s3"
    by (simp add: fcfs_execute_def None)
  have k3: "fcfs_started ?s3 = fcfs_started s" by (simp add: fcfs_started_def)
  have "fcfs_rest m sps ?s3 = fcfs_rest m sps s"
    using fcfs_schedule_wait [OF wait, of m] lt k
    by (simp add: fcfs_rest_def k3 None Cons_nth_drop_Suc [symmetric] del: fcfs_schedule.simps)
  then have "fcfs_inv m sps ?s3"
    using inv None fcfs_execute_work [OF s3, of sps] late unfolding fcfs_inv_def k3 by auto
  with s3 show thesis by (rule that)
qed

lemma fcfs_inv_execute:
  assumes inv: "fcfs_inv m sps s" and Some: "sim_running s = Some pcb"
  obtains s3 where "fcfs_execute s = Inr s3" and "fcfs_inv m sps s3"
proof -
  let ?k = "length (sim_terminated s)"
  let ?pcb = "pcb\<lparr>pcb_burst_time := pcb_burst_time pcb + 1, pcb_cpu_time := pcb_cpu_time pcb + 1\<rparr>"
  have k: "fcfs_started s = Suc ?k" using Some by (simp add: fcfs_started_def)
  from inv Some have mem: "mem_inv m (sim_procs s) (sim_segs s)"
    and rep: "represents (sim_procs s) (sps ! ?k) pcb" and prun: "pcb_running pcb"
    and res: "map fst (resident (sim_procs s)) = [pcb_process_memory pcb]"
    and spi: "Suc ?k \<le> sim_spi s" "sim_spi s \<le> length sps"
    by (auto simp: fcfs_inv_def k)
  have run: "run_pcb pcb = Inr ?pcb" using prun by (rule run_pcb_ok)
  have "0 < fcfs_work sps s"
    using Some pcb_left_pos [of pcb] by (simp add: fcfs_work_def work_def fcfs_live_def del: pcb_left_pos)
  with inv have time: "c_int (sim_time s + 1) = Inr (sim_time s + 1)"
    by (rule fcfs_inv_time)
  show thesis
  proof (cases "is_pcb_finished ?pcb")
    case False
    let ?s3 = "s\<lparr>sim_time := sim_time s + 1, sim_running := Some ?pcb\<rparr>"
    have s3: "fcfs_execute s = Inr ?s3" using Some run time False by (simp add: fcfs_execute_def)
    have k3: "fcfs_started ?s3 = fcfs_started s" using Some by (simp add: fcfs_started_def)
    have "fcfs_rest m sps ?s3 = fcfs_rest m sps s"
      using Some pcb_left_run [OF run False] unfolding fcfs_rest_def k3 by (simp add: add.assoc)
    then have "fcfs_inv m sps ?s3"
      using inv Some fcfs_execute_work [OF s3, of sps] pcb_running_run(1) [OF prun False]
      unfolding fcfs_inv_def k3 by auto
    with s3 show thesis by (rule that)
  next
    case True
    from rep have "represents (sim_procs s) (sps ! ?k) ?pcb" by simp
    from terminate_pcb_ok [OF mem this] obtain procs segs where
      trm: "terminate_pcb ?pcb (sim_procs s) (sim_segs s) =
        Inr (?pcb\<lparr>pcb_process_state := terminated\<rparr>, procs, segs)"
      and mem': "mem_inv m procs segs" and ext: "mem_ext (sim_procs s) procs"
      and procs: "procs = upd_at (pcb_process_memory ?pcb) (\<lambda>pm. if is_process_memory_in_disk pm
           then pm else set_in_disk pm) (sim_procs s)"
      by blast
    let ?done = "?pcb\<lparr>pcb_process_state := terminated\<rparr>"
    let ?s3 = "s\<lparr>sim_time := sim_time s + 1, sim_running := None, sim_procs := procs, sim_segs := segs,
      sim_terminated := sim_terminated s @ [?done]\<rparr>"
    have s3: "fcfs_execute s = Inr ?s3" using Some run time True trm by (simp add: fcfs_execute_def)
    have k3: "fcfs_started ?s3 = fcfs_started s" using Some by (simp add: fcfs_started_def)
    have "fcfs_rest m sps ?s3 = fcfs_rest m sps s"
      using Some pcb_running_run(3) [OF prun True] by (simp add: fcfs_rest_def k3)
    moreover have "done_for (sps ! ?k) ?done"
      using rep pcb_running_run(2) [OF prun True] by (simp add: done_for_def represents_def)
    then have "list_all2 done_for (take (Suc ?k) sps) (sim_terminated s @ [?done])"
      using inv spi by (simp add: fcfs_inv_def take_Suc_conv_app_nth list_all2_appendI)
    moreover have "list_all2 (represents procs)
        (take (sim_spi s - fcfs_started s) (drop (fcfs_started s) sps)) (ready_queue s)"
      using inv by (auto simp: fcfs_inv_def intro: list_all2_mono represents_ext [OF _ ext])
    moreover have "resident procs = []"
      unfolding procs by (rule resident_terminate) (simp add: res)
    ultimately have "fcfs_inv m sps ?s3"
      using inv mem' Some fcfs_execute_work [OF s3, of sps] unfolding fcfs_inv_def k3 by auto
    with s3 show thesis by (rule that)
  qed
qed

lemma fcfs_inv_step:
  assumes inv: "fcfs_inv m sps s"
  obtains (continue) s' where "fcfs_step sps m s = Inr (Continue s')" and "fcfs_inv m sps s'"
  | (break) s' where "fcfs_step sps m s = Inr (Break s')" and "fcfs_inv m sps s'"
      and "sim_running s' = None" and "fcfs_started s' = length sps"
proof -
  from fcfs_inv_arrive [OF inv] obtain s1 where
    s1: "fcfs_arrive sps s = Inr s1" and inv1: "fcfs_inv m sps s1" .
  have wait: "sim_spi s1 < length sps \<longrightarrow> sim_time s1 < sp_start_time (sps ! sim_spi s1)"
    using fcfs_arrive_work(2) [OF s1] by blast
  show thesis
  proof (cases rule: fcfs_inv_dispatch [OF inv1 wait, case_names run idle stop])
    case (run s2)
    from run(3) obtain pcb where "sim_running s2 = Some pcb" by blast
    from fcfs_inv_execute [OF run(2) this] obtain s3 where
      "fcfs_execute s2 = Inr s3" and "fcfs_inv m sps s3" .
    with s1 run(1) show thesis by (intro continue [of s3]) (simp_all add: fcfs_step_def)
  next
    case idle
    from fcfs_inv_idle [OF inv1 idle(2-4) wait [rule_format, OF idle(4)]] obtain s3 where
      "fcfs_execute s1 = Inr s3" and "fcfs_inv m sps s3" .
    with s1 idle(1) show thesis by (intro continue [of s3]) (simp_all add: fcfs_step_def)
  next
    case stop
    with s1 inv1 show thesis by (intro break [of s1]) (simp_all add: fcfs_step_def)
  qed
qed

lemma fcfs_inv_init:
  assumes "valid_input m sps"
  shows "fcfs_inv m sps (fcfs_init m)"
proof -
  have "0 \<le> latest sps" by (induction sps) (simp_all add: latest_def)
  with assms have "int (fcfs_work sps (fcfs_init m)) \<le> INT_MAX"
    by (simp add: fcfs_work_def work_def fcfs_live_def fcfs_init_def new_pcbs_queue_def valid_input_def)
  moreover have "mem_inv m (sim_procs (fcfs_init m)) (sim_segs (fcfs_init m))"
    using mem_inv_new [of m] assms by (simp add: fcfs_init_def valid_input_def)
  ultimately show ?thesis
    using assms by (simp add: fcfs_inv_def fcfs_init_def fcfs_started_def fcfs_rest_def new_pcbs_list_def
        new_pcbs_queue_def new_process_memories_list_def resident_def)
qed

section \<open>The run\<close>

definition fcfs_final :: "int \<Rightarrow> scheduled_process_t list \<Rightarrow> fcfs_state \<Rightarrow> bool" where
  "fcfs_final m sps s \<longleftrightarrow> fcfs_inv m sps s \<and> sim_running s = None \<and> fcfs_started s = length sps"

interpretation fcfs: sim_loop "fcfs_step sps m" "fcfs_loop sps m" "fcfs_inv m sps" "fcfs_work sps"
  "fcfs_final m sps" for sps m
proof
  fix s s'
  show "fcfs_loop sps m s = res_bind (fcfs_step sps m s)
      (\<lambda>c. case c of Break s' \<Rightarrow> Inr s' | Continue s' \<Rightarrow> fcfs_loop sps m s')"
    by (rule fcfs_loop.simps)
  assume inv: "fcfs_inv m sps s"
  from inv show "\<exists>c. fcfs_step sps m s = Inr c"
    by (cases rule: fcfs_inv_step) auto
  from inv show "fcfs_inv m sps s' \<and> fcfs_work sps s' < fcfs_work sps s"
    if "fcfs_step sps m s = Inr (Continue s')"
    using that fcfs_step_work [OF that] by (cases rule: fcfs_inv_step) auto
  from inv show "fcfs_final m sps s'" if "fcfs_step sps m s = Inr (Break s')"
    using that by (cases rule: fcfs_inv_step) (auto simp: fcfs_final_def)
qed

lemma fcfs_final_out:
  assumes "fcfs_final m sps s"
  shows "sim_out s @ [Finished (sim_time s)] = fcfs_schedule m 0 sps"
    and "list_all2 done_for sps (sim_terminated s)"
    and "sim_segs s = new_free_memory_segments_list m"
proof -
  from assms have inv: "fcfs_inv m sps s" and None: "sim_running s = None"
    and k: "fcfs_started s = length sps" "length (sim_terminated s) = length sps"
    by (auto simp: fcfs_final_def fcfs_started_def)
  show "sim_out s @ [Finished (sim_time s)] = fcfs_schedule m 0 sps"
    using inv by (simp add: fcfs_inv_def fcfs_rest_def None k)
  show "list_all2 done_for sps (sim_terminated s)"
    using inv k by (simp add: fcfs_inv_def)
  have mem: "mem_inv m (sim_procs s) (sim_segs s)" "resident (sim_procs s) = []" "0 < m"
    using inv None by (auto simp: fcfs_inv_def valid_input_def)
  then show "sim_segs s = new_free_memory_segments_list m"
    using used_cells_no_resident by (auto simp: mem_inv_def intro: holes_wf_all_free)
qed

lemma fcfs_loop_total:
  assumes "valid_input m sps"
  obtains s where "fcfs_loop sps m (fcfs_init m) = Inr s" and "fcfs_final m sps s"
  using fcfs.run_total [OF fcfs_inv_init [OF assms]] by blast

section \<open>Properties of the runner\<close>

text \<open>C1: On a file whose processes fit into main memory the first come first serve runner
  prints exactly the abstract schedule: the processes in the order of the file, each from its
  start time or the end of its predecessor until it is done, with main memory holding the
  running process only, and the end of the last one.\<close>

theorem fcfs_scheduler_runner_correct:
  assumes "parse_process_data_file fp = Inr sps" and "valid_input m sps"
  shows "fcfs_scheduler_runner (Some fp) m = Inr (fcfs_schedule m 0 sps)"
proof -
  from fcfs_loop_total [OF assms(2)] obtain s where "fcfs_loop sps m (fcfs_init m) = Inr s"
    and "fcfs_final m sps s" .
  with fcfs_final_out(1) assms(1) show ?thesis by (simp add: fcfs_scheduler_runner_def)
qed

theorem fcfs_scheduler_runner_correct_witness:
  "fcfs_scheduler_runner (Some (render_file demo_sps)) 100 = Inr (fcfs_schedule 100 0 demo_sps)"
  by (rule fcfs_scheduler_runner_correct [OF demo_sps_parsed demo_sps_valid])

text \<open>When the first come first serve loop ends, the terminated processes are those of the
  file in its order, each has run for exactly its job time (one step at least), and all of
  main memory is one hole again.\<close>

theorem fcfs_loop_completes:
  assumes "valid_input m sps"
  shows "\<exists>s. fcfs_loop sps m (fcfs_init m) = Inr s \<and>
    map pcb_process_id (sim_terminated s) = map sp_process_id sps \<and>
    map pcb_cpu_time (sim_terminated s) = map (\<lambda>sp. max 1 (sp_job_time sp)) sps \<and>
    sim_segs s = new_free_memory_segments_list m"
proof -
  from fcfs_loop_total [OF assms] obtain s where s: "fcfs_loop sps m (fcfs_init m) = Inr s"
    and final: "fcfs_final m sps s" .
  have all: "list_all2 done_for sps (sim_terminated s)" using fcfs_final_out(2) [OF final] .
  then have "map pcb_process_id (sim_terminated s) = map sp_process_id sps"
    and "map pcb_cpu_time (sim_terminated s) = map (\<lambda>sp. max 1 (sp_job_time sp)) sps"
    by (induction rule: list_all2_induct) (simp_all add: done_for_def)
  with s fcfs_final_out(3) [OF final] show ?thesis by blast
qed

theorem fcfs_loop_completes_witness:
  "\<exists>s. fcfs_loop demo_sps 100 (fcfs_init 100) = Inr s \<and>
    map pcb_process_id (sim_terminated s) = map sp_process_id demo_sps \<and>
    map pcb_cpu_time (sim_terminated s) = map (\<lambda>sp. max 1 (sp_job_time sp)) demo_sps \<and>
    sim_segs s = new_free_memory_segments_list 100"
  by (rule fcfs_loop_completes [OF demo_sps_valid])

end
