(* ===== verification/Multi.thy ===== *)
theory Multi
  imports Scheduler_Lemmas
begin

text \<open>
  The multi-level feedback queue runner (\<open>multi_scheduler_runner\<close> of
  \<open>project1/process-scheduler.c\<close>): its loop ends for every input; for valid input every
  process is run for exactly its job time, the queues hold control blocks of their own
  priority only, the running process has not used up its quantum, and the memory
  invariant holds in every round.
\<close>

section \<open>The queues\<close>

lemma pop_first_ready_Some:
  "pop_first_ready qs = (Some pcb, qs') \<Longrightarrow> concat qs = pcb # concat qs' \<and> length qs' = length qs"
  by (induction qs arbitrary: qs')
    (auto simp: pop_front_pcb_from_pcbs_queue_def split: list.splits prod.splits)

lemma pop_first_ready_None:
  "pop_first_ready qs = (None, qs') \<Longrightarrow> concat qs = [] \<and> qs' = qs"
  by (induction qs arbitrary: qs')
    (auto simp: pop_front_pcb_from_pcbs_queue_def split: list.splits prod.splits)

text \<open>The popped control block is the head of the first queue that is not empty.\<close>

lemma pop_first_ready_priority:
  "pop_first_ready qs = (Some pcb, qs') \<Longrightarrow>
   \<exists>i q. i < length qs \<and> (\<forall>j < i. qs ! j = []) \<and> qs ! i = pcb # q \<and> qs' = qs[i := q]"
proof (induction qs arbitrary: qs')
  case Nil
  then show ?case by simp
next
  case (Cons q qs)
  show ?case
  proof (cases q)
    case Nil
    with Cons.prems obtain rest where rest: "pop_first_ready qs = (Some pcb, rest)"
      and qs': "qs' = [] # rest"
      by (auto simp: pop_front_pcb_from_pcbs_queue_def split: prod.splits)
    from Cons.IH [OF rest] obtain i q' where "i < length qs" "\<forall>j < i. qs ! j = []"
      "qs ! i = pcb # q'" "rest = qs[i := q']"
      by blast
    with Nil qs' show ?thesis
      by (intro exI [of _ "Suc i"] exI [of _ q']) (auto simp: nth_Cons split: nat.splits)
  next
    case (Cons p ps)
    with Cons.prems show ?thesis
      by (intro exI [of _ 0] exI [of _ ps]) (auto simp: pop_front_pcb_from_pcbs_queue_def)
  qed
qed

lemma sum_concat_update:
  fixes f :: "'a \<Rightarrow> nat"
  shows "i < length qs \<Longrightarrow>
    sum_list (map f (concat (qs[i := qs ! i @ [x]]))) = f x + sum_list (map f (concat qs))"
  by (induction qs arbitrary: i) (auto split: nat.splits)

lemma mset_concat_update:
  "i < length qs \<Longrightarrow> mset (concat (qs[i := qs ! i @ [x]])) = add_mset x (mset (concat qs))"
  by (induction qs arbitrary: i) (auto split: nat.splits)

section \<open>The loop ends\<close>

definition multi_live :: "multi_state \<Rightarrow> pcbs_queue_t" where
  "multi_live s = (case sim_running s of None \<Rightarrow> [] | Some pcb \<Rightarrow> [pcb]) @ concat (ready_qs s)"

definition multi_work :: "scheduled_process_t list \<Rightarrow> multi_state \<Rightarrow> nat" where
  "multi_work sps s = work sps (multi_live s) (sim_spi s) (sim_time s)"

lemma multi_arrive_cases:
  assumes "multi_arrive sps s = Inr s1"
  obtains q1 qs pcbs procs where "ready_qs s = q1 # qs" and "sim_spi s \<le> length sps"
    and "arrivals (due sps (sim_spi s) (sim_time s)) (sim_procs s) = (pcbs, procs)"
    and "s1 = s\<lparr>sim_spi := sim_spi s + length (due sps (sim_spi s) (sim_time s)),
                 ready_qs := (q1 @ pcbs) # qs, sim_procs := procs\<rparr>"
proof -
  from assms obtain q1 qs where qs: "ready_qs s = q1 # qs"
    by (auto simp: multi_arrive_def split: list.splits)
  show thesis
  proof (cases "sim_spi s \<le> length sps")
    case True
    obtain pcbs procs where "arrivals (due sps (sim_spi s) (sim_time s)) (sim_procs s) = (pcbs, procs)"
      by fastforce
    with assms qs True show thesis
      by (intro that [of q1 qs pcbs procs]) (simp_all add: multi_arrive_def check_scheduled_processes_eq)
  next
    case False
    with assms qs show thesis
      by (simp add: multi_arrive_def check_scheduled_processes_beyond)
  qed
qed

lemma multi_arrive_work:
  assumes "multi_arrive sps s = Inr s1"
  shows "multi_work sps s1 = multi_work sps s"
    and "sim_spi s1 < length sps \<Longrightarrow> sim_time s1 < sp_start_time (sps ! sim_spi s1)"
proof -
  from assms show "multi_work sps s1 = multi_work sps s"
  proof (cases rule: multi_arrive_cases)
    case (1 q1 qs pcbs procs)
    from work_arrive [OF 1(2,3)] show ?thesis
      by (simp add: 1 multi_work_def work_def multi_live_def add.assoc)
  qed
  from assms show "sim_time s1 < sp_start_time (sps ! sim_spi s1)" if "sim_spi s1 < length sps"
    using that by (cases rule: multi_arrive_cases) (use due_next in simp)
qed

lemma multi_dispatch_work:
  assumes "multi_dispatch sps m s = Inr (Continue s')"
  shows "multi_work sps s' = multi_work sps s" and "sim_spi s' = sim_spi s" and "sim_time s' = sim_time s"
    and "sim_running s' = None \<Longrightarrow> sim_spi s < length sps"
  using assms
  by (auto simp: multi_dispatch_def multi_work_def work_def multi_live_def load_pcb_def scheduled_at_def
      dest!: pop_first_ready_Some pop_first_ready_None
      split: option.splits prod.splits list.splits if_splits)

lemma multi_execute_work:
  assumes "multi_execute s = Inr s'"
    and "sim_running s = None \<Longrightarrow> sim_time s < latest sps"
  shows "multi_work sps s' < multi_work sps s"
proof (cases "sim_running s")
  case None
  with assms show ?thesis
    by (auto simp: multi_execute_def multi_work_def work_def multi_live_def)
next
  case (Some pcb)
  from assms(1) Some obtain pcb' where run: "run_pcb pcb = Inr pcb'"
    by (auto simp: multi_execute_def)
  have time: "sim_time s' = sim_time s + 1" and spi: "sim_spi s' = sim_spi s"
    using assms(1) Some run
    by (auto simp: multi_execute_def Let_def split: prod.splits if_splits)
  have "sum_list (map pcb_left (multi_live s')) < sum_list (map pcb_left (multi_live s))"
  proof (cases "is_pcb_finished pcb'")
    case True
    with assms(1) Some run have "multi_live s' = concat (ready_qs s)"
      by (auto simp: multi_execute_def multi_live_def split: prod.splits)
    then show ?thesis using Some by (simp add: multi_live_def)
  next
    case unfinished: False
    note left = pcb_left_run [OF run unfinished]
    show ?thesis
    proof (cases "is_quantum_exhausted_by_pcb pcb'")
      case True
      with assms(1) Some run unfinished have "sum_list (map pcb_left (multi_live s')) =
          pcb_left pcb' + sum_list (map pcb_left (concat (ready_qs s)))"
        by (auto simp: multi_execute_def multi_live_def append_to_queue_def Let_def sum_concat_update
            ready_and_decrease_priority_pcb_def split: if_splits)
      then show ?thesis using Some left by (simp add: multi_live_def)
    next
      case False
      with assms(1) Some run unfinished have "multi_live s' = pcb' # concat (ready_qs s)"
        by (auto simp: multi_execute_def multi_live_def)
      then show ?thesis using Some left by (simp add: multi_live_def)
    qed
  qed
  then show ?thesis by (simp add: multi_work_def work_def time spi)
qed

lemma multi_step_work:
  assumes "multi_step sps m s = Inr (Continue s')"
  shows "multi_work sps s' < multi_work sps s"
proof -
  from assms obtain s1 s2 where s1: "multi_arrive sps s = Inr s1"
    and s2: "multi_dispatch sps m s1 = Inr (Continue s2)" and s': "multi_execute s2 = Inr s'"
    by (auto simp: multi_step_def split: control.splits)
  have "sim_time s2 < latest sps" if "sim_running s2 = None"
  proof -
    note spi = multi_dispatch_work(4) [OF s2 that]
    with multi_arrive_work(2) [OF s1] latest_ge [OF nth_mem [OF spi]] show ?thesis
      by (simp add: multi_dispatch_work(3) [OF s2])
  qed
  from multi_execute_work [OF s' this] show ?thesis
    by (simp add: multi_dispatch_work(1) [OF s2] multi_arrive_work(1) [OF s1])
qed

function multi_loop :: "scheduled_process_t list \<Rightarrow> int \<Rightarrow> multi_state \<Rightarrow> multi_state res" where
  "multi_loop sps memsize s =
     res_bind (multi_step sps memsize s) (\<lambda>c.
       case c of Break s' \<Rightarrow> Inr s' | Continue s' \<Rightarrow> multi_loop sps memsize s')"
  by pat_completeness auto
termination
  by (relation "measure (\<lambda>(sps, memsize, s). multi_work sps s)") (auto simp: multi_step_work)

declare multi_loop.simps [simp del]

definition multi_scheduler_runner :: "string option \<Rightarrow> int \<Rightarrow> out_line list res" where
  "multi_scheduler_runner file memsize =
     (case file of
        None \<Rightarrow> Inl (Exit 1)
      | Some fp \<Rightarrow>
          res_bind (parse_process_data_file fp) (\<lambda>scheduled_processes.
          res_bind (multi_loop scheduled_processes memsize (multi_init memsize)) (\<lambda>s.
            Inr (sim_out s @ [Finished (sim_time s)]))))"

section \<open>The invariant\<close>

definition pcb_waiting :: "process_control_block_t \<Rightarrow> bool" where
  "pcb_waiting pcb \<longleftrightarrow> pcb_process_state pcb = ready \<and> pcb_burst_time pcb = 0 \<and>
     0 \<le> pcb_cpu_time pcb \<and> pcb_cpu_time pcb < max 1 (pcb_job_time pcb) \<and>
     pcb_job_time pcb \<le> INT_MAX"

definition pcb_done :: "process_control_block_t \<Rightarrow> bool" where
  "pcb_done pcb \<longleftrightarrow> pcb_process_state pcb = terminated \<and> pcb_cpu_time pcb = max 1 (pcb_job_time pcb)"

text \<open>Who a control block and a line of the file stand for.\<close>

definition pcb_key :: "process_control_block_t \<Rightarrow> int \<times> int" where
  "pcb_key pcb = (pcb_process_id pcb, pcb_job_time pcb)"

definition sp_key :: "scheduled_process_t \<Rightarrow> int \<times> int" where
  "sp_key sp = (sp_process_id sp, sp_job_time sp)"

text \<open>A status line reports sensible figures.\<close>

fun line_ok :: "out_line \<Rightarrow> bool" where
  "line_ok (Status t pid numprocesses numholes memusage) \<longleftrightarrow>
     1 \<le> numprocesses \<and> 0 \<le> numholes \<and> numholes \<le> numprocesses + 1 \<and>
     1 \<le> memusage \<and> memusage \<le> 100"
| "line_ok (Finished t) \<longleftrightarrow> True"

definition queues_ok :: "pcbs_queue_t list \<Rightarrow> bool" where
  "queues_ok qs \<longleftrightarrow> length qs = 3 \<and>
     (\<forall>i < 3. \<forall>pcb \<in> set (qs ! i). pcb_priority pcb = int i + 1 \<and> pcb_waiting pcb)"

definition running_ok :: "process_memories_list_t \<Rightarrow> process_control_block_t \<Rightarrow> bool" where
  "running_ok procs pcb \<longleftrightarrow> pcb_running pcb \<and> 1 \<le> pcb_priority pcb \<and> pcb_priority pcb \<le> 3 \<and>
     pcb_burst_time pcb < get_quantum_by_pcb pcb \<and> in_memory procs pcb"

definition multi_inv :: "int \<Rightarrow> scheduled_process_t list \<Rightarrow> multi_state \<Rightarrow> bool" where
  "multi_inv m sps s \<longleftrightarrow> valid_input m sps \<and> mem_inv m (sim_procs s) (sim_segs s) \<and>
     sim_spi s \<le> length sps \<and>
     0 \<le> sim_time s \<and> sim_time s + int (multi_work sps s) \<le> INT_MAX \<and>
     queues_ok (ready_qs s) \<and>
     (\<forall>pcb \<in> set (multi_live s). \<exists>sp \<in> set sps. represents (sim_procs s) sp pcb) \<and>
     (\<forall>pcb \<in> set (sim_terminated s). pcb_done pcb) \<and>
     (\<forall>pcb. sim_running s = Some pcb \<longrightarrow> running_ok (sim_procs s) pcb) \<and>
     fst ` set (resident (sim_procs s)) \<subseteq> pcb_process_memory ` set (multi_live s) \<and>
     image_mset pcb_key (mset (sim_terminated s @ multi_live s))
       = image_mset sp_key (mset (take (sim_spi s) sps)) \<and>
     end_time (sim_time s + int (sum_list (map pcb_left (multi_live s)))) (drop (sim_spi s) sps)
       = end_time 0 sps \<and>
     (\<forall>line \<in> set (sim_out s). line_ok line)"

lemma queues_okD:
  assumes "queues_ok qs"
  shows "length qs = 3" and "pcb \<in> set (concat qs) \<Longrightarrow> pcb_waiting pcb"
    and "pcb \<in> set (concat qs) \<Longrightarrow> 1 \<le> pcb_priority pcb \<and> pcb_priority pcb \<le> 3"
proof -
  show len: "length qs = 3" using assms by (simp add: queues_ok_def)
  have "\<exists>i < 3. pcb_priority pcb = int i + 1 \<and> pcb_waiting pcb" if pcb: "pcb \<in> set (concat qs)"
  proof -
    from pcb obtain q where "q \<in> set qs" and q: "pcb \<in> set q" by auto
    then obtain i where "i < 3" and "q = qs ! i" by (auto simp: in_set_conv_nth len)
    with q assms show ?thesis by (auto simp: queues_ok_def)
  qed
  then show "pcb \<in> set (concat qs) \<Longrightarrow> pcb_waiting pcb"
    and "pcb \<in> set (concat qs) \<Longrightarrow> 1 \<le> pcb_priority pcb \<and> pcb_priority pcb \<le> 3"
    by fastforce+
qed

lemma queues_ok_append:
  assumes "queues_ok qs" and "pcb_waiting pcb" and "pcb_priority pcb = int i + 1" and "i < 3"
  shows "queues_ok (qs[i := qs ! i @ [pcb]])"
  using assms by (auto simp: queues_ok_def nth_list_update)

lemma queues_ok_arrive:
  assumes "queues_ok (q1 # qs)" and "\<forall>pcb \<in> set pcbs. fresh_pcb pcb \<and> pcb_job_time pcb \<le> INT_MAX"
  shows "queues_ok ((q1 @ pcbs) # qs)"
  unfolding queues_ok_def
proof (intro conjI allI impI ballI)
  show "length ((q1 @ pcbs) # qs) = 3" using assms(1) by (simp add: queues_ok_def)
  fix i pcb
  assume i: "i < (3::nat)" and pcb: "pcb \<in> set (((q1 @ pcbs) # qs) ! i)"
  have "pcb_priority pcb = int i + 1 \<and> pcb_waiting pcb"
  proof (cases "pcb \<in> set ((q1 # qs) ! i)")
    case True
    with assms(1) i show ?thesis unfolding queues_ok_def by blast
  next
    case False
    with pcb have "i = 0" and "pcb \<in> set pcbs" by (cases i; simp)+
    with assms(2) show ?thesis by (auto simp: fresh_pcb_def pcb_waiting_def)
  qed
  then show "pcb_priority pcb = int i + 1" and "pcb_waiting pcb" by auto
qed

lemma queues_ok_pop:
  assumes "queues_ok qs" and "pop_first_ready qs = (Some pcb, qs')"
  shows "queues_ok qs'"
  using pop_first_ready_priority [OF assms(2)] assms(1)
  by (fastforce simp: queues_ok_def nth_list_update split: if_splits)

lemma multi_inv_time:
  assumes "multi_inv m sps s" and "0 < multi_work sps s"
  shows "c_int (sim_time s + 1) = Inr (sim_time s + 1)"
proof -
  from assms(1) have "0 \<le> sim_time s" and "sim_time s + int (multi_work sps s) \<le> INT_MAX"
    by (auto simp: multi_inv_def)
  then show ?thesis using assms(2) by (rule c_int_time)
qed

section \<open>Every round keeps the invariant\<close>

lemma arrivals_key: "arrivals sps procs = (pcbs, procs') \<Longrightarrow> map pcb_key pcbs = map sp_key sps"
  by (induction sps arbitrary: procs pcbs)
    (auto simp: new_process_control_block_by_scheduled_process_def new_process_control_block_def
      Let_def pcb_key_def sp_key_def split: prod.splits)

lemma list_all2_ex: "list_all2 P xs ys \<Longrightarrow> y \<in> set ys \<Longrightarrow> \<exists>x \<in> set xs. P x y"
  by (induction rule: list_all2_induct) auto

lemma multi_inv_arrive:
  assumes inv: "multi_inv m sps s"
  obtains s1 where "multi_arrive sps s = Inr s1" and "multi_inv m sps s1"
proof -
  let ?d = "due sps (sim_spi s) (sim_time s)"
  from inv have valid: "valid_input m sps" and mem: "mem_inv m (sim_procs s) (sim_segs s)"
    and spi: "sim_spi s \<le> length sps" and qok: "queues_ok (ready_qs s)"
    by (auto simp: multi_inv_def)
  obtain q1 qs where qs: "ready_qs s = q1 # qs"
    using queues_okD(1) [OF qok] by (cases "ready_qs s") auto
  obtain pcbs procs where arr: "arrivals ?d (sim_procs s) = (pcbs, procs)" by fastforce
  have "\<forall>sp \<in> set ?d. 0 < sp_memory_size sp"
    using valid_inputD(3) [OF valid] set_due_subset by blast
  from arrivals_ok [OF mem this arr]
  have mem': "mem_inv m procs (sim_segs s)" and ext: "mem_ext (sim_procs s) procs"
    and rep: "list_all2 (represents procs) ?d pcbs" and fresh: "\<forall>pcb \<in> set pcbs. fresh_pcb pcb"
    and res: "resident procs = resident (sim_procs s)"
    by auto
  have new: "\<exists>sp \<in> set sps. represents procs sp pcb" if "pcb \<in> set pcbs" for pcb
    using list_all2_ex [OF rep that] set_due_subset by blast
  have job: "pcb_job_time pcb \<le> INT_MAX" if "pcb \<in> set pcbs" for pcb
    using new [OF that] valid_inputD(3) [OF valid] by (auto simp: represents_def)
  let ?s1 = "s\<lparr>sim_spi := sim_spi s + length ?d, ready_qs := (q1 @ pcbs) # qs, sim_procs := procs\<rparr>"
  have s1: "multi_arrive sps s = Inr ?s1"
    using spi arr qs by (simp add: multi_arrive_def check_scheduled_processes_eq)
  have live: "mset (multi_live ?s1) = mset (multi_live s) + mset pcbs"
    by (simp add: multi_live_def qs ac_simps)
  have lives: "set (multi_live ?s1) = set (multi_live s) \<union> set pcbs" by (auto simp: multi_live_def qs)
  then have reps: "\<forall>pcb \<in> set (multi_live ?s1). \<exists>sp \<in> set sps. represents procs sp pcb"
    using inv new represents_ext [OF _ ext] by (auto simp: multi_inv_def; blast)
  have "take (sim_spi s + length ?d) sps = take (sim_spi s) sps @ ?d"
    by (simp add: take_add due_prefix [symmetric])
  then have keys: "image_mset pcb_key (mset (sim_terminated s @ multi_live ?s1))
      = image_mset sp_key (mset (take (sim_spi s + length ?d) sps))"
    using inv arg_cong [OF arrivals_key [OF arr], of mset] live by (simp add: multi_inv_def ac_simps)
  have ends: "end_time (sim_time s + int (sum_list (map pcb_left (multi_live ?s1))))
        (drop (sim_spi s + length ?d) sps) = end_time 0 sps"
    using inv end_time_arrive [OF arr, of "int (sum_list (map pcb_left (multi_live s)))"]
    by (simp add: multi_inv_def multi_live_def qs algebra_simps)
  have "in_memory procs pcb" if "in_memory (sim_procs s) pcb" for pcb
    using that arrivals_map_of [OF arr] by (auto simp: in_memory_def)
  moreover have "fst ` set (resident procs) \<subseteq> pcb_process_memory ` set (multi_live ?s1)"
    using inv unfolding res lives multi_inv_def by blast
  ultimately have "multi_inv m sps ?s1"
    using inv mem' reps keys ends due_length [OF spi] multi_arrive_work(1) [OF s1]
      queues_ok_arrive [OF qok [unfolded qs]] fresh job
    by (auto simp: multi_inv_def running_ok_def)
  with s1 show thesis by (rule that)
qed

lemma resident_in_memory: "in_memory procs pcb \<Longrightarrow> resident procs \<noteq> []"
  by (force simp: in_memory_def resident_def filter_empty_conv dest: map_of_SomeD)

lemma resident_size_pos:
  assumes "procs_wf m procs" and "resident procs \<noteq> []"
  shows "1 \<le> get_process_memories_list_not_in_disk_size procs"
proof -
  from assms(2) obtain p where "p \<in> set (resident procs)" by (cases "resident procs") auto
  with assms(1) have "pm_cells (snd p) \<noteq> {}" "p \<in> set procs"
    by (auto simp: procs_wf_def set_resident pm_cells_def block_nonempty)
  then have "used_cells procs \<noteq> {}" by (auto simp: used_cells_def)
  then have "0 < card (used_cells procs)" by (simp add: card_gt_0_iff)
  then show ?thesis
    using card_used_cells [OF assms(1)] by (simp add: get_process_memories_list_not_in_disk_size_eq)
qed

lemma percent_up_bounds:
  assumes "1 \<le> part" and "part \<le> whole"
  shows "1 \<le> percent_up part whole" and "percent_up part whole \<le> 100"
proof -
  show "1 \<le> percent_up part whole"
    unfolding percent_up_def using assms by (simp add: pos_imp_zdiv_pos_iff int_one_le_iff_zero_less)
  have "(100 * part + whole - 1) div whole \<le> (100 * whole + (whole - 1)) div whole"
    using assms by (intro zdiv_mono1) auto
  also have "\<dots> = 100" using assms by (intro int_div_pos_eq [of _ _ _ "whole - 1"]) auto
  finally show "percent_up part whole \<le> 100" by (simp add: percent_up_def)
qed

lemma status_line_ok:
  assumes inv: "mem_inv m procs segs" and "0 < m" and "in_memory procs pcb"
  shows "line_ok (Status t pid (int (length (resident procs))) (int (length segs))
    (percent_up (get_process_memories_list_not_in_disk_size procs) m))"
proof -
  have wf: "procs_wf m procs" using inv by (simp add: mem_inv_def)
  note res = resident_in_memory [OF assms(3)]
  have "1 \<le> int (length (resident procs))" using res by (cases "resident procs") auto
  moreover have "int (length segs) \<le> int (length (resident procs)) + 1"
    using hole_count_le [OF inv] by simp
  ultimately show ?thesis
    using percent_up_bounds [OF resident_size_pos [OF wf res] not_in_disk_size_bounds(2) [OF inv \<open>0 < m\<close>]]
    by simp
qed

lemma multi_inv_dispatch:
  assumes inv: "multi_inv m sps s"
  obtains (run) s2 where "multi_dispatch sps m s = Inr (Continue s2)" and "multi_inv m sps s2"
      and "sim_running s2 \<noteq> None"
  | (idle) "multi_dispatch sps m s = Inr (Continue s)" and "sim_running s = None"
      and "multi_live s = []" and "sim_spi s < length sps"
  | (stop) "multi_dispatch sps m s = Inr (Break s)" and "sim_running s = None"
      and "multi_live s = []" and "sim_spi s = length sps"
proof (cases "sim_running s")
  case (Some pcb)
  then show thesis using inv by (intro run [of s]) (simp_all add: multi_dispatch_def)
next
  case None
  from inv have valid: "valid_input m sps" and mem: "mem_inv m (sim_procs s) (sim_segs s)"
    and spi: "sim_spi s \<le> length sps" and qok: "queues_ok (ready_qs s)"
    by (auto simp: multi_inv_def)
  obtain r qs where pop: "pop_first_ready (ready_qs s) = (r, qs)" by fastforce
  show thesis
  proof (cases r)
    case r: None
    note pop' = pop_first_ready_None [OF pop [unfolded r]]
    have live: "multi_live s = []" using None pop' by (simp add: multi_live_def)
    show thesis
    proof (cases "sim_spi s < length sps")
      case True
      with None pop r pop' live show thesis
        by (intro idle) (auto simp: multi_dispatch_def scheduled_at_def)
    next
      case False
      with None pop r live spi show thesis
        by (intro stop) (auto simp: multi_dispatch_def scheduled_at_def)
    qed
  next
    case (Some pcb)
    note pop = pop [unfolded Some]
    note pop' = pop_first_ready_Some [OF pop]
    have pcb: "pcb \<in> set (concat (ready_qs s))" using pop' by simp
    have live: "multi_live s = pcb # concat qs" using None pop' by (simp add: multi_live_def)
    from inv live obtain sp where sp: "sp \<in> set sps" and rep: "represents (sim_procs s) sp pcb"
      by (auto simp: multi_inv_def)
    let ?pcb = "pcb\<lparr>pcb_process_state := running, pcb_burst_time := 0\<rparr>"
    from load_pcb_ok [OF mem rep, of "sim_time s"] valid_inputD(3) [OF valid sp]
    obtain procs segs where load: "load_pcb pcb (sim_time s) (sim_procs s) (sim_segs s) =
        Inr (?pcb, procs, segs)"
      and mem': "mem_inv m procs segs" and ext: "mem_ext (sim_procs s) procs"
      and inmem: "in_memory procs pcb"
      and res: "fst ` set (resident procs)
        \<subseteq> insert (pcb_process_memory pcb) (fst ` set (resident (sim_procs s)))"
      by blast
    let ?line = "Status (sim_time s) (pcb_process_id ?pcb) (int (length (resident procs)))
      (int (length segs)) (percent_up (get_process_memories_list_not_in_disk_size procs) m)"
    have print: "print_simulation_status (sim_time s) ?pcb procs segs m = Inr ?line"
      by (rule print_simulation_status_ok [OF mem' valid_inputD(1,2) [OF valid]])
    have line: "line_ok ?line"
      by (rule status_line_ok [OF mem' valid_inputD(1) [OF valid] inmem])
    let ?s2 = "s\<lparr>ready_qs := qs, sim_running := Some ?pcb, sim_procs := procs, sim_segs := segs,
      sim_out := sim_out s @ [?line]\<rparr>"
    have s2: "multi_dispatch sps m s = Inr (Continue ?s2)"
      by (simp add: multi_dispatch_def None pop load print)
    have live2: "multi_live ?s2 = ?pcb # concat qs" by (simp add: multi_live_def)
    have "running_ok procs ?pcb"
      using queues_okD(2,3) [OF qok pcb] inmem
      by (auto simp: running_ok_def pcb_running_def pcb_waiting_def get_quantum_by_pcb_def
          Q1_QUANTUM_def Q2_QUANTUM_def Q3_QUANTUM_def)
    moreover have "\<forall>p \<in> set (multi_live ?s2). \<exists>sp \<in> set sps. represents procs sp p"
      using inv represents_ext [OF _ ext] unfolding live2 multi_inv_def live by auto blast
    moreover have "pcb_key ?pcb = pcb_key pcb" by (simp add: pcb_key_def)
    moreover have "fst ` set (resident procs) \<subseteq> pcb_process_memory ` set (multi_live ?s2)"
    proof -
      have "fst ` set (resident (sim_procs s)) \<subseteq> pcb_process_memory ` set (pcb # concat qs)"
        using inv unfolding multi_inv_def live by blast
      with res show ?thesis unfolding live2 by simp blast
    qed
    ultimately have "multi_inv m sps ?s2"
      using inv mem' line multi_dispatch_work(1) [OF s2] queues_ok_pop [OF qok pop]
      unfolding multi_inv_def live live2 by auto
    with s2 show thesis by (intro run [of ?s2]) simp_all
  qed
qed

lemma multi_inv_idle:
  assumes inv: "multi_inv m sps s" and None: "sim_running s = None" and live: "multi_live s = []"
    and lt: "sim_spi s < length sps" and wait: "sim_time s < sp_start_time (sps ! sim_spi s)"
  obtains s3 where "multi_execute s = Inr s3" and "multi_inv m sps s3"
proof -
  let ?s3 = "s\<lparr>sim_time := sim_time s + 1\<rparr>"
  have late: "sim_time s < latest sps"
    using wait latest_ge [OF nth_mem [OF lt]] by simp
  then have "0 < multi_work sps s" by (simp add: multi_work_def work_def)
  from multi_inv_time [OF inv this] have s3: "multi_execute s = Inr ?s3"
    by (simp add: multi_execute_def None)
  have live3: "multi_live ?s3 = []" using live by (simp add: multi_live_def)
  have "end_time (sim_time s) (drop (sim_spi s) sps) = end_time (sim_time s + 1) (drop (sim_spi s) sps)"
    using end_time_wait [OF wait] lt by (simp add: Cons_nth_drop_Suc [symmetric] del: end_time.simps)
  then have "multi_inv m sps ?s3"
    using inv None multi_execute_work [OF s3, of sps] late unfolding multi_inv_def live live3 by auto
  with s3 show thesis by (rule that)
qed

text \<open>
  The three ways a time step of a running process can end: it terminates, it used up its
  quantum and goes to the end of the next queue, or it goes on.
\<close>

lemma multi_execute_finish:
  assumes "sim_running s = Some pcb" and "run_pcb pcb = Inr pcb'"
    and "c_int (sim_time s + 1) = Inr t" and "is_pcb_finished pcb'"
    and "terminate_pcb pcb' (sim_procs s) (sim_segs s) = Inr (pcb'', procs, segs)"
  shows "multi_execute s = Inr (s\<lparr>sim_time := t, sim_running := None, sim_procs := procs,
    sim_segs := segs, sim_terminated := sim_terminated s @ [pcb'']\<rparr>)"
  unfolding multi_execute_def assms(1) using assms(2-) by simp

lemma multi_execute_demote:
  assumes "sim_running s = Some pcb" and "run_pcb pcb = Inr pcb'"
    and "c_int (sim_time s + 1) = Inr t" and "\<not> is_pcb_finished pcb'"
    and "is_quantum_exhausted_by_pcb pcb'"
    and "pcb_priority (ready_and_decrease_priority_pcb pcb') = int i + 1"
    and "i < length (ready_qs s)"
  shows "multi_execute s = Inr (s\<lparr>sim_time := t, sim_running := None,
    ready_qs := (ready_qs s)[i := ready_qs s ! i @ [ready_and_decrease_priority_pcb pcb']]\<rparr>)"
  unfolding multi_execute_def assms(1) using assms(2-) by (simp add: Let_def append_to_queue_def)

lemma multi_execute_keep:
  assumes "sim_running s = Some pcb" and "run_pcb pcb = Inr pcb'"
    and "c_int (sim_time s + 1) = Inr t" and "\<not> is_pcb_finished pcb'"
    and "\<not> is_quantum_exhausted_by_pcb pcb'"
  shows "multi_execute s = Inr (s\<lparr>sim_time := t, sim_running := Some pcb'\<rparr>)"
  unfolding multi_execute_def assms(1) using assms(2-) by simp

lemma pcb_key_upd [simp]:
  "pcb_key (pcb\<lparr>pcb_process_state := x\<rparr>) = pcb_key pcb"
  "pcb_key (pcb\<lparr>pcb_burst_time := b\<rparr>) = pcb_key pcb"
  "pcb_key (pcb\<lparr>pcb_cpu_time := c\<rparr>) = pcb_key pcb"
  "pcb_key (pcb\<lparr>pcb_priority := p\<rparr>) = pcb_key pcb"
  by (simp_all add: pcb_key_def)

text \<open>A process that goes back to a queue.\<close>

lemma demoted_waiting:
  assumes "running_ok procs pcb"
    and "run_pcb pcb = Inr pcb'" and "\<not> is_pcb_finished pcb'"
  obtains i where "pcb_priority (ready_and_decrease_priority_pcb pcb') = int i + 1" and "i < 3"
    and "pcb_waiting (ready_and_decrease_priority_pcb pcb')"
proof -
  from assms have "pcb_waiting (ready_and_decrease_priority_pcb pcb')"
    by (auto simp: run_pcb_def running_ok_def pcb_running_def pcb_waiting_def is_pcb_finished_def
        ready_and_decrease_priority_pcb_def)
  moreover from assms have "\<exists>i < 3. pcb_priority (ready_and_decrease_priority_pcb pcb') = int i + 1"
    by (intro exI [of _ "nat (pcb_priority (ready_and_decrease_priority_pcb pcb') - 1)"])
      (auto simp: run_pcb_def running_ok_def ready_and_decrease_priority_pcb_def MIN_PRIORITY_def)
  ultimately show thesis using that by blast
qed

lemma ready_and_decrease_priority_upd [simp]:
  "represents procs sp (ready_and_decrease_priority_pcb pcb) = represents procs sp pcb"
  "pcb_left (ready_and_decrease_priority_pcb pcb) = pcb_left pcb"
  "pcb_key (ready_and_decrease_priority_pcb pcb) = pcb_key pcb"
  by (simp_all add: ready_and_decrease_priority_pcb_def)

lemma multi_inv_running:
  assumes "multi_inv m sps s" and "sim_running s = Some pcb"
  shows "running_ok (sim_procs s) pcb" and "multi_live s = pcb # concat (ready_qs s)"
    and "\<exists>sp \<in> set sps. represents (sim_procs s) sp pcb"
    and "c_int (sim_time s + 1) = Inr (sim_time s + 1)"
proof -
  show "running_ok (sim_procs s) pcb" using assms by (simp add: multi_inv_def)
  show live: "multi_live s = pcb # concat (ready_qs s)" using assms by (simp add: multi_live_def)
  show "\<exists>sp \<in> set sps. represents (sim_procs s) sp pcb" using assms by (simp add: multi_inv_def live)
  have "0 < multi_work sps s" using pcb_left_pos [of pcb] by (simp add: multi_work_def work_def live del: pcb_left_pos)
  with assms(1) show "c_int (sim_time s + 1) = Inr (sim_time s + 1)" by (rule multi_inv_time)
qed

lemma multi_inv_finish:
  assumes inv: "multi_inv m sps s" and Some: "sim_running s = Some pcb"
    and run: "run_pcb pcb = Inr pcb'" and fin: "is_pcb_finished pcb'"
  obtains s3 where "multi_execute s = Inr s3" and "multi_inv m sps s3"
proof -
  note R = multi_inv_running [OF inv Some]
  have mem: "mem_inv m (sim_procs s) (sim_segs s)" using inv by (simp add: multi_inv_def)
  have prun: "pcb_running pcb" using R(1) by (simp add: running_ok_def)
  have pcb': "pcb' = pcb\<lparr>pcb_burst_time := pcb_burst_time pcb + 1, pcb_cpu_time := pcb_cpu_time pcb + 1\<rparr>"
    using run run_pcb_ok [OF prun] by simp
  from R(3) obtain sp where "represents (sim_procs s) sp pcb'" by (auto simp: pcb')
  from terminate_pcb_ok [OF mem this] obtain procs segs where
    trm: "terminate_pcb pcb' (sim_procs s) (sim_segs s) =
      Inr (pcb'\<lparr>pcb_process_state := terminated\<rparr>, procs, segs)"
    and mem': "mem_inv m procs segs" and ext: "mem_ext (sim_procs s) procs"
    and procs: "procs = upd_at (pcb_process_memory pcb') (\<lambda>pm. if is_process_memory_in_disk pm
         then pm else set_in_disk pm) (sim_procs s)"
    by blast
  let ?done = "pcb'\<lparr>pcb_process_state := terminated\<rparr>"
  let ?s3 = "s\<lparr>sim_time := sim_time s + 1, sim_running := None, sim_procs := procs, sim_segs := segs,
    sim_terminated := sim_terminated s @ [?done]\<rparr>"
  note s3 = multi_execute_finish [OF Some run R(4) fin trm]
  have live3: "multi_live ?s3 = concat (ready_qs s)" by (simp add: multi_live_def)
  have "pcb_done ?done" using pcb_running_run(2) [OF prun] fin by (simp add: pcb_done_def pcb')
  moreover have "\<forall>p \<in> set (multi_live ?s3). \<exists>sp \<in> set sps. represents procs sp p"
    using inv represents_ext [OF _ ext] unfolding live3 multi_inv_def R(2) by auto blast
  moreover have "pcb_key ?done = pcb_key pcb" by (simp add: pcb')
  moreover have "pcb_left pcb = 1" using pcb_running_run(3) [OF prun] fin by (simp add: pcb')
  moreover have "fst ` set (resident procs) \<subseteq> pcb_process_memory ` set (multi_live ?s3)"
  proof -
    have "fst ` set (resident (sim_procs s)) \<subseteq>
        insert (pcb_process_memory pcb) (pcb_process_memory ` set (concat (ready_qs s)))"
      using inv unfolding multi_inv_def R(2) list.set image_insert by blast
    moreover have "fst ` set (resident procs) \<subseteq> fst ` set (resident (sim_procs s)) - {pcb_process_memory pcb}"
      using resident_terminated [of "pcb_process_memory pcb'" "sim_procs s"] unfolding procs by (simp add: pcb')
    ultimately show ?thesis unfolding live3 by blast
  qed
  ultimately have "multi_inv m sps ?s3"
    using inv mem' multi_execute_work [OF s3, of sps] Some
    unfolding multi_inv_def R(2) live3 by (auto simp: add.assoc)
  with s3 show thesis by (rule that)
qed

lemma multi_inv_demote:
  assumes inv: "multi_inv m sps s" and Some: "sim_running s = Some pcb"
    and run: "run_pcb pcb = Inr pcb'" and unfin: "\<not> is_pcb_finished pcb'"
    and q: "is_quantum_exhausted_by_pcb pcb'"
  obtains s3 where "multi_execute s = Inr s3" and "multi_inv m sps s3"
proof -
  note R = multi_inv_running [OF inv Some]
  have prun: "pcb_running pcb" using R(1) by (simp add: running_ok_def)
  have pcb': "pcb' = pcb\<lparr>pcb_burst_time := pcb_burst_time pcb + 1, pcb_cpu_time := pcb_cpu_time pcb + 1\<rparr>"
    using run run_pcb_ok [OF prun] by simp
  let ?pcb = "ready_and_decrease_priority_pcb pcb'"
  have qok: "queues_ok (ready_qs s)" using inv by (simp add: multi_inv_def)
  from demoted_waiting [OF R(1) run unfin] obtain i where i: "pcb_priority ?pcb = int i + 1" "i < 3"
    and wait: "pcb_waiting ?pcb" .
  then have ilen: "i < length (ready_qs s)" using queues_okD(1) [OF qok] by simp
  let ?qs = "(ready_qs s)[i := ready_qs s ! i @ [?pcb]]"
  let ?s3 = "s\<lparr>sim_time := sim_time s + 1, sim_running := None, ready_qs := ?qs\<rparr>"
  note s3 = multi_execute_demote [OF Some run R(4) unfin q i(1) ilen]
  have live3: "mset (multi_live ?s3) = add_mset ?pcb (mset (concat (ready_qs s)))"
    using mset_concat_update [OF ilen] by (simp add: multi_live_def)
  have set3: "set (multi_live ?s3) = insert ?pcb (set (concat (ready_qs s)))"
    using arg_cong [OF live3, of set_mset] by simp
  have sum3: "sum_list (map pcb_left (multi_live ?s3)) = pcb_left pcb' + sum_list (map pcb_left (concat (ready_qs s)))"
    using sum_concat_update [OF ilen, of pcb_left] by (simp add: multi_live_def)
  have "queues_ok ?qs" by (rule queues_ok_append [OF qok wait i])
  moreover have "\<forall>p \<in> set (multi_live ?s3). \<exists>sp \<in> set sps. represents (sim_procs s) sp p"
    using inv unfolding set3 multi_inv_def R(2) by (auto simp: pcb')
  moreover have "image_mset pcb_key (mset (sim_terminated s @ multi_live ?s3))
      = image_mset pcb_key (mset (sim_terminated s @ multi_live s))"
    unfolding mset_append live3 R(2) by (simp add: pcb')
  moreover have "pcb_left pcb = Suc (pcb_left pcb')" using run unfin by (rule pcb_left_run)
  moreover have "fst ` set (resident (sim_procs s)) \<subseteq> pcb_process_memory ` set (multi_live ?s3)"
    using inv unfolding multi_inv_def R(2) set3 by (auto simp: pcb' ready_and_decrease_priority_pcb_def)
  ultimately have "multi_inv m sps ?s3"
    using inv multi_execute_work [OF s3, of sps] Some
    unfolding multi_inv_def sum3 by (auto simp: add.assoc R(2))
  with s3 show thesis by (rule that)
qed

lemma multi_inv_keep:
  assumes inv: "multi_inv m sps s" and Some: "sim_running s = Some pcb"
    and run: "run_pcb pcb = Inr pcb'" and unfin: "\<not> is_pcb_finished pcb'"
    and q: "\<not> is_quantum_exhausted_by_pcb pcb'"
  obtains s3 where "multi_execute s = Inr s3" and "multi_inv m sps s3"
proof -
  note R = multi_inv_running [OF inv Some]
  have prun: "pcb_running pcb" using R(1) by (simp add: running_ok_def)
  have pcb': "pcb' = pcb\<lparr>pcb_burst_time := pcb_burst_time pcb + 1, pcb_cpu_time := pcb_cpu_time pcb + 1\<rparr>"
    using run run_pcb_ok [OF prun] by simp
  let ?s3 = "s\<lparr>sim_time := sim_time s + 1, sim_running := Some pcb'\<rparr>"
  note s3 = multi_execute_keep [OF Some run R(4) unfin q]
  have live3: "multi_live ?s3 = pcb' # concat (ready_qs s)" by (simp add: multi_live_def)
  have "running_ok (sim_procs s) pcb'"
    using R(1) q pcb_running_run(1) [OF prun] unfin
    by (simp add: running_ok_def is_quantum_exhausted_by_pcb_def get_quantum_by_pcb_def pcb')
  moreover have "\<forall>p \<in> set (multi_live ?s3). \<exists>sp \<in> set sps. represents (sim_procs s) sp p"
    using inv unfolding live3 multi_inv_def R(2) by (auto simp: pcb')
  moreover have "pcb_key pcb' = pcb_key pcb" by (simp add: pcb')
  moreover have "pcb_left pcb = Suc (pcb_left pcb')" using run unfin by (rule pcb_left_run)
  moreover have "fst ` set (resident (sim_procs s)) \<subseteq> pcb_process_memory ` set (multi_live ?s3)"
    using inv unfolding multi_inv_def R(2) live3 by (auto simp: pcb')
  ultimately have "multi_inv m sps ?s3"
    using inv multi_execute_work [OF s3, of sps] Some
    unfolding multi_inv_def live3 R(2) by (auto simp: add.assoc)
  with s3 show thesis by (rule that)
qed

lemma multi_inv_execute:
  assumes inv: "multi_inv m sps s" and Some: "sim_running s = Some pcb"
  obtains s3 where "multi_execute s = Inr s3" and "multi_inv m sps s3"
proof -
  have "pcb_running pcb" using multi_inv_running(1) [OF inv Some] by (simp add: running_ok_def)
  from run_pcb_ok [OF this] obtain pcb' where run: "run_pcb pcb = Inr pcb'" by blast
  show thesis
    using multi_inv_finish [OF inv Some run] multi_inv_demote [OF inv Some run]
      multi_inv_keep [OF inv Some run] that by metis
qed

lemma multi_inv_step:
  assumes inv: "multi_inv m sps s"
  obtains (continue) s' where "multi_step sps m s = Inr (Continue s')" and "multi_inv m sps s'"
  | (break) s' where "multi_step sps m s = Inr (Break s')" and "multi_inv m sps s'"
      and "multi_live s' = []" and "sim_spi s' = length sps"
proof -
  from multi_inv_arrive [OF inv] obtain s1 where
    s1: "multi_arrive sps s = Inr s1" and inv1: "multi_inv m sps s1" .
  note wait = multi_arrive_work(2) [OF s1]
  show thesis
  proof (cases rule: multi_inv_dispatch [OF inv1, case_names run idle stop])
    case (run s2)
    from run(3) obtain pcb where "sim_running s2 = Some pcb" by blast
    from multi_inv_execute [OF run(2) this] obtain s3 where
      "multi_execute s2 = Inr s3" and "multi_inv m sps s3" .
    with s1 run(1) show thesis by (intro continue [of s3]) (simp_all add: multi_step_def)
  next
    case idle
    from multi_inv_idle [OF inv1 idle(2-4) wait [OF idle(4)]] obtain s3 where
      "multi_execute s1 = Inr s3" and "multi_inv m sps s3" .
    with s1 idle(1) show thesis by (intro continue [of s3]) (simp_all add: multi_step_def)
  next
    case stop
    with s1 inv1 show thesis by (intro break [of s1]) (simp_all add: multi_step_def)
  qed
qed

lemma multi_inv_init:
  assumes "valid_input m sps"
  shows "multi_inv m sps (multi_init m)"
proof -
  have live: "multi_live (multi_init m) = []"
    by (simp add: multi_live_def multi_init_def new_pcbs_queue_def MIN_PRIORITY_def concat_replicate_trivial)
  have "int (multi_work sps (multi_init m)) \<le> INT_MAX"
    using assms latest_nonneg [of sps] unfolding multi_work_def work_def live
    by (simp add: multi_init_def valid_input_def)
  moreover have "mem_inv m (sim_procs (multi_init m)) (sim_segs (multi_init m))"
    using mem_inv_new [of m] assms by (simp add: multi_init_def valid_input_def)
  ultimately show ?thesis
    using assms unfolding multi_inv_def live
    by (simp add: multi_init_def new_pcbs_list_def new_pcbs_queue_def queues_ok_def MIN_PRIORITY_def
        new_process_memories_list_def resident_def)
qed

section \<open>The run\<close>

definition multi_final :: "int \<Rightarrow> scheduled_process_t list \<Rightarrow> multi_state \<Rightarrow> bool" where
  "multi_final m sps s \<longleftrightarrow> multi_inv m sps s \<and> multi_live s = [] \<and> sim_spi s = length sps"

interpretation multi: sim_loop "multi_step sps m" "multi_loop sps m" "multi_inv m sps" "multi_work sps"
  "multi_final m sps" for sps m
proof
  fix s s'
  show "multi_loop sps m s = res_bind (multi_step sps m s)
      (\<lambda>c. case c of Break s' \<Rightarrow> Inr s' | Continue s' \<Rightarrow> multi_loop sps m s')"
    by (rule multi_loop.simps)
  assume inv: "multi_inv m sps s"
  from inv show "\<exists>c. multi_step sps m s = Inr c"
    by (cases rule: multi_inv_step) auto
  from inv show "multi_inv m sps s' \<and> multi_work sps s' < multi_work sps s"
    if "multi_step sps m s = Inr (Continue s')"
    using that multi_step_work [OF that] by (cases rule: multi_inv_step) auto
  from inv show "multi_final m sps s'" if "multi_step sps m s = Inr (Break s')"
    using that by (cases rule: multi_inv_step) (auto simp: multi_final_def)
qed

lemma multi_final_facts:
  assumes "multi_final m sps s"
  shows "sim_time s = end_time 0 sps"
    and "image_mset pcb_key (mset (sim_terminated s)) = image_mset sp_key (mset sps)"
    and "\<forall>pcb \<in> set (sim_terminated s). pcb_done pcb"
    and "\<forall>line \<in> set (sim_out s). line_ok line"
    and "sim_segs s = new_free_memory_segments_list m"
proof -
  from assms have inv: "multi_inv m sps s" and live: "multi_live s = []" and "sim_spi s = length sps"
    by (auto simp: multi_final_def)
  then show "sim_time s = end_time 0 sps"
    and "image_mset pcb_key (mset (sim_terminated s)) = image_mset sp_key (mset sps)"
    and "\<forall>pcb \<in> set (sim_terminated s). pcb_done pcb"
    and "\<forall>line \<in> set (sim_out s). line_ok line"
    by (auto simp: multi_inv_def)
  have mem: "mem_inv m (sim_procs s) (sim_segs s)" "resident (sim_procs s) = []" "0 < m"
    using inv live by (auto simp: multi_inv_def valid_input_def)
  then show "sim_segs s = new_free_memory_segments_list m"
    using used_cells_no_resident by (auto simp: mem_inv_def intro: holes_wf_all_free)
qed

lemma multi_loop_total:
  assumes "valid_input m sps"
  obtains s where "multi_loop sps m (multi_init m) = Inr s" and "multi_final m sps s"
  using multi.run_total [OF multi_inv_init [OF assms]] by blast

section \<open>Properties of the runner\<close>

text \<open>C2: On valid input the multi-level feedback queue loop ends without an error; every
  process of the file is terminated then, has run for exactly its job time (one step at
  least), and all of main memory is one hole again.\<close>

theorem multi_loop_completes:
  assumes "valid_input m sps"
  shows "\<exists>s. multi_loop sps m (multi_init m) = Inr s \<and>
    image_mset (\<lambda>pcb. (pcb_process_id pcb, pcb_cpu_time pcb)) (mset (sim_terminated s)) =
      image_mset (\<lambda>sp. (sp_process_id sp, max 1 (sp_job_time sp))) (mset sps) \<and>
    sim_segs s = new_free_memory_segments_list m"
proof -
  from multi_loop_total [OF assms] obtain s where s: "multi_loop sps m (multi_init m) = Inr s"
    and final: "multi_final m sps s" .
  note facts = multi_final_facts [OF final]
  let ?f = "\<lambda>(pid, job). (pid, max 1 job)"
  have "image_mset (\<lambda>pcb. (pcb_process_id pcb, pcb_cpu_time pcb)) (mset (sim_terminated s)) =
      image_mset ?f (image_mset pcb_key (mset (sim_terminated s)))"
    using facts(3) by (auto simp: pcb_key_def pcb_done_def image_mset.compositionality comp_def
        intro!: image_mset_cong)
  also have "\<dots> = image_mset (\<lambda>sp. (sp_process_id sp, max 1 (sp_job_time sp))) (mset sps)"
    unfolding facts(2) by (simp add: sp_key_def image_mset.compositionality comp_def)
  finally show ?thesis using s facts(5) by blast
qed

theorem multi_loop_completes_witness:
  "\<exists>s. multi_loop demo_sps 100 (multi_init 100) = Inr s \<and>
    image_mset (\<lambda>pcb. (pcb_process_id pcb, pcb_cpu_time pcb)) (mset (sim_terminated s)) =
      image_mset (\<lambda>sp. (sp_process_id sp, max 1 (sp_job_time sp))) (mset demo_sps) \<and>
    sim_segs s = new_free_memory_segments_list 100"
  by (rule multi_loop_completes [OF demo_sps_valid])

text \<open>C9: In every round of the multi-level feedback queue runner on valid input: the process
  memories and the holes tile main memory, a queue holds ready processes of its own priority
  only, and the running process is in main memory and has neither used up its quantum nor
  finished.\<close>

theorem multi_round_invariant:
  assumes "valid_input m sps" and "sim_loop.rounds (multi_step sps m) (multi_init m) s"
  shows "mem_inv m (sim_procs s) (sim_segs s) \<and> length (ready_qs s) = 3 \<and>
    (\<forall>i < 3. \<forall>pcb \<in> set (ready_qs s ! i). pcb_priority pcb = int i + 1 \<and> pcb_process_state pcb = ready) \<and>
    (\<forall>pcb. sim_running s = Some pcb \<longrightarrow> pcb_process_state pcb = running \<and>
       in_memory (sim_procs s) pcb \<and> pcb_burst_time pcb < get_quantum_by_pcb pcb \<and>
       pcb_cpu_time pcb < max 1 (pcb_job_time pcb))"
proof -
  have "multi_inv m sps s"
    using multi.rounds_inv [OF assms(2) multi_inv_init [OF assms(1)]] .
  then show ?thesis
    by (auto simp: multi_inv_def queues_ok_def pcb_waiting_def running_ok_def pcb_running_def)
qed

theorem multi_round_invariant_witness:
  "mem_inv 100 (sim_procs (multi_init 100)) (sim_segs (multi_init 100)) \<and>
    length (ready_qs (multi_init 100)) = 3"
proof -
  have "sim_loop.rounds (multi_step demo_sps 100) (multi_init 100) (multi_init 100)"
    by (rule multi.rounds.start)
  from multi_round_invariant [OF demo_sps_valid this] show ?thesis by blast
qed

text \<open>C12: When no process is running, the process that is dispatched is the head of the first
  queue that is not empty, and it is removed from there; the loop is left exactly when the
  queues are empty and no process of the file is to come.\<close>

theorem multi_dispatch_highest_priority:
  assumes "sim_running s = None" and "multi_dispatch sps m s = Inr c"
  shows "(case c of
      Break s' \<Rightarrow> concat (ready_qs s) = [] \<and> sim_spi s = length sps \<and> s' = s
    | Continue s' \<Rightarrow>
        (case sim_running s' of
           None \<Rightarrow> concat (ready_qs s) = [] \<and> sim_spi s < length sps
         | Some pcb' \<Rightarrow> \<exists>i pcb q. i < length (ready_qs s) \<and> (\<forall>j < i. ready_qs s ! j = []) \<and>
             ready_qs s ! i = pcb # q \<and> ready_qs s' = (ready_qs s)[i := q] \<and>
             pcb' = pcb\<lparr>pcb_process_state := running, pcb_burst_time := 0\<rparr>))"
proof -
  obtain r qs where pop: "pop_first_ready (ready_qs s) = (r, qs)" by fastforce
  show ?thesis
  proof (cases r)
    case None
    note pop = pop [unfolded None]
    from assms show ?thesis
      using pop_first_ready_None [OF pop]
      by (auto simp: multi_dispatch_def pop scheduled_at_def split: if_splits)
  next
    case (Some pcb)
    note pop = pop [unfolded Some]
    from assms obtain s' where c: "c = Continue s'" and qs: "ready_qs s' = qs"
      and run: "sim_running s' = Some (pcb\<lparr>pcb_process_state := running, pcb_burst_time := 0\<rparr>)"
      by (auto simp: multi_dispatch_def pop load_pcb_def split: option.splits prod.splits if_splits)
    from pop_first_ready_priority [OF pop] show ?thesis by (simp add: c run qs) blast
  qed
qed

theorem multi_dispatch_highest_priority_witness:
  "case projr (multi_dispatch [] 100 (multi_init 100)) of
      Break s' \<Rightarrow> concat (ready_qs (multi_init 100)) = [] \<and> sim_spi (multi_init 100) = length ([] :: scheduled_process_t list)
        \<and> s' = multi_init 100
    | Continue s' \<Rightarrow> False"
proof -
  have none: "sim_running (multi_init 100) = None" by (simp add: multi_init_def)
  have disp: "multi_dispatch [] 100 (multi_init 100) = Inr (Break (multi_init 100))"
    by (simp add: multi_dispatch_def multi_init_def MIN_PRIORITY_def numeral_3_eq_3 new_pcbs_queue_def
        pop_front_pcb_from_pcbs_queue_def scheduled_at_def)
  from multi_dispatch_highest_priority [OF none disp] show ?thesis unfolding disp by simp
qed

text \<open>The multi-level feedback queue runner on a file whose processes fit into main memory
  prints status lines with sensible figures only (at least one process and at most one hole
  more than processes, between 1 and 100 percent of memory in use), and ends with the line
  that gives the end of the work of the file.\<close>

theorem multi_scheduler_runner_output:
  assumes "parse_process_data_file fp = Inr sps" and "valid_input m sps"
  shows "\<exists>lines. multi_scheduler_runner (Some fp) m = Inr (lines @ [Finished (end_time 0 sps)]) \<and>
    (\<forall>line \<in> set lines. line_ok line)"
proof -
  from multi_loop_total [OF assms(2)] obtain s where "multi_loop sps m (multi_init m) = Inr s"
    and final: "multi_final m sps s" .
  with multi_final_facts(1,4) [OF final] assms(1) show ?thesis
    by (intro exI [of _ "sim_out s"]) (simp add: multi_scheduler_runner_def)
qed

theorem multi_scheduler_runner_output_witness:
  "\<exists>lines. multi_scheduler_runner (Some (render_file demo_sps)) 100 =
     Inr (lines @ [Finished (end_time 0 demo_sps)]) \<and> (\<forall>line \<in> set lines. line_ok line)"
  by (rule multi_scheduler_runner_output [OF demo_sps_parsed demo_sps_valid])

end
