(* ===== verification/Scheduler_Compare.thy ===== *)
theory Scheduler_Compare
  imports Fcfs Multi
begin

text \<open>
  The two runners of \<open>project1/process-scheduler.c\<close> compared: when no process needs more
  than the quantum of the first queue, the multi-level feedback queue runner does what the
  first come first serve runner does, round by round, errors included.
\<close>

text \<open>The state of the one runner as a state of the other.\<close>

definition to_multi :: "fcfs_state \<Rightarrow> multi_state" where
  "to_multi f = \<lparr>sim_time = sim_time f, sim_running = sim_running f, sim_terminated = sim_terminated f,
     sim_spi = sim_spi f, sim_procs = sim_procs f, sim_segs = sim_segs f, sim_out = sim_out f,
     ready_qs = [ready_queue f, [], []]\<rparr>"

definition short_ready :: "process_control_block_t \<Rightarrow> bool" where
  "short_ready pcb \<longleftrightarrow> pcb_priority pcb = 1 \<and> pcb_job_time pcb \<le> Q1_QUANTUM \<and> pcb_cpu_time pcb = 0"

definition short_running :: "process_control_block_t \<Rightarrow> bool" where
  "short_running pcb \<longleftrightarrow> pcb_priority pcb = 1 \<and> pcb_job_time pcb \<le> Q1_QUANTUM \<and>
     pcb_burst_time pcb = pcb_cpu_time pcb"

definition short_state :: "fcfs_state \<Rightarrow> bool" where
  "short_state f \<longleftrightarrow> (\<forall>pcb \<in> set (ready_queue f). short_ready pcb) \<and>
     (\<forall>pcb. sim_running f = Some pcb \<longrightarrow> short_running pcb)"

lemma to_multi_simps [simp]:
  "sim_time (to_multi f) = sim_time f" "sim_running (to_multi f) = sim_running f"
  "sim_terminated (to_multi f) = sim_terminated f" "sim_spi (to_multi f) = sim_spi f"
  "sim_procs (to_multi f) = sim_procs f" "sim_segs (to_multi f) = sim_segs f"
  "sim_out (to_multi f) = sim_out f" "ready_qs (to_multi f) = [ready_queue f, [], []]"
  by (simp_all add: to_multi_def)

lemma arrivals_short:
  assumes "arrivals sps procs = (pcbs, procs')" and "\<forall>sp \<in> set sps. sp_job_time sp \<le> Q1_QUANTUM"
    and "pcb \<in> set pcbs"
  shows "short_ready pcb"
  using assms
proof (induction sps arbitrary: procs pcbs)
  case Nil
  then show ?case by simp
next
  case (Cons sp sps)
  then show ?case
    by (auto simp: new_process_control_block_by_scheduled_process_def new_process_control_block_def
        Let_def short_ready_def split: prod.splits)
qed

lemma arrive_compare:
  "multi_arrive sps (to_multi f) = map_sum id to_multi (fcfs_arrive sps f)"
proof (cases "check_scheduled_processes sps (sim_spi f) (sim_time f) (ready_queue f) (sim_procs f)")
  case (Inl e)
  then show ?thesis by (simp add: multi_arrive_def fcfs_arrive_def)
next
  case (Inr r)
  obtain spi q procs where "r = (spi, q, procs)" using prod_cases3 by blast
  with Inr show ?thesis by (simp add: multi_arrive_def fcfs_arrive_def to_multi_def)
qed

lemma arrive_short:
  assumes "fcfs_arrive sps f = Inr f'" and "short_state f" and "\<forall>sp \<in> set sps. sp_job_time sp \<le> Q1_QUANTUM"
  shows "short_state f'"
  using assms(1)
proof (cases rule: fcfs_arrive_cases)
  case (1 pcbs procs)
  have "\<forall>sp \<in> set (due sps (sim_spi f) (sim_time f)). sp_job_time sp \<le> Q1_QUANTUM"
    using assms(3) set_due_subset by blast
  with arrivals_short [OF 1(2)] assms(2) show ?thesis by (auto simp: 1(3) short_state_def)
qed

lemma dispatch_compare:
  "multi_dispatch sps m (to_multi f) = map_sum id (map_control to_multi) (fcfs_dispatch sps m f)"
proof (cases "sim_running f")
  case (Some pcb)
  then show ?thesis by (simp add: multi_dispatch_def fcfs_dispatch_def)
next
  case None
  show ?thesis
  proof (cases "ready_queue f")
    case Nil
    then have "f\<lparr>ready_queue := []\<rparr> = f" by simp
    with None Nil show ?thesis
      by (auto simp: multi_dispatch_def fcfs_dispatch_def pop_front_pcb_from_pcbs_queue_def
          res_bind_def to_multi_def split: sum.split)
  next
    case (Cons pcb q)
    show ?thesis
    proof (cases "load_pcb pcb (sim_time f) (sim_procs f) (sim_segs f)")
      case (Inl e)
      with None Cons show ?thesis
        by (simp add: multi_dispatch_def fcfs_dispatch_def pop_front_pcb_from_pcbs_queue_def)
    next
      case (Inr r)
      obtain pcb' procs segs where "r = (pcb', procs, segs)" using prod_cases3 by blast
      with Inr None Cons show ?thesis
        by (cases "print_simulation_status (sim_time f) pcb' procs segs m")
          (simp_all add: multi_dispatch_def fcfs_dispatch_def pop_front_pcb_from_pcbs_queue_def to_multi_def)
    qed
  qed
qed

lemma dispatch_short:
  assumes "fcfs_dispatch sps m f = Inr (Continue f')" and "short_state f"
  shows "short_state f'"
  using assms
  by (auto simp: fcfs_dispatch_def short_state_def pop_front_pcb_from_pcbs_queue_def load_pcb_def
      short_ready_def short_running_def split: option.splits list.splits prod.splits if_splits)

lemma run_short:
  assumes "run_pcb pcb = Inr pcb'" and "short_running pcb"
  shows "short_running pcb'" and "\<not> is_pcb_finished pcb' \<Longrightarrow> \<not> is_quantum_exhausted_by_pcb pcb'"
  using assms
  by (auto simp: run_pcb_def short_running_def is_pcb_finished_def is_quantum_exhausted_by_pcb_def
      get_quantum_by_pcb_def)

lemma execute_compare:
  assumes "short_state f"
  shows "multi_execute (to_multi f) = map_sum id to_multi (fcfs_execute f)"
proof (cases "sim_running f")
  case None
  then show ?thesis by (auto simp: multi_execute_def fcfs_execute_def to_multi_def c_int_def)
next
  case (Some pcb)
  then have short: "short_running pcb" using assms by (simp add: short_state_def)
  show ?thesis
  proof (cases "run_pcb pcb")
    case (Inl e)
    with Some show ?thesis by (simp add: multi_execute_def fcfs_execute_def)
  next
    case (Inr pcb')
    note q = run_short(2) [OF Inr short]
    show ?thesis
    proof (cases "terminate_pcb pcb' (sim_procs f) (sim_segs f)")
      case (Inl e)
      with Some Inr q show ?thesis
        by (auto simp: multi_execute_def fcfs_execute_def to_multi_def c_int_def)
    next
      case r: (Inr r)
      obtain pcb'' procs segs where "r = (pcb'', procs, segs)" using prod_cases3 by blast
      with r Some Inr q show ?thesis
        by (auto simp: multi_execute_def fcfs_execute_def to_multi_def c_int_def)
    qed
  qed
qed

lemma execute_short:
  assumes "fcfs_execute f = Inr f'" and "short_state f"
  shows "short_state f'"
proof (cases "sim_running f")
  case None
  with assms show ?thesis by (auto simp: fcfs_execute_def short_state_def)
next
  case (Some pcb)
  then have short: "short_running pcb" using assms(2) by (simp add: short_state_def)
  from assms(1) Some obtain pcb' where run: "run_pcb pcb = Inr pcb'" by (auto simp: fcfs_execute_def)
  from run_short(1) [OF run short] assms Some run show ?thesis
    by (auto simp: fcfs_execute_def short_state_def split: if_splits prod.splits)
qed

lemma step_compare:
  assumes "short_state f" and "\<forall>sp \<in> set sps. sp_job_time sp \<le> Q1_QUANTUM"
  shows "multi_step sps m (to_multi f) = map_sum id (map_control to_multi) (fcfs_step sps m f)"
    and "fcfs_step sps m f = Inr (Continue f') \<Longrightarrow> short_state f'"
proof -
  show "multi_step sps m (to_multi f) = map_sum id (map_control to_multi) (fcfs_step sps m f)"
  proof (cases "fcfs_arrive sps f")
    case (Inl e)
    then show ?thesis by (simp add: multi_step_def fcfs_step_def arrive_compare)
  next
    case f1: (Inr f1)
    note short1 = arrive_short [OF f1 assms]
    show ?thesis
    proof (cases "fcfs_dispatch sps m f1")
      case (Inl e)
      with f1 show ?thesis by (simp add: multi_step_def fcfs_step_def arrive_compare dispatch_compare)
    next
      case c: (Inr c)
      show ?thesis
      proof (cases c)
        case (Break f2)
        with f1 c show ?thesis
          by (simp add: multi_step_def fcfs_step_def arrive_compare dispatch_compare)
      next
        case (Continue f2)
        have "short_state f2" using dispatch_short [OF c [unfolded Continue] short1] .
        from execute_compare [OF this] f1 c Continue show ?thesis
          by (cases "fcfs_execute f2")
            (simp_all add: multi_step_def fcfs_step_def arrive_compare dispatch_compare)
      qed
    qed
  qed
  assume "fcfs_step sps m f = Inr (Continue f')"
  then obtain f1 f2 where "fcfs_arrive sps f = Inr f1" "fcfs_dispatch sps m f1 = Inr (Continue f2)"
    "fcfs_execute f2 = Inr f'"
    by (auto simp: fcfs_step_def split: control.splits)
  with assms show "short_state f'" by (meson arrive_short dispatch_short execute_short)
qed

lemma loop_compare:
  assumes "\<forall>sp \<in> set sps. sp_job_time sp \<le> Q1_QUANTUM"
  shows "short_state f \<Longrightarrow> multi_loop sps m (to_multi f) = map_sum id to_multi (fcfs_loop sps m f)"
proof (induction "fcfs_work sps f" arbitrary: f rule: less_induct)
  case less
  note step = step_compare(1) [OF less.prems assms, of m]
  show ?case
  proof (cases "fcfs_step sps m f")
    case (Inl e)
    with step show ?thesis
      by (simp add: multi_loop.simps [of sps m "to_multi f"] fcfs_loop.simps [of sps m f])
  next
    case (Inr c)
    show ?thesis
    proof (cases c)
      case (Break f')
      with Inr step show ?thesis
        by (simp add: multi_loop.simps [of sps m "to_multi f"] fcfs_loop.simps [of sps m f])
    next
      case (Continue f')
      note f' = Inr [unfolded Continue]
      from less.hyps [OF fcfs_step_work [OF f'] step_compare(2) [OF less.prems assms f']] f' step
      show ?thesis
        by (simp add: multi_loop.simps [of sps m "to_multi f"] fcfs_loop.simps [of sps m f])
    qed
  qed
qed

lemma init_compare: "multi_init m = to_multi (fcfs_init m)" "short_state (fcfs_init m)"
  by (simp_all add: multi_init_def fcfs_init_def to_multi_def MIN_PRIORITY_def new_pcbs_queue_def
      short_state_def numeral_3_eq_3)

text \<open>C16: When no process needs more than the quantum of the first queue, the two runners give
  the same result on a file: the same output, or the same error.\<close>

theorem short_jobs_same_schedule:
  assumes "parse_process_data_file fp = Inr sps" and "\<forall>sp \<in> set sps. sp_job_time sp \<le> Q1_QUANTUM"
  shows "multi_scheduler_runner (Some fp) m = fcfs_scheduler_runner (Some fp) m"
  using loop_compare [OF assms(2) init_compare(2), of m]
  by (cases "fcfs_loop sps m (fcfs_init m)")
    (simp_all add: multi_scheduler_runner_def fcfs_scheduler_runner_def assms(1) init_compare(1))

theorem short_jobs_same_schedule_witness:
  "multi_scheduler_runner (Some (render_file
      [new_scheduled_process 0 1 40 2, new_scheduled_process 1 2 60 1])) 50 =
   fcfs_scheduler_runner (Some (render_file
      [new_scheduled_process 0 1 40 2, new_scheduled_process 1 2 60 1])) 50"
proof (rule short_jobs_same_schedule)
  let ?sps = "[new_scheduled_process 0 1 40 2, new_scheduled_process 1 2 60 1]"
  have "\<forall>sp \<in> set ?sps. int_process sp"
    by (simp add: new_scheduled_process_def int_process_def int_range_def INT_MAX_def INT_MIN_def)
  then show "parse_process_data_file (render_file ?sps) = Inr ?sps"
    by (simp only: parse_process_data_file_collect file_lines_render collect_render)
  show "\<forall>sp \<in> set ?sps. sp_job_time sp \<le> Q1_QUANTUM"
    by (simp add: new_scheduled_process_def Q1_QUANTUM_def)
qed

text \<open>On valid input both runners end the simulation at the same time: neither idles
  while there is work, so the last line of both is the end of the work of the file.\<close>

theorem same_finish_time:
  assumes "valid_input m sps"
  shows "\<exists>f s. fcfs_loop sps m (fcfs_init m) = Inr f \<and> multi_loop sps m (multi_init m) = Inr s \<and>
    sim_time f = end_time 0 sps \<and> sim_time s = end_time 0 sps"
proof -
  from fcfs_loop_total [OF assms] obtain f where f: "fcfs_loop sps m (fcfs_init m) = Inr f"
    and final: "fcfs_final m sps f" .
  have "last (fcfs_schedule m t ps) = Finished (end_time t ps)" and "fcfs_schedule m t ps \<noteq> []" for t ps
  proof -
    show ne: "fcfs_schedule m t ps \<noteq> []" for t ps by (cases ps) (simp_all add: Let_def)
    show "last (fcfs_schedule m t ps) = Finished (end_time t ps)"
      by (induction ps arbitrary: t) (simp_all add: Let_def ne)
  qed
  then have "sim_time f = end_time 0 sps"
    using arg_cong [OF fcfs_final_out(1) [OF final], of last] by simp
  moreover from multi_loop_total [OF assms] obtain s where "multi_loop sps m (multi_init m) = Inr s"
    and "multi_final m sps s" .
  ultimately show ?thesis using f multi_final_facts(1) by blast
qed

theorem same_finish_time_witness:
  "\<exists>f s. fcfs_loop demo_sps 100 (fcfs_init 100) = Inr f \<and> multi_loop demo_sps 100 (multi_init 100) = Inr s \<and>
    sim_time f = end_time 0 demo_sps \<and> sim_time s = end_time 0 demo_sps"
  by (rule same_finish_time [OF demo_sps_valid])

end
