(* ===== verification/Simulation.thy ===== *)
theory Simulation
  imports Fcfs Multi
begin

text \<open>
  The program \<open>simulation\<close> (\<open>project1/simulation.c\<close>): the options of the command line and
  the choice of the runner, and what the runners write as text. The options are the pairs
  of option character and argument that \<open>getopt\<close> gives one after the other; the file
  system is a parameter that gives the contents of a file that \<open>fopen\<close> can open.
\<close>

section \<open>What is printed\<close>

definition print_out_line :: "out_line \<Rightarrow> string" where
  "print_out_line line =
     (case line of
        Status time pid numprocesses numholes memusage \<Rightarrow>
          ''time '' @ show_int time @ '', '' @ show_int pid @ '' running, numprocesses='' @
          show_int numprocesses @ '', numholes='' @ show_int numholes @ '', memusage='' @
          show_int memusage @ ''%'' @ [newline]
      | Finished time \<Rightarrow>
          ''time '' @ show_int time @ '', simulation finished.'' @ [newline])"

definition print_out :: "out_line list \<Rightarrow> string" where
  "print_out lines = concat (map print_out_line lines)"

section \<open>The main function\<close>

definition FCFS_ALGORITHM :: int where "FCFS_ALGORITHM = 0"
definition MULTI_ALGORITHM :: int where "MULTI_ALGORITHM = 1"

text \<open>The local variables; \<open>None\<close> is uninitialised.\<close>

record main_vars =
  filename_var :: "string option"
  algorithm_var :: "int option"
  memsize_var :: "int option"

definition main_option :: "char \<times> string \<Rightarrow> main_vars \<Rightarrow> main_vars res" where
  "main_option opt vars =
     (case opt of (input, optarg) \<Rightarrow>
        if input = CHR ''f'' then Inr (vars\<lparr>filename_var := Some optarg\<rparr>)
        else if input = CHR ''a'' then
          (if optarg = ''fcfs'' then Inr (vars\<lparr>algorithm_var := Some FCFS_ALGORITHM\<rparr>)
           else if optarg = ''multi'' then Inr (vars\<lparr>algorithm_var := Some MULTI_ALGORITHM\<rparr>)
           else Inl (Exit 1))
        else if input = CHR ''m'' then
          res_bind (atoi optarg) (\<lambda>memsize. Inr (vars\<lparr>memsize_var := Some memsize\<rparr>))
        else Inl (Exit 1))"

fun main_options :: "(char \<times> string) list \<Rightarrow> main_vars \<Rightarrow> main_vars res" where
  "main_options [] vars = Inr vars"
| "main_options (opt # opts) vars = res_bind (main_option opt vars) (main_options opts)"

definition read_var :: "'a option \<Rightarrow> 'a res" where
  "read_var v = (case v of None \<Rightarrow> Inl UninitRead | Some x \<Rightarrow> Inr x)"

text \<open>The text on the standard output when \<open>main\<close> returns 0.\<close>

definition simulation_main ::
  "(string \<Rightarrow> string option) \<Rightarrow> (char \<times> string) list \<Rightarrow> string res" where
  "simulation_main fopen opts =
     res_bind (main_options opts \<lparr>filename_var = None, algorithm_var = None, memsize_var = None\<rparr>)
       (\<lambda>vars.
     res_bind (read_var (algorithm_var vars)) (\<lambda>algorithm.
       if algorithm = FCFS_ALGORITHM then
         res_bind (read_var (filename_var vars)) (\<lambda>filename.
         res_bind (read_var (memsize_var vars)) (\<lambda>memsize.
         res_bind (fcfs_scheduler_runner (fopen filename) memsize) (\<lambda>lines. Inr (print_out lines))))
       else if algorithm = MULTI_ALGORITHM then
         res_bind (read_var (filename_var vars)) (\<lambda>filename.
         res_bind (read_var (memsize_var vars)) (\<lambda>memsize.
         res_bind (multi_scheduler_runner (fopen filename) memsize) (\<lambda>lines. Inr (print_out lines))))
       else Inr []))"

section \<open>The options\<close>

text \<open>The last value given for an option counts.\<close>

definition last_arg :: "char \<Rightarrow> (char \<times> string) list \<Rightarrow> string option" where
  "last_arg c opts = map_of (rev opts) c"

definition option_ok :: "char \<times> string \<Rightarrow> bool" where
  "option_ok opt \<longleftrightarrow> fst opt = CHR ''f'' \<or>
     fst opt = CHR ''a'' \<and> (snd opt = ''fcfs'' \<or> snd opt = ''multi'') \<or>
     fst opt = CHR ''m'' \<and> isl (atoi (snd opt)) = False"

definition algorithm_of :: "string \<Rightarrow> int" where
  "algorithm_of s = (if s = ''fcfs'' then FCFS_ALGORITHM else MULTI_ALGORITHM)"

lemma last_arg_simps [simp]:
  "last_arg c [] = None"
  "last_arg c (opts @ [(d, s)]) = (if d = c then Some s else last_arg c opts)"
  by (auto simp: last_arg_def)

lemma main_options_append:
  "main_options (xs @ ys) vars = res_bind (main_options xs vars) (main_options ys)"
proof (induction xs arbitrary: vars)
  case Nil
  then show ?case by simp
next
  case (Cons x xs)
  then show ?case by (cases "main_option x vars") simp_all
qed

lemma main_options_ok:
  assumes "\<forall>opt \<in> set opts. option_ok opt"
  shows "main_options opts \<lparr>filename_var = None, algorithm_var = None, memsize_var = None\<rparr> =
    Inr \<lparr>filename_var = last_arg CHR ''f'' opts,
         algorithm_var = map_option algorithm_of (last_arg CHR ''a'' opts),
         memsize_var = map_option (\<lambda>s. projr (atoi s)) (last_arg CHR ''m'' opts)\<rparr>"
  using assms
proof (induction opts rule: rev_induct)
  case Nil
  then show ?case by simp
next
  case (snoc opt opts)
  obtain c s where opt: "opt = (c, s)" by fastforce
  have "option_ok (c, s)" using snoc.prems opt by simp
  then consider "c = CHR ''f''" | "c = CHR ''a''" "s = ''fcfs''" | "c = CHR ''a''" "s = ''multi''"
    | n where "c = CHR ''m''" "atoi s = Inr n"
    by (cases "atoi s") (auto simp: option_ok_def)
  then show ?case
    using snoc by cases (auto simp: main_options_append opt main_option_def algorithm_of_def)
qed

section \<open>The examples of the specification\<close>

text \<open>The files \<open>specInput.txt\<close>, \<open>specOutput-fcfs-100.txt\<close> and \<open>specOutput-multi-100.txt\<close>.\<close>

definition spec_input :: string where
  "spec_input = ''0 4 98 15'' @ [newline] @
     ''3 2 33 20'' @ [newline] @
     ''5 1 100 10'' @ [newline] @
     ''20 3 5 15'' @ [newline]"



definition spec_files :: "string \<Rightarrow> string option" where
  "spec_files name = (if name = ''specInput.txt'' then Some spec_input else None)"

section \<open>Properties of the program\<close>


text \<open>With valid options that name a file, an algorithm and a memory size, whatever comes
  several times, the program prints what the chosen runner gives for the last file and
  size named; if the file cannot be opened it exits with status 1.\<close>

theorem simulation_main_options:
  assumes "\<forall>opt \<in> set opts. option_ok opt" and "last_arg CHR ''f'' opts = Some file"
    and "last_arg CHR ''a'' opts = Some alg" and "last_arg CHR ''m'' opts = Some sz"
  shows "simulation_main fopen opts =
    (case fopen file of
       None \<Rightarrow> Inl (Exit 1)
     | Some fp \<Rightarrow> res_bind ((if alg = ''fcfs'' then fcfs_scheduler_runner else multi_scheduler_runner)
          (Some fp) (projr (atoi sz))) (\<lambda>lines. Inr (print_out lines)))"
  by (simp add: simulation_main_def main_options_ok [OF assms(1)] assms(2-) read_var_def algorithm_of_def
      FCFS_ALGORITHM_def MULTI_ALGORITHM_def fcfs_scheduler_runner_def multi_scheduler_runner_def
      split: option.split)

theorem simulation_main_options_witness:
  "simulation_main spec_files [(CHR ''m'', ''100''), (CHR ''a'', ''multi''), (CHR ''f'', ''absent'')] = Inl (Exit 1)"
proof -
  let ?opts = "[(CHR ''m'', ''100''), (CHR ''a'', ''multi''), (CHR ''f'', ''absent'')]"
  have "atoi ''100'' = Inr 100" by code_simp
  then have "\<forall>opt \<in> set ?opts. option_ok opt" by (simp add: option_ok_def)
  from simulation_main_options [OF this, of "''absent''" "''multi''" "''100''" spec_files] show ?thesis
    by (simp add: last_arg_def spec_files_def)
qed

text \<open>An unknown algorithm makes the program exit with status 1, and so does an unknown
  option; without an option for the algorithm it reads an uninitialised variable.\<close>

theorem simulation_main_bad_options:
  "(s \<noteq> ''fcfs'' \<and> s \<noteq> ''multi'' \<longrightarrow> simulation_main fopen ((CHR ''a'', s) # opts) = Inl (Exit 1)) \<and>
   (c \<notin> {CHR ''f'', CHR ''a'', CHR ''m''} \<longrightarrow> simulation_main fopen ((c, s) # opts) = Inl (Exit 1)) \<and>
   (simulation_main fopen [(CHR ''f'', s), (CHR ''m'', ''100'')] = Inl UninitRead)"
proof -
  have "atoi ''100'' = Inr 100" by code_simp
  then show ?thesis by (simp add: simulation_main_def main_option_def read_var_def)
qed

theorem simulation_main_bad_options_witness:
  "simulation_main spec_files [(CHR ''a'', ''sjf'')] = Inl (Exit 1) \<and>
   simulation_main spec_files [(CHR ''?'', ''x'')] = Inl (Exit 1)"
  using simulation_main_bad_options [of "''sjf''" spec_files "[]" "CHR ''?''"]
    simulation_main_bad_options [of "''x''" spec_files "[]" "CHR ''?''"] by simp

end
