(* ===== verification/Node_Heap.thy ===== *)
theory Node_Heap
  imports Prelude
begin

text \<open>
  Singly linked lists on a heap of nodes, shared by the list of \<open>workshop/linked-list.c\<close> and
  the lists of \<open>project1\<close>: an address maps to its node while it is allocated, a pointer is an
  address or \<open>NULL\<close>, and a read or write through \<open>NULL\<close> or a freed address is an error.
\<close>

section \<open>Nodes\<close>

type_synonym node_addr = nat

record 'a node =
  nd_data :: 'a
  nd_next :: "node_addr option"

type_synonym 'a heap = "node_addr \<Rightarrow> 'a node option"

section \<open>The heap\<close>

definition load_node ::
  "'a heap \<Rightarrow> node_addr option \<Rightarrow> 'a node res" where
  "load_node h p =
     (case p of
        None \<Rightarrow> Inl NullDeref
      | Some a \<Rightarrow> (case h a of None \<Rightarrow> Inl NullDeref | Some n \<Rightarrow> Inr n))"

definition store_next ::
  "'a heap \<Rightarrow> node_addr option \<Rightarrow> node_addr option
    \<Rightarrow> 'a heap res" where
  "store_next h p q =
     res_bind (load_node h p) (\<lambda>n. Inr (h(the p \<mapsto> n\<lparr>nd_next := q\<rparr>)))"

definition free_node ::
  "'a heap \<Rightarrow> node_addr option
    \<Rightarrow> 'a heap res" where
  "free_node h p = res_bind (load_node h p) (\<lambda>n. Inr (h(the p := None)))"

definition then_do :: "'a res option \<Rightarrow> ('a \<Rightarrow> 'b res option) \<Rightarrow> 'b res option" where
  "then_do m f = (case m of None \<Rightarrow> None | Some (Inl e) \<Rightarrow> Some (Inl e) | Some (Inr x) \<Rightarrow> f x)"

text \<open>The loop that frees a list; the result is the heap that remains.\<close>

partial_function (option) free_loop ::
  "'a heap \<Rightarrow> node_addr option
    \<Rightarrow> 'a heap res option" where
  "free_loop h node =
     (case node of
        None \<Rightarrow> Some (Inr h)
      | Some a \<Rightarrow>
          (case load_node h node of
             Inl e \<Rightarrow> Some (Inl e)
           | Inr n \<Rightarrow>
               (case free_node h node of
                  Inl e \<Rightarrow> Some (Inl e)
                | Inr h' \<Rightarrow> free_loop h' (nd_next n))))"

declare free_loop.simps [code]

section \<open>Chains of nodes\<close>

text \<open>Following the links from \<open>p\<close> passes the addresses \<open>as\<close> and ends at \<open>q\<close>.\<close>

fun chain :: "'a heap \<Rightarrow> node_addr option \<Rightarrow> node_addr list
    \<Rightarrow> node_addr option \<Rightarrow> bool" where
  "chain h p [] q \<longleftrightarrow> p = q"
| "chain h p (a # as) q \<longleftrightarrow> p = Some a \<and> (case h a of None \<Rightarrow> False | Some n \<Rightarrow> chain h (nd_next n) as q)"

definition node_data :: "'a heap \<Rightarrow> node_addr \<Rightarrow> 'a" where
  "node_data h a = nd_data (the (h a))"

lemma chain_append: "chain h p (as @ bs) q \<longleftrightarrow> (\<exists>r. chain h p as r \<and> chain h r bs q)"
  by (induction as arbitrary: p) (auto split: option.splits)

lemma chain_upd [simp]: "a \<notin> set as \<Longrightarrow> chain (h(a := x)) p as q = chain h p as q"
  by (induction as arbitrary: p) (auto split: option.splits)

lemma chain_mid:
  "chain h p (as @ a # bs) q \<Longrightarrow> \<exists>n. h a = Some n \<and> chain h p as (Some a) \<and> chain h (nd_next n) bs q"
  by (auto simp: chain_append split: option.splits)

lemma chain_fun: "chain h p as q \<Longrightarrow> chain h p as r \<Longrightarrow> q = r"
  by (induction as arbitrary: p) (auto split: option.splits)

lemma chain_hd: "chain h p as None \<Longrightarrow> p = (if as = [] then None else Some (hd as))"
  by (cases as) auto

lemma node_data_upd [simp]:
  "a \<noteq> b \<Longrightarrow> node_data (h(a := x)) b = node_data h b"
  "node_data (h(a \<mapsto> n)) a = nd_data n"
  by (simp_all add: node_data_def)

lemma map_node_data_upd [simp]:
  "a \<notin> set as \<Longrightarrow> map (node_data (h(a := x))) as = map (node_data h) as"
  by (auto simp: node_data_def)

lemma map_node_data_next:
  "h a = Some n \<Longrightarrow> map (node_data (h(a \<mapsto> n\<lparr>nd_next := q\<rparr>))) as = map (node_data h) as"
  by (auto simp: node_data_def)

lemma load_node_simps [simp]:
  "load_node h None = Inl NullDeref" "h a = Some n \<Longrightarrow> load_node h (Some a) = Inr n"
  by (simp_all add: load_node_def)

lemma store_next_Some [simp]: "h a = Some n \<Longrightarrow> store_next h (Some a) q = Inr (h(a \<mapsto> n\<lparr>nd_next := q\<rparr>))"
  by (simp add: store_next_def)

lemma free_node_Some [simp]: "h a = Some n \<Longrightarrow> free_node h (Some a) = Inr (h(a := None))"
  by (simp add: free_node_def)

text \<open>Redirecting the link of the last node of a chain.\<close>

lemma chain_redirect:
  assumes "chain h p (as @ [a]) r" and "distinct (as @ [a])" and "h a = Some n"
  shows "chain (h(a \<mapsto> n\<lparr>nd_next := q\<rparr>)) p (as @ [a]) q"
  using assms by (auto simp: chain_append)

lemma chain_allocated: "chain h p as q \<Longrightarrow> set as \<subseteq> dom h"
  by (induction as arbitrary: p) (auto split: option.splits)

lemma load_node_Inr: "load_node h p = Inr n \<longleftrightarrow> (\<exists>a. p = Some a \<and> h a = Some n)"
  by (auto simp: load_node_def split: option.splits)

lemma dom_store_next: "store_next h p q = Inr h' \<Longrightarrow> dom h' = dom h"
  by (auto simp: store_next_def load_node_Inr split: if_splits)

section \<open>Freeing the list\<close>

lemma free_loop_chain:
  assumes "chain h p as None" and "distinct as"
  shows "free_loop h p = Some (Inr (h |` (- set as)))"
  using assms
proof (induction as arbitrary: h p)
  case Nil
  then show ?case by (subst free_loop.simps) (simp add: restrict_map_def)
next
  case (Cons a as)
  then obtain n where n: "h a = Some n" "chain h (nd_next n) as None" and p: "p = Some a"
    by (auto split: option.splits)
  have "free_loop h p = free_loop (h(a := None)) (nd_next n)"
    unfolding p using n by (subst free_loop.simps) simp
  also have "\<dots> = Some (Inr (h(a := None) |` (- set as)))"
    using Cons.prems(2) n(2) chain_upd [of a as h None "nd_next n" None]
    by (intro Cons.IH) (simp_all only: distinct.simps simp_thms)
  also have "h(a := None) |` (- set as) = h |` (- set (a # as))"
    by (auto simp: restrict_map_def fun_eq_iff)
  finally show ?case .
qed

section \<open>Lists in the heap\<close>

text \<open>
  The list that starts at \<open>p\<close>, each element with the address of its node.
\<close>

definition holds :: "'a heap \<Rightarrow> node_addr option \<Rightarrow> (node_addr \<times> 'a) list \<Rightarrow> bool" where
  "holds h p l \<longleftrightarrow> chain h p (map fst l) None \<and> distinct (map fst l) \<and> (\<forall>(a, x) \<in> set l. node_data h a = x)"

abbreviation addrs :: "(node_addr \<times> 'a) list \<Rightarrow> node_addr set" where
  "addrs l \<equiv> fst ` set l"

definition first_addr :: "(node_addr \<times> 'a) list \<Rightarrow> node_addr option" where
  "first_addr l = (case l of [] \<Rightarrow> None | (a, x) # _ \<Rightarrow> Some a)"

definition last_addr :: "node_addr option \<Rightarrow> (node_addr \<times> 'a) list \<Rightarrow> node_addr option" where
  "last_addr prev l = (if l = [] then prev else Some (fst (last l)))"

lemma first_addr_simps [simp]: "first_addr [] = None" "first_addr ((a, x) # l) = Some a"
  by (simp_all add: first_addr_def)

lemma last_addr_simps [simp]:
  "last_addr prev [] = prev" "last_addr prev ((a, x) # l) = last_addr (Some a) l" "last_addr prev (l @ [(a, x)]) = Some a"
  by (simp_all add: last_addr_def)

text \<open>A list with its first node; a part of a list up to a pointer.\<close>

definition part :: "'a heap \<Rightarrow> node_addr option \<Rightarrow> (node_addr \<times> 'a) list \<Rightarrow> node_addr option \<Rightarrow> bool" where
  "part h p l q \<longleftrightarrow> chain h p (map fst l) q \<and> (\<forall>(a, x) \<in> set l. node_data h a = x)"

lemma holds_part: "holds h p l \<longleftrightarrow> part h p l None \<and> distinct (map fst l)"
  by (auto simp: holds_def part_def)

lemma part_Nil [simp]: "part h p [] q \<longleftrightarrow> p = q"
  by (simp add: part_def)

lemma part_Cons [simp]:
  "part h p ((a, x) # l) q \<longleftrightarrow> p = Some a \<and> (\<exists>n. h a = Some n \<and> nd_data n = x \<and> part h (nd_next n) l q)"
  by (auto simp: part_def node_data_def split: option.splits)

lemma part_append: "part h p (k @ l) q \<longleftrightarrow> (\<exists>r. part h p k r \<and> part h r l q)"
  by (auto simp: part_def chain_append)

lemma part_eq:
  "(\<And>a. a \<in> addrs l \<Longrightarrow> h' a = h a) \<Longrightarrow> part h' p l q = part h p l q"
proof (induction l arbitrary: p)
  case Nil
  then show ?case by simp
next
  case (Cons e l)
  obtain a x where e: "e = (a, x)" by (cases e)
  have "h' a = h a" using Cons.prems [of a] by (simp add: e)
  moreover have "part h' r l q = part h r l q" for r using Cons.IH Cons.prems by simp
  ultimately show ?case by (simp add: e)
qed

lemma part_upd [simp]: "a \<notin> addrs l \<Longrightarrow> part (h(a := v)) p l q = part h p l q"
  by (rule part_eq) auto

lemma part_first: "part h p l q \<Longrightarrow> p = (if l = [] then q else first_addr l)"
  by (cases l) (auto simp: split_paired_all)

lemma part_redirect:
  assumes "part h p (l @ [(a, x)]) q" and "distinct (map fst (l @ [(a, x)]))" and "h a = Some n"
  shows "part (h(a \<mapsto> n\<lparr>nd_next := r\<rparr>)) p (l @ [(a, x)]) r"
  using assms by (auto simp: part_append)

lemma part_allocated: "part h p l q \<Longrightarrow> addrs l \<subseteq> dom h"
  using chain_allocated [of h p "map fst l" q] by (simp add: part_def)

lemma holds_Nil [simp]: "holds h p [] \<longleftrightarrow> p = None"
  by (simp add: holds_part)

lemma holds_allocated: "holds h p l \<Longrightarrow> addrs l \<subseteq> dom h"
  by (auto simp: holds_part dest: part_allocated)

lemma holds_first: "holds h p l \<Longrightarrow> p = first_addr l"
  by (auto simp: holds_part dest: part_first split: if_splits)

lemma free_loop_holds: "holds h p l \<Longrightarrow> free_loop h p = Some (Inr (h |` (- addrs l)))"
  using free_loop_chain [of h p "map fst l"] by (simp add: holds_def)

section \<open>Searching, inserting and removing\<close>

text \<open>
  The loop \<open>while (cur != NULL) { if (test) break; prev = cur; cur = cur->next; }\<close>; the result
  are both pointers.
\<close>

partial_function (option) find_loop ::
  "('a \<Rightarrow> bool) \<Rightarrow> 'a heap \<Rightarrow> node_addr option \<Rightarrow> node_addr option \<Rightarrow> (node_addr option \<times> node_addr option) res option" where
  "find_loop test h prev cur =
     (case cur of
        None \<Rightarrow> Some (Inr (prev, cur))
      | Some a \<Rightarrow>
          (case load_node h cur of
             Inl e \<Rightarrow> Some (Inl e)
           | Inr n \<Rightarrow> if test (nd_data n) then Some (Inr (prev, cur)) else find_loop test h cur (nd_next n)))"

declare find_loop.simps [code]

text \<open>
  Insertion of an allocated node before the first node that satisfies the test, or at the
  end: into an empty list the node is put as it is, with the link it has.
\<close>

definition insert_node ::
  "('a \<Rightarrow> bool) \<Rightarrow> node_addr \<Rightarrow> 'a heap \<Rightarrow> node_addr option \<Rightarrow> ('a heap \<times> node_addr option) res option" where
  "insert_node test node h head =
     (if head = None then Some (Inr (h, Some node))
      else then_do (find_loop test h None head) (\<lambda>(prev, cur).
        Some (if cur \<noteq> None \<and> cur = head
              then res_bind (store_next h (Some node) cur) (\<lambda>h'. Inr (h', Some node))
              else res_bind (store_next h prev (Some node)) (\<lambda>h1.
                   res_bind (store_next h1 (Some node) cur) (\<lambda>h2. Inr (h2, head))))))"

text \<open>Taking the node at \<open>cur\<close>, which follows \<open>prev\<close>, out of a list; it stays allocated.\<close>

definition unlink_node ::
  "node_addr option \<Rightarrow> node_addr option \<Rightarrow> 'a heap \<Rightarrow> node_addr option \<Rightarrow> ('a heap \<times> node_addr option) res" where
  "unlink_node prev cur h head =
     res_bind (load_node h cur) (\<lambda>n.
       if cur = head then Inr (h, nd_next n)
       else res_bind (store_next h prev (nd_next n)) (\<lambda>h'. Inr (h', head)))"

definition store_data :: "'a heap \<Rightarrow> node_addr option \<Rightarrow> ('a \<Rightarrow> 'a) \<Rightarrow> 'a heap res" where
  "store_data h p f = res_bind (load_node h p) (\<lambda>n. Inr (h(the p \<mapsto> n\<lparr>nd_data := f (nd_data n)\<rparr>)))"

lemma then_do_simps [simp]:
  "then_do None f = None" "then_do (Some (Inl e)) f = Some (Inl e)" "then_do (Some (Inr x)) f = f x"
  by (simp_all add: then_do_def)

lemma store_data_Some [simp]: "h a = Some n \<Longrightarrow> store_data h (Some a) f = Inr (h(a \<mapsto> n\<lparr>nd_data := f (nd_data n)\<rparr>))"
  by (simp add: store_data_def)

abbreviation before :: "('a \<Rightarrow> bool) \<Rightarrow> (node_addr \<times> 'a) list \<Rightarrow> (node_addr \<times> 'a) list" where
  "before test l \<equiv> takeWhile (\<lambda>e. \<not> test (snd e)) l"

abbreviation after :: "('a \<Rightarrow> bool) \<Rightarrow> (node_addr \<times> 'a) list \<Rightarrow> (node_addr \<times> 'a) list" where
  "after test l \<equiv> dropWhile (\<lambda>e. \<not> test (snd e)) l"

lemma walk_all [simp]: "takeWhile (\<lambda>e. True) l = l" "dropWhile (\<lambda>e. True) l = []"
  by (induction l) auto

lemma addrs_before_after: "addrs (before test l) \<union> addrs (after test l) = addrs l"
  by (metis image_Un set_append takeWhile_dropWhile_id)

lemma find_loop_part:
  "part h p l None \<Longrightarrow>
    find_loop test h prev p = Some (Inr (last_addr prev (before test l), first_addr (after test l)))"
proof (induction l arbitrary: p prev)
  case Nil
  then show ?case by (subst find_loop.simps) simp
next
  case (Cons e l)
  obtain a x where e: "e = (a, x)" by (cases e)
  with Cons.prems obtain n where n: "p = Some a" "h a = Some n" "nd_data n = x" "part h (nd_next n) l None" by auto
  show ?case using n Cons.IH [OF n(4)] by (subst find_loop.simps) (simp add: e)
qed

lemma first_addr_in: "l \<noteq> [] \<Longrightarrow> \<exists>a \<in> addrs l. first_addr l = Some a"
  by (cases l) (auto simp: first_addr_def split: prod.splits)

lemma first_addr_append: "k \<noteq> [] \<Longrightarrow> first_addr (k @ l) = first_addr k"
  by (cases k) (simp_all add: first_addr_def)

lemma first_addr_differs:
  assumes "distinct (map fst (k @ l))" and "k \<noteq> []" and "first_addr l \<noteq> None"
  shows "first_addr l \<noteq> first_addr k"
proof -
  obtain a where a: "a \<in> addrs k" "first_addr k = Some a" using first_addr_in [OF assms(2)] by blast
  have "l \<noteq> []" using assms(3) by auto
  then obtain b where b: "b \<in> addrs l" "first_addr l = Some b" using first_addr_in by blast
  have "addrs k \<inter> addrs l = {}" using assms(1) by (metis distinct_append list.set_map map_append)
  with a b show ?thesis by auto
qed

lemma holds_split:
  assumes "holds h p (k @ (c, x) # l)"
  obtains n where "h c = Some n" and "nd_data n = x" and "part h p k (Some c)" and "part h (nd_next n) l None"
    and "c \<notin> addrs k" and "c \<notin> addrs l"
  using assms by (auto simp: holds_part part_append)

lemma insert_node_holds:
  assumes l: "holds h head l" and node: "node \<notin> addrs l" "h node = Some n" and first: "l = [] \<Longrightarrow> nd_next n = None"
  obtains h' head' where "insert_node test node h head = Some (Inr (h', head'))"
    and "holds h' head' (before test l @ (node, nd_data n) # after test l)"
    and "dom h' = dom h" and "\<And>b. b \<noteq> node \<Longrightarrow> b \<notin> addrs l \<Longrightarrow> h' b = h b"
proof (cases "before test l" rule: rev_cases)
  case Nil
  show thesis
  proof (cases l)
    case empty: Nil
    then show thesis using that [of h "Some node"] l node(2) first by (simp add: insert_node_def holds_part)
  next
    case (Cons e r)
    obtain a x where e: "e = (a, x)" by (cases e)
    have aft: "after test l = l" using Nil Cons by (auto split: if_splits)
    have "head = Some a" using holds_first [OF l] by (simp add: Cons e)
    then have "insert_node test node h head = Some (Inr (h(node \<mapsto> n\<lparr>nd_next := head\<rparr>), Some node))"
      using find_loop_part [of h head l test None] l node(2) Nil aft
      by (simp add: insert_node_def holds_part Cons e)
    moreover have "holds (h(node \<mapsto> n\<lparr>nd_next := head\<rparr>)) (Some node) (before test l @ (node, nd_data n) # after test l)"
      using l node unfolding Nil aft by (auto simp: holds_part)
    ultimately show thesis by (rule that) (use node(2) in auto)
  qed
next
  case (snoc k e)
  obtain a x where e: "e = (a, x)" by (cases e)
  let ?r = "after test l"
  have split: "l = k @ (a, x) # ?r" using takeWhile_dropWhile_id [of "\<lambda>e. \<not> test (snd e)" l] snoc e by simp
  from l have "holds h head (k @ (a, x) # ?r)" using split by simp
  then obtain na where na: "h a = Some na" "nd_data na = x" "part h head k (Some a)" "part h (nd_next na) ?r None"
    "a \<notin> addrs k" "a \<notin> addrs ?r" by (rule holds_split)
  have dist: "distinct (map fst (k @ (a, x) # ?r))" using l split unfolding holds_part by metis
  have node': "node \<noteq> a" "node \<notin> addrs k" "node \<notin> addrs ?r" using node(1) by (subst (asm) split; auto)+
  have cur: "nd_next na = first_addr ?r" using part_first [OF na(4)] by (metis first_addr_simps(1))
  have head: "head = first_addr (k @ [(a, x)])" using part_first [OF na(3)] by (cases k) auto
  have ne: "\<not> (first_addr ?r \<noteq> None \<and> first_addr ?r = head)"
    using first_addr_differs [of "k @ [(a, x)]" ?r] dist unfolding head by auto
  let ?h = "h(a \<mapsto> na\<lparr>nd_next := Some node\<rparr>, node \<mapsto> n\<lparr>nd_next := first_addr ?r\<rparr>)"
  have "head \<noteq> None" unfolding head using first_addr_in [of "k @ [(a, x)]"] by auto
  then have "insert_node test node h head = Some (Inr (?h, head))"
    using find_loop_part [of h head l test None] l node(2) node'(1) na(1) ne
    by (auto simp: insert_node_def holds_part snoc e)
  moreover have "holds ?h head (before test l @ (node, nd_data n) # ?r)"
    using na node' dist unfolding snoc e holds_part cur by (auto simp: part_append)
  moreover have "dom ?h = dom h" using na(1) node(2) by auto
  moreover have "?h b = h b" if "b \<noteq> node" "b \<notin> addrs l" for b
    using that by (subst (asm) split) auto
  ultimately show thesis by (rule that)
qed

lemma unlink_node_holds:
  assumes "holds h head (k @ (c, x) # l)"
  obtains h' head' where "unlink_node (last_addr None k) (Some c) h head = Inr (h', head')"
    and "holds h' head' (k @ l)" and "dom h' = dom h" and "h' c = h c" and "\<And>b. b \<notin> addrs k \<Longrightarrow> h' b = h b"
proof -
  from assms obtain n where n: "h c = Some n" "nd_data n = x" "part h head k (Some c)" "part h (nd_next n) l None"
    "c \<notin> addrs k" "c \<notin> addrs l" by (rule holds_split)
  have dist: "distinct (map fst (k @ l))" using assms by (auto simp: holds_part)
  show thesis
  proof (cases k rule: rev_cases)
    case Nil
    then show thesis using that [of h "nd_next n"] n dist by (simp add: unlink_node_def holds_part)
  next
    case (snoc r e)
    obtain a y where e: "e = (a, y)" by (cases e)
    from n(3) obtain m where m: "h a = Some m" "nd_data m = y" "part h head r (Some a)"
      by (auto simp: snoc e part_append)
    have ac: "a \<noteq> c" "a \<notin> addrs r" "a \<notin> addrs l" using n(5) dist by (auto simp: snoc e)
    have "head \<noteq> Some c" using part_first [OF n(3)] n(5) first_addr_in [of k] snoc by (metis option.inject snoc_eq_iff_butlast)
    then have "unlink_node (last_addr None k) (Some c) h head = Inr (h(a \<mapsto> m\<lparr>nd_next := nd_next n\<rparr>), head)"
      using n(1) m(1) by (auto simp: unlink_node_def snoc e)
    moreover have "holds (h(a \<mapsto> m\<lparr>nd_next := nd_next n\<rparr>)) head (k @ l)"
      using m n(4) ac dist by (auto simp: holds_part part_append snoc e)
    ultimately show thesis using that m(1) ac(1) by (auto simp: snoc e)
  qed
qed

section \<open>Ownership\<close>

text \<open>
  The heap and the head of a list: it holds the list \<open>l\<close>, and the other nodes of the heap are
  exactly \<open>rest\<close>. The operations move nodes between the two; when \<open>rest\<close> stays the same no node
  is leaked and none outside the list is touched.
\<close>

fun owns :: "'a heap \<Rightarrow> (node_addr \<times> 'a) list \<Rightarrow> 'a heap \<times> node_addr option \<Rightarrow> bool" where
  "owns rest l (h, p) \<longleftrightarrow> holds h p l \<and> h |` (- addrs l) = rest"

lemma owns_outside: "owns rest l (h, p) \<Longrightarrow> a \<notin> addrs l \<Longrightarrow> h a = rest a"
  by (auto simp: restrict_map_def)

lemma owns_rest: "owns rest l (h, p) \<Longrightarrow> rest a = (if a \<in> addrs l then None else h a)"
  by (drule owns.simps [THEN iffD1], erule conjE, drule fun_cong [where x = a]) (simp add: restrict_map_def split: if_splits)

lemma ownsI:
  assumes "holds h p l" and "\<And>a. a \<in> addrs l \<Longrightarrow> rest a = None" and "\<And>a. a \<notin> addrs l \<Longrightarrow> h a = rest a"
  shows "owns rest l (h, p)"
  using assms by (auto simp: restrict_map_def fun_eq_iff)

lemma owns_free: "owns rest l (h, p) \<Longrightarrow> free_loop h p = Some (Inr rest)"
  using free_loop_holds [of h p l] by simp

lemma owns_allocate:
  assumes "owns rest l (h, p)" and "h a = None"
  shows "owns (rest(a \<mapsto> n)) l (h(a \<mapsto> n), p)" and "rest a = None"
proof -
  have a: "a \<notin> addrs l" using assms holds_allocated [of h p l] by auto
  then show "rest a = None" using assms by (simp add: owns_rest)
  have "holds (h(a \<mapsto> n)) p l" using assms(1) a by (simp add: holds_part)
  then show "owns (rest(a \<mapsto> n)) l (h(a \<mapsto> n), p)"
    by (rule ownsI) (use a assms(1) in \<open>auto simp: owns_rest\<close>)
qed

lemma owns_insert:
  assumes own: "owns rest l (h, head)" and node: "rest a = Some n" and first: "l = [] \<Longrightarrow> nd_next n = None"
  obtains hp where "insert_node test a h head = Some (Inr hp)"
    and "owns (rest(a := None)) (before test l @ (a, nd_data n) # after test l) hp"
proof -
  have a: "a \<notin> addrs l" "h a = Some n" using owns_rest [OF own, of a] node by (auto split: if_splits)
  have l: "holds h head l" using own by simp
  obtain h' head' where ins: "insert_node test a h head = Some (Inr (h', head'))"
    "holds h' head' (before test l @ (a, nd_data n) # after test l)" "dom h' = dom h"
    "\<And>b. b \<noteq> a \<Longrightarrow> b \<notin> addrs l \<Longrightarrow> h' b = h b"
    using insert_node_holds [OF l a first] by blast
  have al: "b \<in> addrs (before test l @ (a, nd_data n) # after test l) \<longleftrightarrow> b = a \<or> b \<in> addrs l" for b
    using addrs_before_after [of test l] by auto
  have "owns (rest(a := None)) (before test l @ (a, nd_data n) # after test l) (h', head')"
    by (rule ownsI [OF ins(2)]) (auto simp only: al owns_rest [OF own] ins(4) fun_upd_apply split: if_splits)
  with ins(1) show thesis by (rule that)
qed

lemma owns_unlink:
  assumes own: "owns rest (k @ (c, x) # l) (h, head)"
  obtains h' head' n where "unlink_node (last_addr None k) (Some c) h head = Inr (h', head')"
    and "owns (rest(c \<mapsto> n)) (k @ l) (h', head')" and "nd_data n = x"
proof -
  have held: "holds h head (k @ (c, x) # l)" using own by simp
  obtain h' head' where un: "unlink_node (last_addr None k) (Some c) h head = Inr (h', head')"
    "holds h' head' (k @ l)" "dom h' = dom h" "h' c = h c" "\<And>b. b \<notin> addrs k \<Longrightarrow> h' b = h b"
    using unlink_node_holds [OF held] by blast
  obtain n where n: "h c = Some n" "nd_data n = x" and c: "c \<notin> addrs k" "c \<notin> addrs l"
    using holds_split [OF held] by blast
  have "owns (rest(c \<mapsto> n)) (k @ l) (h', head')"
  proof (rule ownsI [OF un(2)])
    fix a
    show "(rest(c \<mapsto> n)) a = None" if "a \<in> addrs (k @ l)"
      using that c owns_rest [OF own, of a] by auto
    show "h' a = (rest(c \<mapsto> n)) a" if "a \<notin> addrs (k @ l)"
      using that un(4) un(5) [of a] n(1) owns_rest [OF own, of a] by (cases "a = c") auto
  qed
  with un(1) show thesis using n(2) by (rule that)
qed

lemma owns_free_node:
  assumes own: "owns rest l (h, p)" and "rest c = Some n"
  obtains h' where "free_node h (Some c) = Inr h'" and "owns (rest(c := None)) l (h', p)"
proof -
  have c: "c \<notin> addrs l" "h c = Some n" using owns_rest [OF own, of c] assms(2) by (auto split: if_splits)
  have "holds (h(c := None)) p l" using own c(1) by (simp add: holds_part)
  then have "owns (rest(c := None)) l (h(c := None), p)"
    by (rule ownsI) (auto simp: owns_rest [OF own])
  then show thesis using that [of "h(c := None)"] c(2) by simp
qed

lemma owns_load:
  assumes "owns rest l (h, p)" and "map_of l a = Some x"
  obtains n where "h a = Some n" and "nd_data n = x"
proof -
  from map_of_SomeD [OF assms(2)] obtain k r where "l = k @ (a, x) # r" by (metis split_list)
  with assms(1) have "holds h p (k @ (a, x) # r)" by simp
  then show thesis using that by (rule holds_split)
qed

lemma owns_store_data:
  assumes own: "owns rest l (h, p)" and "map_of l a = Some x"
  obtains h' where "store_data h (Some a) f = Inr h'" and "owns rest (upd_at a f l) (h', p)"
proof -
  from map_of_SomeD [OF assms(2)] obtain k r where l: "l = k @ (a, x) # r" by (metis split_list)
  from own have held: "holds h p (k @ (a, x) # r)" and dist: "distinct (map fst (k @ (a, x) # r))"
    by (simp_all add: l holds_part)
  obtain n where n: "h a = Some n" "nd_data n = x" "part h p k (Some a)" "part h (nd_next n) r None"
    "a \<notin> addrs k" "a \<notin> addrs r" using held by (rule holds_split)
  let ?h = "h(a \<mapsto> n\<lparr>nd_data := f (nd_data n)\<rparr>)"
  have upd: "upd_at a f l = k @ (a, f x) # r" unfolding l by (rule upd_at_split [OF dist])
  have "holds ?h p (upd_at a f l)"
    using n dist unfolding upd holds_part by (simp add: part_append)
  then have "owns rest (upd_at a f l) (?h, p)"
    by (rule ownsI) (simp_all only: fst_set_upd_at owns_rest [OF own] fun_upd_apply, auto simp: l)
  then show thesis using that n(1) by simp
qed

text \<open>The pointer that follows a part of the list, and the finiteness that \<open>malloc\<close> needs.\<close>

lemma owns_next:
  assumes "owns rest (k @ (a, x) # l) (h, p)"
  obtains n where "h a = Some n" and "nd_data n = x" and "nd_next n = first_addr l"
proof -
  have "holds h p (k @ (a, x) # l)" using assms by simp
  then obtain n where "h a = Some n" "nd_data n = x" "part h (nd_next n) l None" by (rule holds_split)
  with that show thesis using part_first by (metis first_addr_simps(1))
qed

lemma owns_finite: "owns rest l (h, p) \<Longrightarrow> finite (dom rest) \<Longrightarrow> finite (dom h)"
proof -
  assume own: "owns rest l (h, p)" and fin: "finite (dom rest)"
  have "dom h \<subseteq> dom rest \<union> addrs l" using owns_rest [OF own] by (auto simp: dom_def)
  with fin show ?thesis by (meson finite_UnI finite_imageI finite_set finite_subset)
qed

lemma owns_find:
  "owns rest l (h, p) \<Longrightarrow>
    find_loop test h None p = Some (Inr (last_addr None (before test l), first_addr (after test l)))"
  using find_loop_part [of h p l test None] by (simp add: holds_part)

lemma owns_distinct: "owns rest l (h, p) \<Longrightarrow> distinct (map fst l)"
  by (simp add: holds_part)

lemma owns_in_list: "owns rest l (h, p) \<Longrightarrow> a \<in> addrs l \<Longrightarrow> rest a = None"
  by (simp only: owns_rest if_True)

text \<open>A node swallows its successor: the link passes it, the data is updated, the successor is freed.\<close>

lemma owns_swallow:
  assumes own: "owns rest (k @ (a, x) # (b, y) # t) (h, p)" and m: "h b = Some m"
  obtains h' where "res_bind (store_next h (Some a) (nd_next m)) (\<lambda>h1.
      res_bind (store_data h1 (Some a) f) (\<lambda>h2. free_node h2 (Some b))) = Inr h'"
    and "owns rest (k @ (a, f x) # t) (h', p)"
proof -
  have own2: "owns rest ((k @ [(a, x)]) @ (b, y) # t) (h, p)" using own by simp
  obtain h1 p1 n where un: "unlink_node (last_addr None (k @ [(a, x)])) (Some b) h p = Inr (h1, p1)"
    "owns (rest(b \<mapsto> n)) ((k @ [(a, x)]) @ t) (h1, p1)" "nd_data n = y" by (rule owns_unlink [OF own2])
  have dist: "distinct (map fst (k @ (a, x) # (b, y) # t))" by (rule owns_distinct [OF own])
  have "p = first_addr ((k @ [(a, x)]) @ (b, y) # t)" using own2 by (intro holds_first [of h]) simp
  also have "\<dots> = first_addr (k @ [(a, x)])" by (rule first_addr_append) simp
  finally have "p \<noteq> Some b" using first_addr_differs [of "k @ [(a, x)]" "(b, y) # t"] dist by auto
  with un(1) m have store: "store_next h (Some a) (nd_next m) = Inr h1" "p1 = p"
    by (auto simp: unlink_node_def res_bind_def split: sum.splits)
  have look: "map_of (k @ (a, x) # t) a = Some x" using dist by (intro map_of_is_SomeI) simp_all
  have own3: "owns (rest(b \<mapsto> n)) (k @ (a, x) # t) (h1, p)" using un(2) store(2) by simp
  obtain h2 where h2: "store_data h1 (Some a) f = Inr h2" "owns (rest(b \<mapsto> n)) (upd_at a f (k @ (a, x) # t)) (h2, p)"
    by (rule owns_store_data [OF own3 look])
  have upd: "upd_at a f (k @ (a, x) # t) = k @ (a, f x) # t" by (rule upd_at_split) (use dist in auto)
  obtain h3 where h3: "free_node h2 (Some b) = Inr h3" "owns ((rest(b \<mapsto> n))(b := None)) (k @ (a, f x) # t) (h3, p)"
    using owns_free_node [OF h2(2) [unfolded upd], of b n] by auto
  have "rest b = None" by (rule owns_in_list [OF own]) simp
  then have "(rest(b \<mapsto> n))(b := None) = rest" by auto
  with h3 show thesis using that store(1) h2(1) by simp
qed

lemma owns_store_mid:
  assumes own: "owns rest (k @ (a, x) # l) (h, p)"
  obtains h' where "store_data h (Some a) f = Inr h'" and "owns rest (k @ (a, f x) # l) (h', p)"
proof -
  have dist: "distinct (map fst (k @ (a, x) # l))" by (rule owns_distinct [OF own])
  then have "map_of (k @ (a, x) # l) a = Some x" by (intro map_of_is_SomeI) simp_all
  then obtain h' where "store_data h (Some a) f = Inr h'" "owns rest (upd_at a f (k @ (a, x) # l)) (h', p)"
    by (rule owns_store_data [OF own])
  then show thesis using that upd_at_split [OF dist, of f] by simp
qed

text \<open>A node is taken out of the list and freed.\<close>

lemma owns_remove:
  assumes own: "owns rest (k @ (c, x) # l) (h, head)"
  obtains h1 head1 n h2 where "unlink_node (last_addr None k) (Some c) h head = Inr (h1, head1)"
    and "h1 c = Some n" and "nd_data n = x" and "free_node h1 (Some c) = Inr h2" and "owns rest (k @ l) (h2, head1)"
proof -
  obtain h1 head1 n where un: "unlink_node (last_addr None k) (Some c) h head = Inr (h1, head1)"
    "owns (rest(c \<mapsto> n)) (k @ l) (h1, head1)" "nd_data n = x" by (rule owns_unlink [OF own])
  have n: "(rest(c \<mapsto> n)) c = Some n" by simp
  obtain h2 where h2: "free_node h1 (Some c) = Inr h2" "owns ((rest(c \<mapsto> n))(c := None)) (k @ l) (h2, head1)"
    by (rule owns_free_node [OF un(2) n])
  have "rest c = None" by (rule owns_in_list [OF own]) simp
  then have "(rest(c \<mapsto> n))(c := None) = rest" by auto
  moreover have "h1 c = Some n" using owns_rest [OF un(2), of c] by (simp split: if_splits)
  ultimately show thesis using that un(1,3) h2 by metis
qed

end
