(* ===== verification/Memory_Pointers.thy ===== *)
theory Memory_Pointers
  imports Memory_Management Node_Heap
begin

text \<open>
  The memory manager of \<open>project1/memory-management.c\<close> once more, now with the pointers of its
  two linked lists: every function that follows, redirects or frees links is translated
  on a heap of nodes, and is shown to do on the represented lists what its model in
  \<open>Memory_Management\<close> does. No operation reads or writes through a null or dangling pointer,
  none leaks a node, and every loop ends. A list is a heap with the pointer to its first node.
  \<open>malloc\<close> is a function that gives an unallocated address for every finite heap.
\<close>

type_synonym segs_ptr = "free_memory_segment_t heap \<times> node_addr option"
type_synonym procs_ptr = "process_memory_t heap \<times> node_addr option"

definition malloc_ok :: "(('k \<rightharpoonup> 'v) \<Rightarrow> 'k) \<Rightarrow> bool" where
  "malloc_ok malloc \<longleftrightarrow> (\<forall>h. finite (dom h) \<longrightarrow> h (malloc h) = None)"

section \<open>Holes\<close>

partial_function (option) consolidate_ptr ::
  "free_memory_segment_t heap \<Rightarrow> node_addr option \<Rightarrow> free_memory_segment_t heap res option" where
  "consolidate_ptr h curr_mem_seg =
     (case curr_mem_seg of
        None \<Rightarrow> Some (Inr h)
      | Some _ \<Rightarrow>
          (case load_node h curr_mem_seg of
             Inl e \<Rightarrow> Some (Inl e)
           | Inr n \<Rightarrow>
               (case nd_next n of
                  None \<Rightarrow> Some (Inr h)
                | Some _ \<Rightarrow>
                    (case load_node h (nd_next n) of
                       Inl e \<Rightarrow> Some (Inl e)
                     | Inr m \<Rightarrow>
                         (if get_free_memory_segment_end_address (nd_data n) = fms_start_address (nd_data m)
                          then (case res_bind (store_next h curr_mem_seg (nd_next m)) (\<lambda>h1.
                                     res_bind (store_data h1 curr_mem_seg
                                       (\<lambda>seg. seg\<lparr>fms_size := fms_size seg + fms_size (nd_data m)\<rparr>)) (\<lambda>h2.
                                     free_node h2 (nd_next n))) of
                                  Inl e \<Rightarrow> Some (Inl e)
                                | Inr h' \<Rightarrow> consolidate_ptr h' curr_mem_seg)
                          else consolidate_ptr h (nd_next n))))))"

declare consolidate_ptr.simps [code]

definition new_free_memory_segments_list_ptr :: "(free_memory_segment_t heap \<Rightarrow> node_addr) \<Rightarrow> int \<Rightarrow> free_memory_segment_t heap \<Rightarrow> segs_ptr" where
  "new_free_memory_segments_list_ptr malloc sz h =
     (let a = malloc h in
      (h(a \<mapsto> \<lparr>nd_data = \<lparr>fms_start_address = sz, fms_size = sz\<rparr>, nd_next = None\<rparr>), Some a))"

definition add_new_free_memory_segment_ptr ::
  "(free_memory_segment_t heap \<Rightarrow> node_addr) \<Rightarrow> int \<Rightarrow> int \<Rightarrow> segs_ptr \<Rightarrow> segs_ptr res option" where
  "add_new_free_memory_segment_ptr malloc start_address sz segs =
     (case segs of (h, head) \<Rightarrow>
        let mem_seg = malloc h;
            h1 = h(mem_seg \<mapsto> \<lparr>nd_data = \<lparr>fms_start_address = start_address, fms_size = sz\<rparr>, nd_next = None\<rparr>)
        in then_do (insert_node (\<lambda>curr_mem_seg. start_address \<ge> fms_start_address curr_mem_seg) mem_seg h1 head)
             (\<lambda>(h2, head2). then_do (consolidate_ptr h2 head2) (\<lambda>h3. Some (Inr (h3, head2)))))"

text \<open>
  The inner loop of \<open>swap_in_process_memory\<close>: the address that the process gets, if there is
  a hole for it.
\<close>

definition occupy_ptr :: "int \<Rightarrow> segs_ptr \<Rightarrow> (int option \<times> segs_ptr) res option" where
  "occupy_ptr sz segs =
     (case segs of (h, head) \<Rightarrow>
        then_do (find_loop (\<lambda>curr_mem_seg. sz \<le> fms_size curr_mem_seg) h None head) (\<lambda>(prev, cur).
          Some (if cur = None then Inr (None, h, head)
                else res_bind (load_node h cur) (\<lambda>n.
                     let start = fms_start_address (nd_data n); left = fms_size (nd_data n) - sz in
                     res_bind (store_data h cur (\<lambda>seg. seg\<lparr>fms_start_address := start - sz, fms_size := left\<rparr>)) (\<lambda>h1.
                     if left = 0
                     then res_bind (unlink_node prev cur h1 head) (\<lambda>(h2, head2).
                          res_bind (free_node h2 cur) (\<lambda>h3. Inr (Some start, h3, head2)))
                     else Inr (Some start, h1, head))))))"

section \<open>Process memories\<close>

partial_function (option) last_loop :: "'a heap \<Rightarrow> node_addr option \<Rightarrow> node_addr option \<Rightarrow> node_addr option res option" where
  "last_loop h curr_proc_mem next_proc_mem =
     (case next_proc_mem of
        None \<Rightarrow> Some (Inr curr_proc_mem)
      | Some _ \<Rightarrow>
          (case load_node h next_proc_mem of
             Inl e \<Rightarrow> Some (Inl e)
           | Inr n \<Rightarrow> last_loop h next_proc_mem (nd_next n)))"

declare last_loop.simps [code]

definition add_process_memory_ptr :: "node_addr \<Rightarrow> procs_ptr \<Rightarrow> procs_ptr res option" where
  "add_process_memory_ptr new_proc_mem procs =
     (case procs of (h, head) \<Rightarrow>
        if head = None then Some (Inr (h, Some new_proc_mem))
        else then_do (Some (load_node h head)) (\<lambda>n.
             then_do (last_loop h head (nd_next n)) (\<lambda>curr_proc_mem.
               Some (res_bind (store_next h curr_proc_mem (Some new_proc_mem)) (\<lambda>h'. Inr (h', head))))))"

definition get_process_memory_ptr :: "int \<Rightarrow> procs_ptr \<Rightarrow> node_addr option res option" where
  "get_process_memory_ptr process_id procs =
     then_do (find_loop (\<lambda>proc_mem. pm_process_id proc_mem = process_id) (fst procs) None (snd procs))
       (\<lambda>(prev, proc_mem). Some (Inr proc_mem))"

definition remove_process_memory_ptr ::
  "(free_memory_segment_t heap \<Rightarrow> node_addr) \<Rightarrow> int \<Rightarrow> procs_ptr \<Rightarrow> segs_ptr
    \<Rightarrow> (int \<times> procs_ptr \<times> segs_ptr) res option" where
  "remove_process_memory_ptr malloc process_id procs segs =
     (case procs of (h, head) \<Rightarrow>
        then_do (find_loop (\<lambda>proc_mem. pm_process_id proc_mem = process_id) h None head) (\<lambda>(prev, cur).
          if cur = None then Some (Inr (0, (h, head), segs))
          else then_do (Some (unlink_node prev cur h head)) (\<lambda>(h1, head1).
               then_do (Some (load_node h1 cur)) (\<lambda>n.
               then_do (if is_process_memory_in_disk (nd_data n) then Some (Inr segs)
                        else add_new_free_memory_segment_ptr malloc (pm_start_address (nd_data n)) (pm_size (nd_data n)) segs)
                 (\<lambda>segs'. then_do (Some (free_node h1 cur)) (\<lambda>h2. Some (Inr (1, (h2, head1), segs'))))))))"

section \<open>Swapping\<close>

partial_function (option) scan_ptr ::
  "process_memory_t heap \<Rightarrow> node_addr option \<Rightarrow> node_addr option \<Rightarrow> node_addr option res option" where
  "scan_ptr h swap_out_proc_mem proc_mem =
     (case proc_mem of
        None \<Rightarrow> Some (Inr swap_out_proc_mem)
      | Some _ \<Rightarrow>
          (case load_node h proc_mem of
             Inl e \<Rightarrow> Some (Inl e)
           | Inr n \<Rightarrow>
               (if is_process_memory_in_disk (nd_data n) then scan_ptr h swap_out_proc_mem (nd_next n)
                else (case load_node h swap_out_proc_mem of
                        Inl e \<Rightarrow> Some (Inl e)
                      | Inr v \<Rightarrow>
                          (if pm_size (nd_data n) > pm_size (nd_data v) \<or>
                              pm_size (nd_data n) = pm_size (nd_data v) \<and>
                              pm_swap_in_time (nd_data n) \<le> pm_swap_in_time (nd_data v)
                           then scan_ptr h proc_mem (nd_next n)
                           else scan_ptr h swap_out_proc_mem (nd_next n))))))"

declare scan_ptr.simps [code]

text \<open>Giving the memory of a process back and marking it as being on disk.\<close>

definition give_back_ptr ::
  "(free_memory_segment_t heap \<Rightarrow> node_addr) \<Rightarrow> node_addr option \<Rightarrow> procs_ptr \<Rightarrow> segs_ptr
    \<Rightarrow> (procs_ptr \<times> segs_ptr) res option" where
  "give_back_ptr malloc proc_mem procs segs =
     then_do (Some (load_node (fst procs) proc_mem)) (\<lambda>n.
     then_do (add_new_free_memory_segment_ptr malloc (pm_start_address (nd_data n)) (pm_size (nd_data n)) segs) (\<lambda>segs'.
     then_do (Some (store_data (fst procs) proc_mem set_in_disk)) (\<lambda>h. Some (Inr ((h, snd procs), segs')))))"

definition swap_out_process_memory_ptr ::
  "(free_memory_segment_t heap \<Rightarrow> node_addr) \<Rightarrow> procs_ptr \<Rightarrow> segs_ptr \<Rightarrow> (procs_ptr \<times> segs_ptr) res option" where
  "swap_out_process_memory_ptr malloc procs segs =
     then_do (find_loop (\<lambda>proc_mem. \<not> is_process_memory_in_disk proc_mem) (fst procs) None (snd procs)) (\<lambda>(prev, proc_mem).
       if proc_mem = None then Some (Inl UninitRead)
       else then_do (scan_ptr (fst procs) proc_mem proc_mem) (\<lambda>swap_out_proc_mem.
              give_back_ptr malloc swap_out_proc_mem procs segs))"

definition swap_out_by_process_memory_ptr ::
  "(free_memory_segment_t heap \<Rightarrow> node_addr) \<Rightarrow> node_addr \<Rightarrow> procs_ptr \<Rightarrow> segs_ptr \<Rightarrow> (procs_ptr \<times> segs_ptr) res option" where
  "swap_out_by_process_memory_ptr malloc proc_mem procs segs =
     then_do (Some (load_node (fst procs) (Some proc_mem))) (\<lambda>n.
       if is_process_memory_in_disk (nd_data n) then Some (Inr (procs, segs))
       else give_back_ptr malloc (Some proc_mem) procs segs)"

partial_function (option) swap_in_process_memory_ptr ::
  "(free_memory_segment_t heap \<Rightarrow> node_addr) \<Rightarrow> node_addr \<Rightarrow> int \<Rightarrow> procs_ptr \<Rightarrow> segs_ptr
    \<Rightarrow> (procs_ptr \<times> segs_ptr) res option" where
  "swap_in_process_memory_ptr malloc proc_mem time procs segs =
     (case load_node (fst procs) (Some proc_mem) of
        Inl e \<Rightarrow> Some (Inl e)
      | Inr n \<Rightarrow>
          (if is_process_memory_in_disk (nd_data n)
           then (case occupy_ptr (pm_size (nd_data n)) segs of
                   None \<Rightarrow> None
                 | Some (Inl e) \<Rightarrow> Some (Inl e)
                 | Some (Inr (Some start, segs')) \<Rightarrow>
                     Some (res_bind (store_data (fst procs) (Some proc_mem)
                         (\<lambda>pm. pm\<lparr>pm_start_address := start, pm_swap_in_time := time\<rparr>)) (\<lambda>h.
                       Inr ((h, snd procs), segs')))
                 | Some (Inr (None, segs')) \<Rightarrow>
                     (case swap_out_process_memory_ptr malloc procs segs' of
                        None \<Rightarrow> None
                      | Some (Inl e) \<Rightarrow> Some (Inl e)
                      | Some (Inr (procs', segs'')) \<Rightarrow>
                          swap_in_process_memory_ptr malloc proc_mem time procs' segs''))
           else Some (Inr (procs, segs))))"

declare swap_in_process_memory_ptr.simps [code]

section \<open>Freeing\<close>

definition free_process_memories_list_ptr :: "procs_ptr \<Rightarrow> process_memory_t heap res option" where
  "free_process_memories_list_ptr procs = free_loop (fst procs) (snd procs)"

definition free_free_memory_segments_list_ptr :: "segs_ptr \<Rightarrow> free_memory_segment_t heap res option" where
  "free_free_memory_segments_list_ptr segs = free_loop (fst segs) (snd segs)"

lemma free_ptr_owns:
  "owns rest l procs \<Longrightarrow> free_process_memories_list_ptr procs = Some (Inr rest)"
  "owns restS lS segs \<Longrightarrow> free_free_memory_segments_list_ptr segs = Some (Inr restS)"
  by (cases procs; cases segs; simp add: free_process_memories_list_ptr_def free_free_memory_segments_list_ptr_def
      owns_free del: owns.simps)+

section \<open>The list of holes\<close>

lemma new_free_memory_segments_list_ptr_owns:
  assumes "h (malloc h) = None"
  shows "owns h [(malloc h, \<lparr>fms_start_address = sz, fms_size = sz\<rparr>)] (new_free_memory_segments_list_ptr malloc sz h)"
  unfolding new_free_memory_segments_list_ptr_def Let_def
  by (rule ownsI) (use assms in \<open>auto simp: holds_part\<close>)

lemma consolidate_ptr_owns:
  assumes "owns rest (k @ l) (h, p)"
  shows "\<exists>h' l'. consolidate_ptr h (first_addr l) = Some (Inr h') \<and> owns rest (k @ l') (h', p) \<and>
    map snd l' = consolidate_free_memory_segments_list (map snd l)"
  using assms
proof (induction "length l" arbitrary: k l h rule: less_induct)
  case less
  show ?case
  proof (cases l)
    case Nil
    then show ?thesis using less.prems by (subst consolidate_ptr.simps) auto
  next
    case (Cons e r)
    obtain a x where e: "e = (a, x)" by (cases e)
    have own: "owns rest (k @ (a, x) # r) (h, p)" using less.prems by (simp add: Cons e)
    obtain n where n: "h a = Some n" "nd_data n = x" "nd_next n = first_addr r" using owns_next [OF own] .
    show ?thesis
    proof (cases r)
      case Nil
      then show ?thesis using n own by (subst consolidate_ptr.simps) (auto simp: Cons e)
    next
      case (Cons f t)
      obtain b y where f: "f = (b, y)" by (cases f)
      have own2: "owns rest ((k @ [(a, x)]) @ (b, y) # t) (h, p)" using own by (simp add: Cons f)
      obtain m where m: "h b = Some m" "nd_data m = y" "nd_next m = first_addr t" using owns_next [OF own2] .
      show ?thesis
      proof (cases "get_free_memory_segment_end_address x = fms_start_address y")
        case False
        from less.hyps [OF _ own2 [unfolded Cons f [symmetric]]] have ih: "\<exists>h' l'. consolidate_ptr h (first_addr r) = Some (Inr h') \<and>
            owns rest ((k @ [(a, x)]) @ l') (h', p) \<and> map snd l' = consolidate_free_memory_segments_list (map snd r)"
          using \<open>l = e # r\<close> by (simp add: Cons f)
        then obtain h' l' where h': "consolidate_ptr h (first_addr r) = Some (Inr h')"
            "owns rest (k @ (a, x) # l') (h', p)" "map snd l' = consolidate_free_memory_segments_list (map snd r)" by auto
        have "consolidate_ptr h (first_addr l) = consolidate_ptr h (first_addr r)"
          using n m False by (subst consolidate_ptr.simps) (simp add: \<open>l = e # r\<close> e Cons f)
        with h' False show ?thesis
          by (intro exI [of _ h'] exI [of _ "(a, x) # l'"]) (simp add: \<open>l = e # r\<close> e Cons f)
      next
        case True
        let ?f = "\<lambda>seg. seg\<lparr>fms_size := fms_size seg + fms_size y\<rparr>"
        have own3: "owns rest (k @ (a, x) # (b, y) # t) (h, p)" using own by (simp add: Cons f)
        obtain h1 where h1: "res_bind (store_next h (Some a) (nd_next m)) (\<lambda>h1.
              res_bind (store_data h1 (Some a) ?f) (\<lambda>h2. free_node h2 (Some b))) = Inr h1"
            "owns rest (k @ (a, ?f x) # t) (h1, p)" using owns_swallow [OF own3 m(1)] by blast
        have "consolidate_ptr h (first_addr l) = consolidate_ptr h1 (Some a)"
          using n m True h1(1) by (subst consolidate_ptr.simps) (simp add: \<open>l = e # r\<close> e Cons f)
        moreover from less.hyps [OF _ h1(2)] obtain h' l' where
          "consolidate_ptr h1 (Some a) = Some (Inr h')" "owns rest (k @ l') (h', p)"
          "map snd l' = consolidate_free_memory_segments_list (?f x # map snd t)"
          by (auto simp: \<open>l = e # r\<close> e Cons f)
        ultimately show ?thesis using True by (auto simp: \<open>l = e # r\<close> e Cons f)
      qed
    qed
  qed
qed

lemma insert_free_memory_segment_split:
  fixes l :: "(node_addr \<times> free_memory_segment_t) list" and seg :: free_memory_segment_t
  defines "test \<equiv> \<lambda>curr_seg. fms_start_address seg \<ge> fms_start_address curr_seg"
  shows "insert_free_memory_segment seg (map snd l) = map snd (before test l) @ seg # map snd (after test l)"
  unfolding test_def by (induction l) auto

lemma add_new_free_memory_segment_ptr_owns:
  assumes own: "owns rest l segs" and malloc: "malloc_ok malloc" and fin: "finite (dom rest)"
  shows "\<exists>segs' l'. add_new_free_memory_segment_ptr malloc start sz segs = Some (Inr segs') \<and> owns rest l' segs' \<and>
    map snd l' = add_new_free_memory_segment_to_free_memory_segments_list start sz (map snd l)"
proof -
  obtain h head where segs: "segs = (h, head)" by (cases segs)
  define a where "a = malloc h"
  define seg where "seg = \<lparr>fms_start_address = start, fms_size = sz\<rparr>"
  define test where "test = (\<lambda>curr_mem_seg :: free_memory_segment_t. start \<ge> fms_start_address curr_mem_seg)"
  let ?n = "\<lparr>nd_data = seg, nd_next = None\<rparr>"
  have own0: "owns rest l (h, head)" using own segs by simp
  have "h a = None" using malloc owns_finite [OF own0 fin] by (simp add: malloc_ok_def a_def)
  note own1 = owns_allocate(1) [OF own0 this, of ?n] and fresh = owns_allocate(2) [OF own0 this]
  have "(rest(a \<mapsto> ?n)) a = Some ?n" by simp
  from owns_insert [OF own1 this, of test] obtain h2 head2 where
    ins: "insert_node test a (h(a \<mapsto> ?n)) head = Some (Inr (h2, head2))" and
    own2: "owns ((rest(a \<mapsto> ?n))(a := None)) (before test l @ (a, seg) # after test l) (h2, head2)"
    by (metis node.select_convs surj_pair)
  let ?l = "before test l @ (a, seg) # after test l"
  have "(rest(a \<mapsto> ?n))(a := None) = rest" using fresh by auto
  with own2 have own3: "owns rest ([] @ ?l) (h2, head2)" by simp
  then have head2: "head2 = first_addr ?l" using holds_first [of h2 head2 ?l] by simp
  obtain h3 l' where con: "consolidate_ptr h2 (first_addr ?l) = Some (Inr h3)" "owns rest ([] @ l') (h3, head2)"
    "map snd l' = consolidate_free_memory_segments_list (map snd ?l)" using consolidate_ptr_owns [OF own3] by blast
  have "add_new_free_memory_segment_ptr malloc start sz segs = Some (Inr (h3, head2))"
    using ins con(1) unfolding test_def seg_def a_def
    by (simp add: add_new_free_memory_segment_ptr_def segs Let_def head2 [unfolded test_def seg_def a_def])
  moreover have "map snd l' = add_new_free_memory_segment_to_free_memory_segments_list start sz (map snd l)"
    using con(3) insert_free_memory_segment_split [of seg l]
    by (simp add: add_new_free_memory_segment_to_free_memory_segments_list_def seg_def test_def)
  moreover have "owns rest l' (h3, head2)" using con(2) by simp
  ultimately show ?thesis by blast
qed

lemma first_fit_split:
  fixes l :: "(node_addr \<times> free_memory_segment_t) list" and sz :: int
  defines "test \<equiv> \<lambda>seg. sz \<le> fms_size seg"
  shows "first_fit sz (map snd l) =
    (case after test l of
       [] \<Rightarrow> None
     | (a, x) # r \<Rightarrow>
         Some (fms_start_address x, map snd (before test l) @
           (if fms_size x - sz = 0 then []
            else [x\<lparr>fms_start_address := fms_start_address x - sz, fms_size := fms_size x - sz\<rparr>]) @ map snd r))"
  unfolding test_def
proof (induction l)
  case Nil
  then show ?case by simp
next
  case (Cons e l)
  then show ?case
    by (cases e; cases "dropWhile (\<lambda>e. \<not> sz \<le> fms_size (snd e)) l")
      (auto simp: Let_def simp del: dropWhile_eq_Nil_conv)
qed

lemma occupy_ptr_owns:
  assumes own: "owns rest l segs"
  shows "case first_fit sz (map snd l) of
      None \<Rightarrow> occupy_ptr sz segs = Some (Inr (None, segs))
    | Some (start, new) \<Rightarrow> \<exists>segs' l'. occupy_ptr sz segs = Some (Inr (Some start, segs')) \<and> owns rest l' segs' \<and> map snd l' = new"
proof -
  obtain h head where segs: "segs = (h, head)" by (cases segs)
  let ?test = "\<lambda>seg :: free_memory_segment_t. sz \<le> fms_size seg"
  have own0: "owns rest l (h, head)" using own segs by simp
  note find = owns_find [OF own0, of ?test]
  show ?thesis
  proof (cases "after ?test l")
    case Nil
    then show ?thesis using find unfolding first_fit_split occupy_ptr_def segs by (simp del: dropWhile_eq_Nil_conv)
  next
    case (Cons e r)
    obtain a x where e: "e = (a, x)" by (cases e)
    let ?k = "before ?test l"
    let ?f = "\<lambda>seg :: free_memory_segment_t. seg\<lparr>fms_start_address := fms_start_address x - sz, fms_size := fms_size x - sz\<rparr>"
    have "l = ?k @ (a, x) # r" using takeWhile_dropWhile_id [of "\<lambda>e. \<not> ?test (snd e)" l] Cons e by simp
    with own0 have own1: "owns rest (?k @ (a, x) # r) (h, head)" by simp
    obtain n where n: "h a = Some n" "nd_data n = x" "nd_next n = first_addr r" by (rule owns_next [OF own1])
    obtain h1 where h1: "store_data h (Some a) ?f = Inr h1" "owns rest (?k @ (a, ?f x) # r) (h1, head)"
      by (rule owns_store_mid [OF own1])
    show ?thesis
    proof (cases "fms_size x - sz = 0")
      case True
      obtain h2 head2 m h3 where rem: "unlink_node (last_addr None ?k) (Some a) h1 head = Inr (h2, head2)"
        "h2 a = Some m" "nd_data m = ?f x" "free_node h2 (Some a) = Inr h3" "owns rest (?k @ r) (h3, head2)"
        by (rule owns_remove [OF h1(2)])
      have "occupy_ptr sz segs = Some (Inr (Some (fms_start_address x), h3, head2))"
        using find n(1,2) h1(1) rem(1,4) True by (simp add: occupy_ptr_def segs Cons e Let_def)
      with rem(5) True show ?thesis unfolding first_fit_split Cons e by auto
    next
      case False
      have "occupy_ptr sz segs = Some (Inr (Some (fms_start_address x), h1, head))"
        using find n(1,2) h1(1) False by (simp add: occupy_ptr_def segs Cons e Let_def)
      with h1(2) False show ?thesis unfolding first_fit_split Cons e
        by (auto intro!: exI [of _ "?k @ (a, ?f x) # r"] simp del: owns.simps)
    qed
  qed
qed

section \<open>The list of process memories\<close>

lemma last_loop_owns:
  "owns rest (k @ (a, x) # r) (h, p) \<Longrightarrow> last_loop h (Some a) (first_addr r) = Some (Inr (last_addr (Some a) r))"
proof (induction r arbitrary: k a x)
  case Nil
  then show ?case by (subst last_loop.simps) simp
next
  case (Cons e r)
  obtain b y where e: "e = (b, y)" by (cases e)
  have own: "owns rest ((k @ [(a, x)]) @ (b, y) # r) (h, p)" using Cons.prems by (simp add: e)
  obtain n where "h b = Some n" "nd_data n = y" "nd_next n = first_addr r" by (rule owns_next [OF own])
  with Cons.IH [OF own] show ?case by (subst last_loop.simps) (simp add: e)
qed

text \<open>The walk to the end is an insertion that never finds a place before a node.\<close>

lemma add_process_memory_ptr_insert:
  assumes own: "owns rest l (h, head)" and node: "rest a = Some n" "nd_next n = None"
  shows "add_process_memory_ptr a (h, head) = insert_node (\<lambda>_. False) a h head"
proof (cases l)
  case Nil
  then have "head = None" using own by simp
  then show ?thesis by (simp add: add_process_memory_ptr_def insert_node_def)
next
  case (Cons e r)
  obtain b x where e: "e = (b, x)" by (cases e)
  have own1: "owns rest ([] @ (b, x) # r) (h, head)" using own by (simp add: Cons e)
  have head: "head = Some b" using own holds_first [of h head l] by (simp add: Cons e)
  obtain m where m: "h b = Some m" "nd_data m = x" "nd_next m = first_addr r" by (rule owns_next [OF own1])
  have a: "a \<notin> addrs l" "h a = Some n" using owns_rest [OF own, of a] node(1) by (auto split: if_splits)
  obtain k c y where snoc: "l = k @ (c, y) # []" using Cons by (metis append_butlast_last_id list.distinct(1) surj_pair)
  have own2: "owns rest (k @ (c, y) # []) (h, head)" using own snoc by simp
  obtain d where d: "h c = Some d" by (rule owns_next [OF own2])
  have last: "last_addr None l = Some c" "last_addr (Some b) r = Some c"
    using snoc by (simp, metis Cons e last_addr_simps(2,3))
  have find: "find_loop (\<lambda>_. False) h None head = Some (Inr (Some c, None))"
    using owns_find [OF own, of "\<lambda>_. False"] last(1) by simp
  have "(h(c \<mapsto> d\<lparr>nd_next := Some a\<rparr>))(a \<mapsto> n\<lparr>nd_next := None\<rparr>) = h(c \<mapsto> d\<lparr>nd_next := Some a\<rparr>)"
    using a node(2) by (auto simp: snoc fun_eq_iff)
  moreover have "a \<noteq> c" using a(1) by (auto simp: snoc)
  ultimately have "insert_node (\<lambda>_. False) a h head = Some (Inr (h(c \<mapsto> d\<lparr>nd_next := Some a\<rparr>), head))"
    using find d a(2) head by (simp add: insert_node_def)
  moreover have "add_process_memory_ptr a (h, head) = Some (Inr (h(c \<mapsto> d\<lparr>nd_next := Some a\<rparr>), head))"
    using last_loop_owns [OF own1] last(2) m head d by (simp add: add_process_memory_ptr_def)
  ultimately show ?thesis by simp
qed

lemma add_process_memory_list: "add_process_memory_to_process_memories_list p l = l @ [p]"
  by (induction l) auto

lemma add_process_memory_ptr_owns:
  assumes own: "owns rest l procs" and node: "rest a = Some n" "nd_next n = None"
  shows "\<exists>procs'. add_process_memory_ptr a procs = Some (Inr procs') \<and>
    owns (rest(a := None)) (add_process_memory_to_process_memories_list (a, nd_data n) l) procs'"
proof -
  obtain h head where procs: "procs = (h, head)" by (cases procs)
  have own0: "owns rest l (h, head)" using own procs by simp
  obtain hp where "insert_node (\<lambda>_. False) a h head = Some (Inr hp)"
    "owns (rest(a := None)) (before (\<lambda>_. False) l @ (a, nd_data n) # after (\<lambda>_. False) l) hp"
    using owns_insert [OF own0 node(1), of "\<lambda>_. False"] node(2) by auto
  then show ?thesis
    using add_process_memory_ptr_insert [OF own0 node] by (auto simp: procs add_process_memory_list)
qed

lemma get_process_memory_ptr_owns:
  assumes "owns rest l procs"
  shows "get_process_memory_ptr process_id procs = Some (Inr (get_process_memory_by_process_id process_id l))"
proof -
  obtain h head where procs: "procs = (h, head)" by (cases procs)
  have "get_process_memory_by_process_id process_id l = first_addr (after (\<lambda>pm. pm_process_id pm = process_id) l)"
    by (induction l) (auto simp: split_paired_all)
  with owns_find [of rest l h head] assms show ?thesis by (simp add: get_process_memory_ptr_def procs)
qed

lemma remove_process_memory_found:
  fixes l :: process_memories_list_t and process_id :: int
  defines "test \<equiv> \<lambda>pm. pm_process_id pm = process_id"
  shows "remove_process_memory_by_process_id process_id l segs =
    (case after test l of
       [] \<Rightarrow> (0, l, segs)
     | (a, x) # r \<Rightarrow>
         (1, before test l @ r,
          if is_process_memory_in_disk x then segs
          else add_new_free_memory_segment_to_free_memory_segments_list (pm_start_address x) (pm_size x) segs))"
  unfolding test_def
proof (induction l)
  case Nil
  then show ?case by simp
next
  case (Cons e l)
  then show ?case
    by (cases e; cases "dropWhile (\<lambda>e. pm_process_id (snd e) \<noteq> process_id) l")
      (auto simp del: dropWhile_eq_Nil_conv)
qed

lemma remove_process_memory_ptr_owns:
  assumes own: "owns rest l procs" and segs: "owns restS lS segs" and malloc: "malloc_ok malloc" "finite (dom restS)"
  shows "case remove_process_memory_by_process_id process_id l (map snd lS) of (result, l', new) \<Rightarrow>
    \<exists>procs' segs' lS'. remove_process_memory_ptr malloc process_id procs segs = Some (Inr (result, procs', segs')) \<and>
      owns rest l' procs' \<and> owns restS lS' segs' \<and> map snd lS' = new"
proof -
  obtain h head where procs: "procs = (h, head)" by (cases procs)
  let ?test = "\<lambda>pm. pm_process_id pm = process_id"
  have own0: "owns rest l (h, head)" using own procs by simp
  note find = owns_find [OF own0, of ?test]
  show ?thesis
  proof (cases "after ?test l")
    case Nil
    then have "remove_process_memory_ptr malloc process_id procs segs = Some (Inr (0, (h, head), segs))"
      using find by (simp add: remove_process_memory_ptr_def procs del: dropWhile_eq_Nil_conv)
    with own0 segs show ?thesis unfolding remove_process_memory_found Nil by auto
  next
    case (Cons e r)
    obtain a x where e: "e = (a, x)" by (cases e)
    let ?k = "before ?test l"
    have "l = ?k @ (a, x) # r" using takeWhile_dropWhile_id [of "\<lambda>e. \<not> ?test (snd e)" l] Cons e by simp
    with own0 have own1: "owns rest (?k @ (a, x) # r) (h, head)" by simp
    obtain h1 head1 n h2 where rem: "unlink_node (last_addr None ?k) (Some a) h head = Inr (h1, head1)"
      "h1 a = Some n" "nd_data n = x" "free_node h1 (Some a) = Inr h2" "owns rest (?k @ r) (h2, head1)"
      by (rule owns_remove [OF own1])
    let ?add = "if is_process_memory_in_disk x then Some (Inr segs)
      else add_new_free_memory_segment_ptr malloc (pm_start_address x) (pm_size x) segs"
    obtain segs' lS' where add: "?add = Some (Inr segs')" "owns restS lS' segs'"
      "map snd lS' = (if is_process_memory_in_disk x then map snd lS
        else add_new_free_memory_segment_to_free_memory_segments_list (pm_start_address x) (pm_size x) (map snd lS))"
      using add_new_free_memory_segment_ptr_owns [OF segs malloc, of "pm_start_address x" "pm_size x"] segs
      by (cases "is_process_memory_in_disk x") auto
    have "remove_process_memory_ptr malloc process_id procs segs = Some (Inr (1, (h2, head1), segs'))"
      using find rem(1-4) add(1) by (auto simp: remove_process_memory_ptr_def procs Cons e split: if_splits)
    with rem(5) add(2,3) show ?thesis unfolding remove_process_memory_found Cons e by auto
  qed
qed

section \<open>Swapping\<close>

lemma scan_ptr_part:
  assumes "part h p l None" and "h v = Some n"
  shows "\<exists>w m. scan_ptr h (Some v) p = Some (Inr (Some w)) \<and> h w = Some m \<and> scan_swap_out (v, nd_data n) l = (w, nd_data m)"
  using assms
proof (induction l arbitrary: p v n)
  case Nil
  then show ?case by (subst scan_ptr.simps) simp
next
  case (Cons e l)
  obtain a x where e: "e = (a, x)" by (cases e)
  with Cons.prems(1) obtain m where m: "p = Some a" "h a = Some m" "nd_data m = x" "part h (nd_next m) l None" by auto
  show ?case
    using Cons.IH [OF m(4) m(2)] Cons.IH [OF m(4) Cons.prems(2)] m Cons.prems(2)
    by (subst scan_ptr.simps) (auto simp: e)
qed

lemma give_back_ptr_owns:
  assumes own: "owns rest l procs" and a: "map_of l a = Some x" and segs: "owns restS lS segs"
    and malloc: "malloc_ok malloc" "finite (dom restS)"
  shows "\<exists>procs' segs' lS'. give_back_ptr malloc (Some a) procs segs = Some (Inr (procs', segs')) \<and>
    owns rest (upd_at a set_in_disk l) procs' \<and> owns restS lS' segs' \<and>
    map snd lS' = add_new_free_memory_segment_to_free_memory_segments_list (pm_start_address x) (pm_size x) (map snd lS)"
proof -
  obtain h head where procs: "procs = (h, head)" by (cases procs)
  have own0: "owns rest l (h, head)" using own procs by simp
  obtain n where n: "h a = Some n" "nd_data n = x" by (rule owns_load [OF own0 a])
  obtain h' where h': "store_data h (Some a) set_in_disk = Inr h'" "owns rest (upd_at a set_in_disk l) (h', head)"
    by (rule owns_store_data [OF own0 a])
  obtain segs' lS' where add: "add_new_free_memory_segment_ptr malloc (pm_start_address x) (pm_size x) segs = Some (Inr segs')"
    "owns restS lS' segs'"
    "map snd lS' = add_new_free_memory_segment_to_free_memory_segments_list (pm_start_address x) (pm_size x) (map snd lS)"
    using add_new_free_memory_segment_ptr_owns [OF segs malloc, of "pm_start_address x" "pm_size x"] by blast
  have "give_back_ptr malloc (Some a) procs segs = Some (Inr ((h', head), segs'))"
    using n h'(1) add(1) by (simp add: give_back_ptr_def procs)
  with h'(2) add(2,3) show ?thesis by blast
qed

text \<open>
  The pointer version of a step agrees with the list version: the same error, or states that
  own the new lists.
\<close>

definition refines ::
  "process_memory_t heap \<Rightarrow> free_memory_segment_t heap \<Rightarrow> (procs_ptr \<times> segs_ptr) res option
    \<Rightarrow> (process_memories_list_t \<times> free_memory_segments_list_t) res \<Rightarrow> bool" where
  "refines rest restS r model \<longleftrightarrow>
     (case model of
        Inl e \<Rightarrow> r = Some (Inl e)
      | Inr (l', new) \<Rightarrow>
          \<exists>procs' segs' lS'. r = Some (Inr (procs', segs')) \<and> owns rest l' procs' \<and> owns restS lS' segs' \<and> map snd lS' = new)"

lemma swap_out_process_memory_ptr_refines:
  assumes own: "owns rest l procs" and segs: "owns restS lS segs" and malloc: "malloc_ok malloc" "finite (dom restS)"
  shows "refines rest restS (swap_out_process_memory_ptr malloc procs segs) (swap_out_process_memory l (map snd lS))"
proof -
  obtain h head where procs: "procs = (h, head)" by (cases procs)
  let ?test = "\<lambda>pm. \<not> is_process_memory_in_disk pm"
  have own0: "owns rest l (h, head)" using own procs by simp
  note find = owns_find [OF own0, of ?test]
  show ?thesis
  proof (cases "after ?test l")
    case Nil
    then show ?thesis
      using find by (simp add: swap_out_process_memory_ptr_def swap_out_process_memory_def refines_def procs
          del: dropWhile_eq_Nil_conv)
  next
    case (Cons e r)
    obtain a x where e: "e = (a, x)" by (cases e)
    let ?k = "before ?test l"
    have l: "l = ?k @ (a, x) # r" using takeWhile_dropWhile_id [of "\<lambda>e. \<not> ?test (snd e)" l] unfolding Cons e by (rule sym)
    with own0 have own1: "owns rest (?k @ (a, x) # r) (h, head)" by simp
    then have "holds h head (?k @ (a, x) # r)" by simp
    then obtain n where n: "h a = Some n" "nd_data n = x" "part h (nd_next n) r None" by (rule holds_split)
    from n have "part h (Some a) ((a, x) # r) None" by simp
    from scan_ptr_part [OF this n(1)] obtain w m where
      scan: "scan_ptr h (Some a) (Some a) = Some (Inr (Some w))" "h w = Some m" "scan_swap_out (a, x) ((a, x) # r) = (w, nd_data m)"
      unfolding n(2) by blast
    have "(w, nd_data m) \<in> set l"
      using scan_swap_out_resident [of l "(a, x)" r] Cons e scan(3) by (auto simp: set_resident)
    then have "map_of l w = Some (nd_data m)" using owns_distinct [OF own0] by simp
    from give_back_ptr_owns [OF own this segs malloc] obtain procs' segs' lS' where
      gb: "give_back_ptr malloc (Some w) procs segs = Some (Inr (procs', segs'))"
        "owns rest (upd_at w set_in_disk l) procs'" "owns restS lS' segs'"
        "map snd lS' = add_new_free_memory_segment_to_free_memory_segments_list (pm_start_address (nd_data m)) (pm_size (nd_data m)) (map snd lS)"
      by blast
    have "swap_out_process_memory_ptr malloc procs segs = Some (Inr (procs', segs'))"
      using find [unfolded Cons e] scan(1) gb(1) by (simp add: swap_out_process_memory_ptr_def procs)
    moreover have "swap_out_process_memory l (map snd lS) = Inr (upd_at w set_in_disk l, map snd lS')"
      using Cons scan(3) gb(4) by (simp add: swap_out_process_memory_def e Let_def)
    ultimately show ?thesis unfolding refines_def using gb(2,3) by auto
  qed
qed

lemma swap_out_by_process_memory_ptr_refines:
  assumes own: "owns rest l procs" and a: "map_of l a = Some x" and segs: "owns restS lS segs"
    and malloc: "malloc_ok malloc" "finite (dom restS)"
  shows "refines rest restS (swap_out_by_process_memory_ptr malloc a procs segs)
    (swap_out_process_memory_by_process_memory a l (map snd lS))"
proof -
  obtain h head where procs: "procs = (h, head)" by (cases procs)
  have own0: "owns rest l (h, head)" using own procs by simp
  obtain n where n: "h a = Some n" "nd_data n = x" by (rule owns_load [OF own0 a])
  show ?thesis
    using n a own segs give_back_ptr_owns [OF own a segs malloc]
    by (auto simp: refines_def swap_out_by_process_memory_ptr_def swap_out_process_memory_by_process_memory_def procs
        simp del: owns.simps)
qed

text \<open>The outer loop of \<open>swap_in_process_memory\<close>, by its measure.\<close>

lemma swap_in_process_memory_ptr_refines:
  assumes "owns rest l procs" and "map_of l a \<noteq> None" and "owns restS lS segs"
    and "malloc_ok malloc" and "finite (dom restS)"
  shows "refines rest restS (swap_in_process_memory_ptr malloc a time procs segs)
    (swap_in_process_memory a time l (map snd lS))"
  using assms(1-3)
proof (induction "length (resident l)" arbitrary: l lS procs segs rule: less_induct)
  case less
  obtain h head where procs: "procs = (h, head)" by (cases procs)
  have own0: "owns rest l (h, head)" using less.prems(1) procs by simp
  obtain x where x: "map_of l a = Some x" using less.prems(2) by auto
  obtain n where n: "h a = Some n" "nd_data n = x" by (rule owns_load [OF own0 x])
  note fit = occupy_ptr_owns [OF less.prems(3), of "pm_size x"]
  show ?case
  proof (cases "is_process_memory_in_disk x")
    case False
    with n x less.prems show ?thesis
      by (subst swap_in_process_memory_ptr.simps, subst swap_in_process_memory.simps)
        (auto simp: refines_def procs simp del: owns.simps)
  next
    case disk: True
    show ?thesis
    proof (cases "first_fit (pm_size x) (map snd lS)")
      case (Some fit_result)
      obtain start new where fr: "fit_result = (start, new)" by (cases fit_result)
      from fit obtain segs' lS' where occ: "occupy_ptr (pm_size x) segs = Some (Inr (Some start, segs'))"
        "owns restS lS' segs'" "map snd lS' = new" unfolding Some fr by auto
      let ?f = "\<lambda>pm. pm\<lparr>pm_start_address := start, pm_swap_in_time := time\<rparr>"
      obtain h' where h': "store_data h (Some a) ?f = Inr h'" "owns rest (upd_at a ?f l) (h', head)"
        by (rule owns_store_data [OF own0 x])
      have "swap_in_process_memory_ptr malloc a time procs segs = Some (Inr ((h', head), segs'))"
        using n disk occ(1) h'(1) by (subst swap_in_process_memory_ptr.simps) (simp add: procs)
      moreover have "swap_in_process_memory a time l (map snd lS) = Inr (upd_at a ?f l, new)"
        using x disk Some fr by (subst swap_in_process_memory.simps) simp
      ultimately show ?thesis unfolding refines_def using h'(2) occ(2,3) by auto
    next
      case None
      have occ: "occupy_ptr (pm_size x) segs = Some (Inr (None, segs))" using fit unfolding None by simp
      note out = swap_out_process_memory_ptr_refines [OF less.prems(1,3) assms(4,5)]
      show ?thesis
      proof (cases "swap_out_process_memory l (map snd lS)")
        case (Inl err)
        with out n disk occ x None show ?thesis
          by (subst swap_in_process_memory_ptr.simps, subst swap_in_process_memory.simps)
            (simp add: refines_def procs)
      next
        case (Inr pair)
        obtain l' new where pair: "pair = (l', new)" by (cases pair)
        from out obtain procs' segs' lS' where st: "swap_out_process_memory_ptr malloc procs segs = Some (Inr (procs', segs'))"
          "owns rest l' procs'" "owns restS lS' segs'" "map snd lS' = new" unfolding refines_def Inr pair by auto
        have "length (resident l') < length (resident l)" using swap_out_process_memory_resident Inr pair by blast
        moreover have "map_of l' a \<noteq> None"
          using Inr pair x by (auto simp: swap_out_process_memory_def Let_def map_of_upd_at split: list.splits)
        ultimately have ih: "refines rest restS (swap_in_process_memory_ptr malloc a time procs' segs')
            (swap_in_process_memory a time l' (map snd lS'))" using less.hyps st(2,3) by blast
        have "swap_in_process_memory_ptr malloc a time procs segs = swap_in_process_memory_ptr malloc a time procs' segs'"
          using n disk occ st(1) by (subst swap_in_process_memory_ptr.simps) (simp add: procs)
        moreover have "swap_in_process_memory a time l (map snd lS) = swap_in_process_memory a time l' (map snd lS')"
          using x disk None Inr pair st(4) by (subst swap_in_process_memory.simps) simp
        ultimately show ?thesis using ih by simp
      qed
    qed
  qed
qed

section \<open>Properties\<close>

text \<open>C13: The functions that change the links of the two lists of the memory manager do on the
  represented lists what their models do: adding a hole, with the merging of touching holes,
  adding, finding and removing a process memory, and freeing the lists. They read and
  write no null or freed node, end, free every node that leaves a list and touch no node
  outside the lists.\<close>

theorem memory_lists_pointers_refine:
  assumes procs: "owns rest l procs" and segs: "owns restS lS segs"
    and malloc: "malloc_ok malloc" "finite (dom restS)" and new: "rest a = Some n" "nd_next n = None"
  shows "(\<exists>segs' lS'. add_new_free_memory_segment_ptr malloc start sz segs = Some (Inr segs') \<and> owns restS lS' segs' \<and>
      map snd lS' = add_new_free_memory_segment_to_free_memory_segments_list start sz (map snd lS)) \<and>
    (\<exists>procs'. add_process_memory_ptr a procs = Some (Inr procs') \<and>
      owns (rest(a := None)) (add_process_memory_to_process_memories_list (a, nd_data n) l) procs') \<and>
    get_process_memory_ptr process_id procs = Some (Inr (get_process_memory_by_process_id process_id l)) \<and>
    (case remove_process_memory_by_process_id process_id l (map snd lS) of (result, l', holes) \<Rightarrow>
      \<exists>procs' segs' lS'. remove_process_memory_ptr malloc process_id procs segs = Some (Inr (result, procs', segs')) \<and>
        owns rest l' procs' \<and> owns restS lS' segs' \<and> map snd lS' = holes) \<and>
    free_process_memories_list_ptr procs = Some (Inr rest) \<and> free_free_memory_segments_list_ptr segs = Some (Inr restS)"
  by (intro conjI add_new_free_memory_segment_ptr_owns [OF segs malloc] add_process_memory_ptr_owns [OF procs new]
      get_process_memory_ptr_owns [OF procs] remove_process_memory_ptr_owns [OF procs segs malloc]
      free_ptr_owns(1) [OF procs] free_ptr_owns(2) [OF segs])

lemma malloc_least: "malloc_ok (\<lambda>h :: free_memory_segment_t heap. LEAST a. h a = None)"
proof -
  have "h (LEAST a. h a = None) = None" if fin: "finite (dom h)" for h :: "free_memory_segment_t heap"
  proof -
    obtain a where "a \<notin> dom h" using ex_new_if_finite [OF infinite_UNIV_nat fin] by blast
    then have "h a = None" by auto
    then show ?thesis by (rule LeastI)
  qed
  then show ?thesis by (simp add: malloc_ok_def)
qed

text \<open>A process memory on disk in its list, one more that is in no list yet, and a hole of size 50.\<close>

definition demo_procs :: "process_memory_t heap" where
  "demo_procs = [0 \<mapsto> \<lparr>nd_data = new_process_memory 20 7, nd_next = None\<rparr>, 1 \<mapsto> \<lparr>nd_data = new_process_memory 30 8, nd_next = None\<rparr>]"

definition demo_segs :: "free_memory_segment_t heap" where
  "demo_segs = [0 \<mapsto> \<lparr>nd_data = \<lparr>fms_start_address = 50, fms_size = 50\<rparr>, nd_next = None\<rparr>]"

lemma demo_owns:
  "owns [1 \<mapsto> \<lparr>nd_data = new_process_memory 30 8, nd_next = None\<rparr>] [(0, new_process_memory 20 7)] (demo_procs, Some 0)"
  "owns (\<lambda>_. None) [(0, \<lparr>fms_start_address = 50, fms_size = 50\<rparr>)] (demo_segs, Some 0)"
  by (rule ownsI; auto simp: demo_procs_def demo_segs_def holds_part)+

theorem memory_lists_pointers_refine_witness:
  "\<exists>malloc. (\<exists>segs' lS'. add_new_free_memory_segment_ptr malloc 70 20 (demo_segs, Some 0) = Some (Inr segs') \<and>
      owns (\<lambda>_. None) lS' segs' \<and> map snd lS' = [\<lparr>fms_start_address = 70, fms_size = 70\<rparr>]) \<and>
    (\<exists>procs'. add_process_memory_ptr 1 (demo_procs, Some 0) = Some (Inr procs') \<and>
      owns (\<lambda>_. None) [(0, new_process_memory 20 7), (1, new_process_memory 30 8)] procs')"
proof (intro exI)
  have merged: "add_new_free_memory_segment_to_free_memory_segments_list 70 20 [\<lparr>fms_start_address = 50, fms_size = 50\<rparr>] =
      [\<lparr>fms_start_address = 70, fms_size = 70\<rparr>]" by code_simp
  show "(\<exists>segs' lS'. add_new_free_memory_segment_ptr (\<lambda>h. LEAST a. h a = None) 70 20 (demo_segs, Some 0) = Some (Inr segs') \<and>
      owns (\<lambda>_. None) lS' segs' \<and> map snd lS' = [\<lparr>fms_start_address = 70, fms_size = 70\<rparr>]) \<and>
    (\<exists>procs'. add_process_memory_ptr 1 (demo_procs, Some 0) = Some (Inr procs') \<and>
      owns (\<lambda>_. None) [(0, new_process_memory 20 7), (1, new_process_memory 30 8)] procs')"
    using memory_lists_pointers_refine [OF demo_owns malloc_least, of 1 "\<lparr>nd_data = new_process_memory 30 8, nd_next = None\<rparr>" 70 20 7]
      merged by (simp del: owns.simps)
qed

text \<open>Swapping a process memory in or out with the pointers of the code does on the represented
  lists what the models do, errors included: the loop over the holes that shortens or deletes
  one, the search for a process to swap out, and the repetition of both until there is room,
  which ends. No node is leaked, and no null or freed node is used.\<close>

theorem swap_pointers_refine:
  assumes procs: "owns rest l procs" and a: "map_of l a \<noteq> None" and segs: "owns restS lS segs"
    and malloc: "malloc_ok malloc" "finite (dom restS)"
  shows "refines rest restS (swap_in_process_memory_ptr malloc a time procs segs)
      (swap_in_process_memory a time l (map snd lS)) \<and>
    refines rest restS (swap_out_process_memory_ptr malloc procs segs) (swap_out_process_memory l (map snd lS)) \<and>
    refines rest restS (swap_out_by_process_memory_ptr malloc a procs segs)
      (swap_out_process_memory_by_process_memory a l (map snd lS))"
  using swap_in_process_memory_ptr_refines [OF procs a segs malloc] swap_out_process_memory_ptr_refines [OF procs segs malloc]
    a swap_out_by_process_memory_ptr_refines [OF procs _ segs malloc, of a] by auto

theorem swap_pointers_refine_witness:
  "\<exists>malloc procs' segs' lS'. swap_in_process_memory_ptr malloc 0 3 (demo_procs, Some 0) (demo_segs, Some 0) = Some (Inr (procs', segs')) \<and>
    owns [1 \<mapsto> \<lparr>nd_data = new_process_memory 30 8, nd_next = None\<rparr>]
      [(0, \<lparr>pm_start_address = 50, pm_size = 20, pm_swap_in_time = 3, pm_process_id = 7\<rparr>)] procs' \<and>
    owns (\<lambda>_. None) lS' segs' \<and> map snd lS' = [\<lparr>fms_start_address = 30, fms_size = 30\<rparr>]"
proof -
  have run: "swap_in_process_memory 0 3 [(0, new_process_memory 20 7)] (map snd [(0 :: node_addr, \<lparr>fms_start_address = 50, fms_size = 50\<rparr>)]) =
      Inr ([(0, \<lparr>pm_start_address = 50, pm_size = 20, pm_swap_in_time = 3, pm_process_id = 7\<rparr>)],
        [\<lparr>fms_start_address = 30, fms_size = 30\<rparr>])" by code_simp
  have look: "map_of [(0 :: node_addr, new_process_memory 20 7)] 0 \<noteq> None" by simp
  have "finite (dom (\<lambda>_. None :: free_memory_segment_t node option))" by simp
  from swap_pointers_refine [OF demo_owns(1) look demo_owns(2) malloc_least this, of 3, THEN conjunct1]
  show ?thesis unfolding run refines_def sum.case prod.case by (rule exI [of _ "\<lambda>h. LEAST a. h a = None"])
qed

end
