(* ===== verification/Parser_Pointers.thy ===== *)
theory Parser_Pointers
  imports Process_Scheduler Memory_Pointers
begin

text \<open>
  The array of scheduled processes of \<open>project1/process-data-file-parser.c\<close> with its pointers: every
  process is an object of its own, the array has a capacity that grows by \<open>realloc\<close>, its cells
  are unwritten until they are stored to, and a null pointer ends it. Parsing, the reads of
  the scheduler and the freeing at the end are shown to do what the models on lists do.
\<close>

section \<open>The array\<close>

text \<open>A cell of the array has not been written (\<open>None\<close>), or holds a pointer, which may be \<open>NULL\<close>.\<close>

type_synonym sched_heap = "node_addr \<rightharpoonup> scheduled_process_t"

record sched_ptr =
  sd_heap :: sched_heap
  sd_cells :: "node_addr option option list"

record parse_ptr = sched_ptr +
  sd_len :: nat
  sd_max_len :: nat

definition realloc_cells :: "nat \<Rightarrow> 'a option list \<Rightarrow> 'a option list" where
  "realloc_cells n cells = take n cells @ replicate (n - length cells) None"

definition array_write_ptr ::
  "(sched_heap \<Rightarrow> node_addr) \<Rightarrow> scheduled_process_t \<Rightarrow> parse_ptr \<Rightarrow> parse_ptr res" where
  "array_write_ptr malloc p s =
     (let proc = malloc (sd_heap s);
          s1 = s\<lparr>sd_heap := (sd_heap s)(proc \<mapsto> p)\<rparr>;
          max_len = sd_max_len s1 * SCHEDULED_PROCS_MAX_LEN_GROW_FACTOR;
          s2 = (if sd_len s1 = sd_max_len s1
                then s1\<lparr>sd_max_len := max_len, sd_cells := realloc_cells (max_len + 1) (sd_cells s1)\<rparr>
                else s1)
      in res_bind (write_at (sd_cells s2) (sd_len s2) (Some (Some proc))) (\<lambda>cells.
           Inr (s2\<lparr>sd_cells := cells, sd_len := sd_len s2 + 1\<rparr>)))"

function read_lines_ptr ::
  "(sched_heap \<Rightarrow> node_addr) \<Rightarrow> parse_ptr \<Rightarrow> string \<Rightarrow> parse_ptr res" where
  "read_lines_ptr malloc s fp =
     (case fgets LINE_MAX_LEN fp of
        None \<Rightarrow> Inr s
      | Some (line, fp') \<Rightarrow>
          res_bind (parse_line line) (\<lambda>proc.
            case proc of
              None \<Rightarrow> read_lines_ptr malloc s fp'
            | Some p \<Rightarrow> res_bind (array_write_ptr malloc p s) (\<lambda>s'. read_lines_ptr malloc s' fp')))"
  by pat_completeness auto
termination
  by (relation "measure (\<lambda>(malloc, s, fp). length fp)") (auto dest: fgets_less)

declare read_lines_ptr.simps [simp del]

definition parse_process_data_file_ptr ::
  "(sched_heap \<Rightarrow> node_addr) \<Rightarrow> string \<Rightarrow> sched_ptr res" where
  "parse_process_data_file_ptr malloc fp =
     res_bind (read_lines_ptr malloc
       \<lparr>sd_heap = Map.empty, sd_cells = replicate (INITIAL_SCHEDULED_PROCS_MAX_LEN + 1) None,
        sd_len = 0, sd_max_len = INITIAL_SCHEDULED_PROCS_MAX_LEN\<rparr> fp) (\<lambda>s.
     res_bind (write_at (sd_cells s) (sd_len s) (Some None)) (\<lambda>cells.
       Inr \<lparr>sd_heap = sd_heap s, sd_cells = cells\<rparr>))"

text \<open>The pointer \<open>sps[i]\<close>, and the process it points to.\<close>

definition sched_cell :: "sched_ptr \<Rightarrow> nat \<Rightarrow> node_addr option res" where
  "sched_cell st i =
     res_bind (read_at (sd_cells st) i) (\<lambda>cell. case cell of None \<Rightarrow> Inl UninitRead | Some p \<Rightarrow> Inr p)"

definition scheduled_ptr :: "sched_ptr \<Rightarrow> nat \<Rightarrow> scheduled_process_t option res" where
  "scheduled_ptr st i =
     res_bind (sched_cell st i) (\<lambda>p.
       case p of
         None \<Rightarrow> Inr None
       | Some a \<Rightarrow> (case sd_heap st a of None \<Rightarrow> Inl NullDeref | Some sp \<Rightarrow> Inr (Some sp)))"

lemma sched_cell_length: "sched_cell st i = Inr p \<Longrightarrow> i < length (sd_cells st)"
  by (auto simp: sched_cell_def read_at_def split: if_splits)

lemma scheduled_ptr_length: "scheduled_ptr st i = Inr p \<Longrightarrow> i < length (sd_cells st)"
  by (auto simp: scheduled_ptr_def dest: sched_cell_length)

text \<open>The loop of \<open>print_scheduled_processes\<close>, up to the null pointer.\<close>

function print_scheduled_loop :: "sched_ptr \<Rightarrow> nat \<Rightarrow> string res" where
  "print_scheduled_loop st i =
     res_bind (scheduled_ptr st i) (\<lambda>p.
       case p of
         None \<Rightarrow> Inr []
       | Some sp \<Rightarrow>
           res_bind (print_scheduled_loop st (i + 1)) (\<lambda>out.
             Inr ((if i \<noteq> 0 then '','' @ [newline] else []) @ print_scheduled_process sp @ out)))"
  by pat_completeness auto
termination
  by (relation "measure (\<lambda>(st, i). length (sd_cells st) - i)")
    (auto dest!: scheduled_ptr_length)

declare print_scheduled_loop.simps [simp del]

definition print_scheduled_processes_ptr :: "sched_ptr \<Rightarrow> string res" where
  "print_scheduled_processes_ptr st = res_bind (print_scheduled_loop st 0) (\<lambda>out. Inr (''['' @ out @ '']''))"

text \<open>
  The loop of \<open>free_scheduled_processes\<close>: every process is given back, and a pointer that is not
  allocated is an error. The result is the heap that is left when the array itself has been
  given back too.
\<close>

function free_scheduled_loop :: "sched_ptr \<Rightarrow> nat \<Rightarrow> sched_heap res" where
  "free_scheduled_loop st i =
     res_bind (sched_cell st i) (\<lambda>p.
       case p of
         None \<Rightarrow> Inr (sd_heap st)
       | Some a \<Rightarrow>
           (if sd_heap st a = None then Inl NullDeref
            else free_scheduled_loop (st\<lparr>sd_heap := (sd_heap st)(a := None)\<rparr>) (i + 1)))"
  by pat_completeness auto
termination
  by (relation "measure (\<lambda>(st, i). length (sd_cells st) - i)") (auto dest!: sched_cell_length)

declare free_scheduled_loop.simps [simp del]

definition free_scheduled_processes_ptr :: "sched_ptr \<Rightarrow> sched_heap res" where
  "free_scheduled_processes_ptr st = free_scheduled_loop st 0"

section \<open>Represented lists\<close>

definition points_to :: "sched_heap \<Rightarrow> node_addr list \<Rightarrow> scheduled_process_t list \<Rightarrow> bool" where
  "points_to h as sps \<longleftrightarrow> map h as = map Some sps \<and> distinct as \<and> dom h = set as"

definition filling :: "parse_ptr \<Rightarrow> sched_array \<Rightarrow> bool" where
  "filling s arr \<longleftrightarrow> (\<exists>as. points_to (sd_heap s) as (sa_items arr) \<and> take (sd_len s) (sd_cells s) = map (Some \<circ> Some) as) \<and>
     sd_len s = length (sa_items arr) \<and> sd_max_len s = sa_max_len arr \<and>
     length (sd_cells s) = sd_max_len s + 1 \<and> sd_len s \<le> sd_max_len s \<and> 0 < sd_max_len s"

definition stores :: "sched_ptr \<Rightarrow> scheduled_process_t list \<Rightarrow> bool" where
  "stores st sps \<longleftrightarrow> (\<exists>as rest. points_to (sd_heap st) as sps \<and> sd_cells st = map (Some \<circ> Some) as @ Some None # rest)"

lemma points_to_length: "points_to h as sps \<Longrightarrow> length as = length sps"
  unfolding points_to_def by (metis length_map)

lemma points_to_add:
  assumes "points_to h as sps" and "h a = None"
  shows "points_to (h(a \<mapsto> p)) (as @ [a]) (sps @ [p])"
proof -
  have "a \<notin> set as" using assms by (auto simp: points_to_def)
  then have "map (h(a \<mapsto> p)) as = map h as" by simp
  with assms \<open>a \<notin> set as\<close> show ?thesis by (auto simp: points_to_def)
qed

lemma filling_write:
  assumes fill: "filling s arr" and malloc: "malloc_ok malloc"
  obtains s' arr' where "array_write_ptr malloc p s = Inr s'" "array_write arr p = Inr arr'" "filling s' arr'"
proof -
  from fill obtain as where pts: "points_to (sd_heap s) as (sa_items arr)"
    and cells: "take (sd_len s) (sd_cells s) = map (Some \<circ> Some) as"
    and len: "sd_len s = length (sa_items arr)" "sd_max_len s = sa_max_len arr"
      "length (sd_cells s) = sd_max_len s + 1" "sd_len s \<le> sd_max_len s" "0 < sd_max_len s"
    unfolding filling_def by blast
  define a where "a = malloc (sd_heap s)"
  have "finite (dom (sd_heap s))" using pts by (simp add: points_to_def)
  then have "sd_heap s a = None" using malloc by (simp add: malloc_ok_def a_def)
  note pts' = points_to_add [OF pts this, of p]
  define n where "n = (if sd_len s = sd_max_len s then sd_max_len s * SCHEDULED_PROCS_MAX_LEN_GROW_FACTOR else sd_max_len s)"
  define grown where "grown = realloc_cells (n + 1) (sd_cells s)"
  have n: "sd_len s < n" "sd_max_len s \<le> n" using len(4,5) by (auto simp: n_def SCHEDULED_PROCS_MAX_LEN_GROW_FACTOR_def)
  have grown: "length grown = n + 1" "take (sd_len s) grown = map (Some \<circ> Some) as"
    "n = sd_max_len s \<Longrightarrow> grown = sd_cells s"
    using n len(3,4) cells by (auto simp: grown_def realloc_cells_def)
  let ?s = "s\<lparr>sd_heap := (sd_heap s)(a \<mapsto> p), sd_cells := grown[sd_len s := Some (Some a)], sd_max_len := n, sd_len := sd_len s + 1\<rparr>"
  have "array_write_ptr malloc p s = Inr ?s"
  proof (cases "sd_len s = sd_max_len s")
    case True
    then have "sd_max_len s * SCHEDULED_PROCS_MAX_LEN_GROW_FACTOR = n" by (simp add: n_def)
    with True n grown(1) [unfolded grown_def] show ?thesis
      by (simp add: array_write_ptr_def Let_def a_def [symmetric] grown_def)
  next
    case False
    then have "n = sd_max_len s" by (simp add: n_def)
    with False n(1) grown(1,3) show ?thesis by (simp add: array_write_ptr_def Let_def a_def [symmetric])
  qed
  moreover have "array_write arr p = Inr \<lparr>sa_items = sa_items arr @ [p], sa_max_len = n\<rparr>"
    using n len by (cases arr) (auto simp: array_write_def Let_def n_def SCHEDULED_PROCS_MAX_LEN_GROW_FACTOR_def)
  moreover have "filling ?s \<lparr>sa_items = sa_items arr @ [p], sa_max_len = n\<rparr>"
    unfolding filling_def using pts' grown n len(1)
    by (auto intro!: exI [of _ "as @ [a]"] simp: take_Suc_conv_app_nth)
  ultimately show thesis by (rule that)
qed

lemma read_lines_ptr_fills:
  assumes malloc: "malloc_ok malloc"
  shows "filling s arr \<Longrightarrow> rel_sum (=) filling (read_lines_ptr malloc s fp) (read_lines arr fp)"
proof (induction arr fp arbitrary: s rule: read_lines.induct)
  case (1 arr fp)
  show ?case
  proof (cases "fgets LINE_MAX_LEN fp")
    case None
    with 1(3) show ?thesis by (simp add: read_lines_ptr.simps [of malloc s fp] read_lines.simps [of arr fp])
  next
    case (Some x)
    obtain line fp' where x: "x = (line, fp')" by (cases x)
    note unfold = read_lines_ptr.simps [of malloc s fp] read_lines.simps [of arr fp] Some x
    show ?thesis
    proof (cases "parse_line line")
      case (Inl e)
      then show ?thesis by (simp add: unfold)
    next
      case (Inr proc)
      show ?thesis
      proof (cases proc)
        case None
        with 1(1) [OF Some [unfolded x] refl Inr] 1(3) Inr show ?thesis by (simp add: unfold)
      next
        case (Some p)
        obtain s' arr' where w: "array_write_ptr malloc p s = Inr s'" "array_write arr p = Inr arr'" "filling s' arr'"
          by (rule filling_write [OF 1(3) malloc])
        from 1(2) [OF \<open>fgets LINE_MAX_LEN fp = Some x\<close> [unfolded x] refl Inr Some w(2,3)] w Inr Some show ?thesis
          by (simp add: unfold)
      qed
    qed
  qed
qed

lemma parse_process_data_file_ptr_stores:
  assumes "malloc_ok malloc"
  shows "rel_sum (=) stores (parse_process_data_file_ptr malloc fp) (parse_process_data_file fp)"
proof -
  let ?s = "\<lparr>sd_heap = Map.empty, sd_cells = replicate (INITIAL_SCHEDULED_PROCS_MAX_LEN + 1) None,
    sd_len = 0, sd_max_len = INITIAL_SCHEDULED_PROCS_MAX_LEN\<rparr>"
  let ?arr = "\<lparr>sa_items = [], sa_max_len = INITIAL_SCHEDULED_PROCS_MAX_LEN\<rparr>"
  have "filling ?s ?arr" by (simp add: filling_def points_to_def INITIAL_SCHEDULED_PROCS_MAX_LEN_def)
  from read_lines_ptr_fills [OF assms this, of fp] show ?thesis
  proof (cases rule: rel_sum.cases)
    case (1 e e')
    then show ?thesis by (simp add: parse_process_data_file_ptr_def parse_process_data_file_def)
  next
    case (2 s arr)
    then obtain as where pts: "points_to (sd_heap s) as (sa_items arr)"
      and cells: "take (sd_len s) (sd_cells s) = map (Some \<circ> Some) as"
      and len: "sd_len s = length (sa_items arr)" "sd_max_len s = sa_max_len arr" "sd_len s < length (sd_cells s)"
        "sd_len s < sa_max_len arr + 1"
      unfolding filling_def by auto
    let ?cells = "(sd_cells s)[sd_len s := Some None]"
    have "?cells = map (Some \<circ> Some) as @ Some None # drop (Suc (sd_len s)) (sd_cells s)"
      using cells len(3) by (simp add: upd_conv_take_nth_drop)
    then have "stores \<lparr>sd_heap = sd_heap s, sd_cells = ?cells\<rparr> (sa_items arr)"
      using pts by (auto simp: stores_def)
    with 2 len show ?thesis by (simp add: parse_process_data_file_ptr_def parse_process_data_file_def)
  qed
qed

lemma sched_cell_map:
  assumes "sd_cells st = map (Some \<circ> Some) as @ Some None # rest"
  shows "i < length as \<Longrightarrow> sched_cell st i = Inr (Some (as ! i))" and "sched_cell st (length as) = Inr None"
  using assms by (simp_all add: sched_cell_def nth_append)

text \<open>Up to the null pointer, reading through the array is reading the list.\<close>

lemma scheduled_ptr_stores:
  assumes "stores st sps" and "i \<le> length sps"
  shows "scheduled_ptr st i = scheduled_at sps i"
proof -
  from assms(1) obtain as rest where pts: "points_to (sd_heap st) as sps"
    and cells: "sd_cells st = map (Some \<circ> Some) as @ Some None # rest" unfolding stores_def by blast
  note len = points_to_length [OF pts]
  show ?thesis
  proof (cases "i = length sps")
    case True
    then show ?thesis using sched_cell_map(2) [OF cells] len by (simp add: scheduled_ptr_def scheduled_at_def)
  next
    case False
    then have i: "i < length sps" "i < length as" using assms(2) len by simp_all
    have "map (sd_heap st) as ! i = map Some sps ! i" using pts by (simp add: points_to_def)
    then have "sd_heap st (as ! i) = Some (sps ! i)" using i by simp
    with sched_cell_map(1) [OF cells i(2)] i show ?thesis by (simp add: scheduled_ptr_def scheduled_at_def)
  qed
qed

text \<open>The loops over the array.\<close>

lemma free_scheduled_loop_frees:
  assumes "sd_cells st = map (Some \<circ> Some) as @ Some None # rest" and "i \<le> length as"
    and "dom (sd_heap st) = set (drop i as)" and "distinct as"
  shows "free_scheduled_loop st i = Inr Map.empty"
  using assms
proof (induction "length as - i" arbitrary: st i)
  case 0
  then have "sched_cell st i = Inr None" using sched_cell_map(2) by (metis diff_is_0_eq' le_antisym diff_diff_cancel minus_nat.diff_0)
  with 0 show ?case by (simp add: free_scheduled_loop.simps [of st i])
next
  case (Suc n)
  then have i: "i < length as" by simp
  let ?st = "st\<lparr>sd_heap := (sd_heap st)(as ! i := None)\<rparr>"
  have drop: "drop i as = as ! i # drop (Suc i) as" by (simp add: Cons_nth_drop_Suc i)
  then have "as ! i \<in> dom (sd_heap st)" using Suc.prems(3) by simp
  moreover have "distinct (drop i as)" using Suc.prems(4) by simp
  then have "dom (sd_heap ?st) = set (drop (Suc i) as)" using Suc.prems(3) drop by auto
  with Suc.prems(1) i have "free_scheduled_loop ?st (Suc i) = Inr Map.empty"
    by (intro Suc.hyps(1)) (use Suc.hyps(2) Suc.prems(4) in auto)
  ultimately show ?case using sched_cell_map(1) [OF Suc.prems(1) i]
    by (simp add: free_scheduled_loop.simps [of st i] domIff)
qed

lemma free_scheduled_processes_ptr_stores:
  assumes "stores st sps"
  shows "free_scheduled_processes_ptr st = Inr Map.empty"
proof -
  from assms obtain as rest where "points_to (sd_heap st) as sps" "sd_cells st = map (Some \<circ> Some) as @ Some None # rest"
    unfolding stores_def by blast
  then show ?thesis unfolding free_scheduled_processes_ptr_def
    by (intro free_scheduled_loop_frees) (auto simp: points_to_def)
qed

lemma print_scheduled_loop_prints:
  assumes "stores st sps" and "i \<le> length sps"
  shows "print_scheduled_loop st i = Inr (print_scheduled_processes_from i (drop i sps))"
  using assms(2)
proof (induction "length sps - i" arbitrary: i)
  case 0
  with scheduled_ptr_stores [OF assms(1), of i] show ?case
    by (simp add: print_scheduled_loop.simps [of st i] scheduled_at_def)
next
  case (Suc n)
  then have i: "i < length sps" "print_scheduled_loop st (Suc i) = Inr (print_scheduled_processes_from (Suc i) (drop (Suc i) sps))"
    by simp_all
  with scheduled_ptr_stores [OF assms(1), of i] show ?case
    by (simp add: print_scheduled_loop.simps [of st i] scheduled_at_def Cons_nth_drop_Suc [symmetric])
qed

lemma print_scheduled_processes_ptr_stores:
  assumes "stores st sps"
  shows "print_scheduled_processes_ptr st = Inr (print_scheduled_processes sps)"
  using print_scheduled_loop_prints [OF assms, of 0]
  by (simp add: print_scheduled_processes_ptr_def print_scheduled_processes_def)

end
