(* ===== verification/Queue_Pointers.thy ===== *)
theory Queue_Pointers
  imports Process_Scheduler Node_Heap
begin

text \<open>
  The queues of control blocks of \<open>project1/process-scheduler.c\<close> with their pointers. All queues
  live in one heap, and a control block moves between them: it is taken from the front of a
  ready queue, its link is cleared when it is loaded, and it is appended to a ready queue or
  to the list of terminated processes. The code that appends to an empty list does not clear
  the link itself; it relies on the caller. It is shown that the queues stay disjoint, that
  each operation does what its model on lists does, and what would happen without the
  clearing.
\<close>

section \<open>Operations\<close>

definition pop_front_ptr :: "'a heap \<Rightarrow> node_addr option \<Rightarrow> (node_addr option \<times> node_addr option) res" where
  "pop_front_ptr h head =
     (if head = None then Inr (None, None)
      else res_bind (load_node h head) (\<lambda>pcb. Inr (head, nd_next pcb)))"

text \<open>\<open>for (i = 1; i <= MIN_PRIORITY && running == NULL; i++)\<close> over the heads of the ready queues.\<close>

fun pop_first_ptr :: "'a heap \<Rightarrow> node_addr option list \<Rightarrow> (node_addr option \<times> node_addr option list) res" where
  "pop_first_ptr h [] = Inr (None, [])"
| "pop_first_ptr h (head # heads) =
     res_bind (pop_front_ptr h head) (\<lambda>(pcb, head').
       if pcb \<noteq> None then Inr (pcb, head' # heads)
       else res_bind (pop_first_ptr h heads) (\<lambda>(r, heads'). Inr (r, head' # heads')))"

definition append_pcb_ptr ::
  "node_addr \<Rightarrow> 'a heap \<Rightarrow> node_addr option \<Rightarrow> ('a heap \<times> node_addr option) res option" where
  "append_pcb_ptr pcb h head = insert_node (\<lambda>_. False) pcb h head"

definition add_pcb_ptr ::
  "node_addr \<Rightarrow> process_control_block_t heap \<Rightarrow> node_addr option
    \<Rightarrow> (process_control_block_t heap \<times> node_addr option) res option" where
  "add_pcb_ptr pcb h head =
     then_do (Some (load_node h (Some pcb))) (\<lambda>n.
       insert_node (\<lambda>curr_pcb. pcb_priority (nd_data n) < pcb_priority curr_pcb \<or>
         pcb_priority (nd_data n) = pcb_priority curr_pcb \<and>
         pcb_process_id (nd_data n) < pcb_process_id curr_pcb) pcb h head)"

text \<open>\<open>pcb->next = NULL\<close> in \<open>load_pcb\<close> and \<open>terminate_pcb\<close>.\<close>

definition clear_next :: "'a heap \<Rightarrow> node_addr \<Rightarrow> 'a heap res" where
  "clear_next h pcb = store_next h (Some pcb) None"

definition free_pcbs_queue_ptr :: "'a heap \<Rightarrow> node_addr option \<Rightarrow> 'a heap res option" where
  "free_pcbs_queue_ptr h head = free_loop h head"

text \<open>
  The way of a control block through the loop of a runner: it is taken from the first queue
  that is not empty, its link is cleared by \<open>load_pcb\<close>, its fields change (\<open>f\<close>) while it
  runs, and it is appended to the queue with the number \<open>i\<close>, which its fields determine. The list
  of terminated processes is one of the queues that follow the ready queues.
\<close>

definition requeue_ptr ::
  "('a \<Rightarrow> 'a) \<Rightarrow> ('a \<Rightarrow> int) \<Rightarrow> 'a heap \<Rightarrow> node_addr option list \<Rightarrow> ('a heap \<times> node_addr option list) res option" where
  "requeue_ptr f i h heads =
     then_do (Some (pop_first_ptr h heads)) (\<lambda>(running, heads1).
       case running of
         None \<Rightarrow> Some (Inr (h, heads1))
       | Some pcb \<Rightarrow>
           then_do (Some (clear_next h pcb)) (\<lambda>h1.
           then_do (Some (store_data h1 running f)) (\<lambda>h2.
           then_do (Some (load_node h2 running)) (\<lambda>n.
             if 0 \<le> i (nd_data n) \<and> nat (i (nd_data n)) < length heads1
             then then_do (append_pcb_ptr pcb h2 (heads1 ! nat (i (nd_data n)))) (\<lambda>(h3, head).
                    Some (Inr (h3, heads1[nat (i (nd_data n)) := head])))
             else Some (Inl OutOfBounds)))))"

section \<open>Queues in one heap\<close>

definition queues :: "'a heap \<Rightarrow> node_addr option list \<Rightarrow> (node_addr \<times> 'a) list list \<Rightarrow> bool" where
  "queues h heads ls \<longleftrightarrow> list_all2 (holds h) heads ls \<and> distinct (map fst (concat ls))"

lemma holds_eq: "(\<And>a. a \<in> addrs l \<Longrightarrow> h' a = h a) \<Longrightarrow> holds h' p l = holds h p l"
  by (simp add: holds_part part_eq [of l h' h])

lemma queues_eq:
  assumes "\<And>a. a \<in> addrs (concat ls) \<Longrightarrow> h' a = h a"
  shows "list_all2 (holds h') heads ls = list_all2 (holds h) heads ls"
  using assms by (intro list.rel_cong refl holds_eq) (auto intro: rev_image_eqI)

lemma queues_upd: "queues h heads ls \<Longrightarrow> a \<notin> addrs (concat ls) \<Longrightarrow> queues (h(a := v)) heads ls"
  unfolding queues_def by (subst queues_eq [of ls "h(a := v)" h]) auto

lemma queues_Cons:
  "queues h (p # ps) (l # ls) \<longleftrightarrow> holds h p l \<and> queues h ps ls \<and> addrs l \<inter> addrs (concat ls) = {}"
  by (auto simp: queues_def holds_def)

lemma queues_pop_first:
  assumes "queues h heads ls"
  shows "\<exists>r heads' ls'. pop_first_ptr h heads = Inr (r, heads') \<and> queues h heads' ls' \<and>
    pop_first_ready (map (map snd) ls) = (map_option (node_data h) r, map (map snd) ls') \<and>
    (\<forall>a. r = Some a \<longrightarrow> h a \<noteq> None \<and> a \<notin> addrs (concat ls')) \<and> addrs (concat ls) = set_option r \<union> addrs (concat ls')"
  using assms
proof (induction ls arbitrary: heads)
  case Nil
  then show ?case by (auto simp: queues_def)
next
  case (Cons l ls)
  then obtain p ps where heads: "heads = p # ps" by (cases heads) (auto simp: queues_def)
  have q: "holds h p l" "queues h ps ls" "addrs l \<inter> addrs (concat ls) = {}"
    using Cons.prems unfolding heads queues_Cons by auto
  show ?case
  proof (cases l)
    case Nil
    with q(1) have p: "p = None" by simp
    from Cons.IH [OF q(2)] obtain r ps' ls' where ih: "pop_first_ptr h ps = Inr (r, ps')" "queues h ps' ls'"
      "pop_first_ready (map (map snd) ls) = (map_option (node_data h) r, map (map snd) ls')"
      "\<forall>a. r = Some a \<longrightarrow> h a \<noteq> None \<and> a \<notin> addrs (concat ls')" "addrs (concat ls) = set_option r \<union> addrs (concat ls')" by blast
    then show ?thesis
      by (intro exI [of _ r] exI [of _ "None # ps'"] exI [of _ "[] # ls'"])
        (simp add: heads p Nil pop_front_ptr_def queues_Cons pop_front_pcb_from_pcbs_queue_def)
  next
    case (Cons e k)
    obtain a x where e: "e = (a, x)" by (cases e)
    from q(1) have "holds h p ([] @ (a, x) # k)" by (simp add: Cons e)
    then obtain n where n: "h a = Some n" "nd_data n = x" "part h (nd_next n) k None" "a \<notin> addrs k"
      by (rule holds_split)
    have p: "p = Some a" using holds_first [OF q(1)] by (simp add: Cons e)
    have "queues h (nd_next n # ps) (k # ls)"
      using q n(3) unfolding queues_Cons by (auto simp: holds_part Cons e)
    moreover have "a \<notin> addrs (concat (k # ls))" using q(3) n(4) by (auto simp: Cons e)
    ultimately show ?thesis using n
      by (intro exI [of _ "Some a"] exI [of _ "nd_next n # ps"] exI [of _ "k # ls"])
        (auto simp: heads p Cons e pop_front_ptr_def pop_front_pcb_from_pcbs_queue_def node_data_def)
  qed
qed

lemma distinct_middle:
  "distinct (map fst (concat (ks @ l # ms))) \<longleftrightarrow>
    distinct (map fst (concat (ks @ ms))) \<and> distinct (map fst l) \<and> addrs l \<inter> addrs (concat (ks @ ms)) = {}"
  unfolding concat_append concat.simps map_append distinct_append set_append set_map image_Un by blast

lemma queues_insert:
  assumes qs: "queues h (ps @ p # qs) (ks @ l # ms)" and len: "length ps = length ks"
    and a: "h a = Some n" "a \<notin> addrs (concat (ks @ l # ms))" and first: "l = [] \<Longrightarrow> nd_next n = None"
  shows "\<exists>h' p'. insert_node test a h p = Some (Inr (h', p')) \<and>
    queues h' (ps @ p' # qs) (ks @ (before test l @ (a, nd_data n) # after test l) # ms)"
proof -
  let ?l = "before test l @ (a, nd_data n) # after test l"
  let ?others = "concat (ks @ ms)"
  from qs len have held: "list_all2 (holds h) ps ks" "holds h p l" "list_all2 (holds h) qs ms"
    and dist: "distinct (map fst (concat (ks @ l # ms)))"
    by (auto simp: queues_def list_all2_append)
  have own: "owns (h |` (- addrs l)) l (h, p)" using held(2) by simp
  have rest: "(h |` (- addrs l)) a = Some n" using a by (auto simp: restrict_map_def)
  obtain hp where ins: "insert_node test a h p = Some (Inr hp)" "owns ((h |` (- addrs l))(a := None)) ?l hp"
    by (rule owns_insert [OF own rest first])
  obtain h' p' where hp: "hp = (h', p')" by (cases hp)
  have addrs: "addrs ?l = insert a (addrs l)"
    using addrs_before_after [of test l] by auto
  have disj: "distinct (map fst ?others)" "addrs l \<inter> addrs ?others = {}" using dist unfolding distinct_middle by blast+
  have same: "h' b = h b" if "b \<in> addrs ?others" for b
  proof -
    have "b \<notin> addrs l" using that disj(2) by blast
    moreover have "b \<noteq> a" using that a(2) by auto
    ultimately have b: "b \<noteq> a" "b \<notin> addrs l" by simp_all
    from b have "h' b = ((h |` (- addrs l))(a := None)) b" using owns_outside [of _ ?l h' p' b] ins(2) addrs hp by blast
    then show ?thesis using b by (simp add: restrict_map_def)
  qed
  have "list_all2 (holds h') ps ks" "list_all2 (holds h') qs ms"
    using held(1,3) same queues_eq [of ks h' h ps] queues_eq [of ms h' h qs] by auto
  moreover have "holds h' p' ?l" using ins(2) hp by simp
  moreover have "distinct (map fst (concat (ks @ ?l # ms)))"
  proof -
    have "distinct (map fst ?l)" using \<open>holds h' p' ?l\<close> by (simp only: holds_part)
    moreover have "a \<notin> addrs ?others" using a(2) by auto
    ultimately show ?thesis unfolding distinct_middle addrs using disj by blast
  qed
  ultimately have "queues h' (ps @ p' # qs) (ks @ ?l # ms)"
    using len by (auto simp: queues_def list_all2_append)
  with ins(1) hp show ?thesis by blast
qed

lemma queues_insert_at:
  assumes qs: "queues h heads ls" and i: "i < length ls"
    and a: "h a = Some n" "a \<notin> addrs (concat ls)" and first: "ls ! i = [] \<Longrightarrow> nd_next n = None"
  shows "\<exists>h' p'. insert_node test a h (heads ! i) = Some (Inr (h', p')) \<and>
    queues h' (heads[i := p']) (ls[i := before test (ls ! i) @ (a, nd_data n) # after test (ls ! i)])"
proof -
  have len: "length heads = length ls" using qs by (auto simp: queues_def dest: list_all2_lengthD)
  then have i': "i < length heads" using i by simp
  note heads = id_take_nth_drop [OF i'] and ls = id_take_nth_drop [OF i]
  have "queues h (take i heads @ heads ! i # drop (Suc i) heads) (take i ls @ ls ! i # drop (Suc i) ls)"
    using qs heads ls by simp
  moreover have "a \<notin> addrs (concat (take i ls @ ls ! i # drop (Suc i) ls))" using a(2) ls by simp
  ultimately show ?thesis
    using queues_insert [of h "take i heads" "heads ! i" "drop (Suc i) heads" "take i ls" "ls ! i" "drop (Suc i) ls" a n test]
      a(1) first len by (simp add: upd_conv_take_nth_drop i i')
qed

lemma append_pcb_to_pcbs_list_append: "append_pcb_to_pcbs_list pcb q = q @ [pcb]"
  by (induction q) auto

lemma add_pcb_to_pcbs_queue_split:
  fixes l :: "(node_addr \<times> process_control_block_t) list" and pcb :: process_control_block_t
  defines "test \<equiv> \<lambda>curr_pcb. pcb_priority pcb < pcb_priority curr_pcb \<or>
    pcb_priority pcb = pcb_priority curr_pcb \<and> pcb_process_id pcb < pcb_process_id curr_pcb"
  shows "add_pcb_to_pcbs_queue pcb (map snd l) = map snd (before test l) @ pcb # map snd (after test l)"
  unfolding test_def by (induction l) auto

lemma requeue_ptr_refines:
  assumes qs: "queues h heads ls" and i: "\<And>pcb. 0 \<le> i (f pcb) \<and> nat (i (f pcb)) < length ls"
  shows "\<exists>h' heads' ls'. requeue_ptr f i h heads = Some (Inr (h', heads')) \<and> queues h' heads' ls' \<and>
    (case pop_first_ready (map (map snd) ls) of
       (None, rest) \<Rightarrow> map (map snd) ls' = rest
     | (Some pcb, rest) \<Rightarrow> append_to_queue (f pcb) (i (f pcb)) rest = Inr (map (map snd) ls'))"
proof -
  from queues_pop_first [OF qs] obtain r heads1 ls1 where
    pop: "pop_first_ptr h heads = Inr (r, heads1)" "queues h heads1 ls1"
      "pop_first_ready (map (map snd) ls) = (map_option (node_data h) r, map (map snd) ls1)"
      "\<forall>a. r = Some a \<longrightarrow> h a \<noteq> None \<and> a \<notin> addrs (concat ls1)" by blast
  show ?thesis
  proof (cases r)
    case None
    with pop show ?thesis by (auto simp: requeue_ptr_def)
  next
    case (Some a)
    then obtain n where n: "h a = Some n" and a: "a \<notin> addrs (concat ls1)" using pop(4) by auto
    have len1: "length ls1 = length ls" "length heads1 = length ls"
    proof -
      have "length (snd (pop_first_ready (map (map snd) ls))) = length ls"
        by (induction ls) (auto simp: pop_front_pcb_from_pcbs_queue_def split: list.splits prod.splits)
      then show "length ls1 = length ls" using pop(3) by simp
      then show "length heads1 = length ls" using pop(2) by (auto simp: queues_def dest: list_all2_lengthD)
    qed
    let ?pcb = "f (nd_data n)"
    let ?m = "\<lparr>nd_data = ?pcb, nd_next = None\<rparr>"
    let ?h2 = "h(a \<mapsto> ?m)"
    let ?i = "nat (i ?pcb)"
    have q2: "queues ?h2 heads1 ls1" by (rule queues_upd [OF pop(2) a])
    have i1: "?i < length ls1" "0 \<le> i ?pcb" using i [of "nd_data n"] len1 by auto
    from queues_insert_at [OF q2 i1(1), of a ?m "\<lambda>_. False"] a obtain h' p' where
      ins: "insert_node (\<lambda>_. False) a ?h2 (heads1 ! ?i) = Some (Inr (h', p'))"
        "queues h' (heads1[?i := p']) (ls1[?i := ls1 ! ?i @ [(a, ?pcb)]])" by auto
    have node: "n\<lparr>nd_next := None, nd_data := ?pcb\<rparr> = ?m" by simp
    have "requeue_ptr f i h heads = Some (Inr (h', heads1[?i := p']))"
      using pop(1) n ins(1) i1 len1 unfolding Some
      by (simp add: requeue_ptr_def clear_next_def append_pcb_ptr_def node)
    moreover have "append_to_queue ?pcb (i ?pcb) (map (map snd) ls1) = Inr (map (map snd) (ls1[?i := ls1 ! ?i @ [(a, ?pcb)]]))"
      using i1 by (simp add: append_to_queue_def append_pcb_to_pcbs_list_append map_update)
    ultimately show ?thesis using ins(2) pop(3) n by (auto simp: Some node_data_def)
  qed
qed

text \<open>
  Without the clearing, appending a block that was just taken from the front of a queue to an
  empty list would make the whole rest of its old queue part of that list.
\<close>

lemma append_without_clearing:
  assumes "holds h p ((a, x) # l)"
  shows "pop_front_ptr h p = Inr (Some a, first_addr l) \<and>
    append_pcb_ptr a h None = Some (Inr (h, Some a)) \<and> holds h (Some a) ((a, x) # l)"
proof -
  have p: "p = Some a" using holds_first [OF assms] by simp
  have own: "owns (h |` (- addrs ((a, x) # l))) ([] @ (a, x) # l) (h, p)" using assms by simp
  obtain n where "h a = Some n" "nd_next n = first_addr l" by (rule owns_next [OF own])
  with assms p show ?thesis by (simp add: pop_front_ptr_def append_pcb_ptr_def insert_node_def)
qed

section \<open>Properties\<close>

text \<open>All queues of control blocks live in one heap and stay disjoint: taking the first block of
  the first queue that is not empty, running it and appending it to a queue does on the
  represented queues what their models do, and so do the sorted insertion of a block and
  the freeing of a queue; no null or freed block is used, and every loop ends.\<close>

theorem pcb_queues_pointers_refine:
  assumes qs: "queues h heads ls" and i: "\<And>pcb. 0 \<le> i (f pcb) \<and> nat (i (f pcb)) < length ls"
    and k: "k < length ls" and a: "h a = Some n" "a \<notin> addrs (concat ls)" "nd_next n = None"
  shows "(\<exists>h' heads' ls'. requeue_ptr f i h heads = Some (Inr (h', heads')) \<and> queues h' heads' ls' \<and>
      (case pop_first_ready (map (map snd) ls) of
         (None, rest) \<Rightarrow> map (map snd) ls' = rest
       | (Some pcb, rest) \<Rightarrow> append_to_queue (f pcb) (i (f pcb)) rest = Inr (map (map snd) ls'))) \<and>
    (\<exists>h' p' l'. add_pcb_ptr a h (heads ! k) = Some (Inr (h', p')) \<and> queues h' (heads[k := p']) (ls[k := l']) \<and>
      map snd l' = add_pcb_to_pcbs_queue (nd_data n) (map snd (ls ! k))) \<and>
    free_pcbs_queue_ptr h (heads ! k) = Some (Inr (h |` (- addrs (ls ! k))))"
proof (intro conjI)
  let ?test = "\<lambda>curr_pcb. pcb_priority (nd_data n) < pcb_priority curr_pcb \<or>
    pcb_priority (nd_data n) = pcb_priority curr_pcb \<and> pcb_process_id (nd_data n) < pcb_process_id curr_pcb"
  show "\<exists>h' heads' ls'. requeue_ptr f i h heads = Some (Inr (h', heads')) \<and> queues h' heads' ls' \<and>
      (case pop_first_ready (map (map snd) ls) of
         (None, rest) \<Rightarrow> map (map snd) ls' = rest
       | (Some pcb, rest) \<Rightarrow> append_to_queue (f pcb) (i (f pcb)) rest = Inr (map (map snd) ls'))"
    using qs i by (rule requeue_ptr_refines)
  from queues_insert_at [OF qs k a(1,2), of ?test] a(3) obtain h' p' where
    "insert_node ?test a h (heads ! k) = Some (Inr (h', p'))"
    "queues h' (heads[k := p']) (ls[k := before ?test (ls ! k) @ (a, nd_data n) # after ?test (ls ! k)])" by blast
  then show "\<exists>h' p' l'. add_pcb_ptr a h (heads ! k) = Some (Inr (h', p')) \<and> queues h' (heads[k := p']) (ls[k := l']) \<and>
      map snd l' = add_pcb_to_pcbs_queue (nd_data n) (map snd (ls ! k))"
    using a(1) add_pcb_to_pcbs_queue_split [of "nd_data n" "ls ! k"]
    by (intro exI [of _ h'] exI [of _ p'] exI [of _ "before ?test (ls ! k) @ (a, nd_data n) # after ?test (ls ! k)"])
      (simp add: add_pcb_ptr_def)
  have "holds h (heads ! k) (ls ! k)" using qs k by (auto simp: queues_def list_all2_conv_all_nth)
  then show "free_pcbs_queue_ptr h (heads ! k) = Some (Inr (h |` (- addrs (ls ! k))))"
    by (simp add: free_pcbs_queue_ptr_def free_loop_holds)
qed

definition demo_pcb :: "int \<Rightarrow> process_control_block_t" where
  "demo_pcb pid = \<lparr>pcb_process_id = pid, pcb_process_state = ready, pcb_process_memory = 0, pcb_priority = 1,
     pcb_job_time = 9, pcb_burst_time = 0, pcb_cpu_time = 0\<rparr>"

theorem pcb_queues_pointers_refine_witness:
  "\<exists>h heads ls h' heads' ls'. queues h heads ls \<and> map (map snd) ls = [[demo_pcb 5, demo_pcb 6], [], []] \<and>
    requeue_ptr ready_and_decrease_priority_pcb (\<lambda>pcb. 1) h heads = Some (Inr (h', heads')) \<and> queues h' heads' ls' \<and>
    map (map snd) ls' = [[demo_pcb 6], [ready_and_decrease_priority_pcb (demo_pcb 5)], []]"
proof -
  let ?ls = "[[(0, demo_pcb 5), (1, demo_pcb 6)], [], []]"
  let ?n = "\<lparr>nd_data = demo_pcb 7, nd_next = None\<rparr>"
  let ?h = "[0 \<mapsto> \<lparr>nd_data = demo_pcb 5, nd_next = Some 1\<rparr>, 1 \<mapsto> \<lparr>nd_data = demo_pcb 6, nd_next = None\<rparr>, 2 \<mapsto> ?n] :: process_control_block_t heap"
  have qs: "queues ?h [Some 0, None, None] ?ls" by (simp add: queues_def holds_part)
  have pop: "pop_first_ready (map (map snd) ?ls) = (Some (demo_pcb 5), [[demo_pcb 6], [], []])" by code_simp
  have app: "append_to_queue (ready_and_decrease_priority_pcb (demo_pcb 5)) 1 [[demo_pcb 6], [], []] =
      Inr [[demo_pcb 6], [ready_and_decrease_priority_pcb (demo_pcb 5)], []]" by code_simp
  from pcb_queues_pointers_refine [OF qs, of "\<lambda>pcb. 1" ready_and_decrease_priority_pcb 0 2 ?n, THEN conjunct1]
  obtain h' heads' ls' where
    "requeue_ptr ready_and_decrease_priority_pcb (\<lambda>pcb. 1) ?h [Some 0, None, None] = Some (Inr (h', heads'))" "queues h' heads' ls'"
    "append_to_queue (ready_and_decrease_priority_pcb (demo_pcb 5)) 1 [[demo_pcb 6], [], []] = Inr (map (map snd) ls')"
    unfolding pop prod.case option.case by auto
  with qs app show ?thesis
    by (intro exI [of _ ?h] exI [of _ "[Some 0, None, None]"] exI [of _ ?ls] exI [of _ h'] exI [of _ heads'] exI [of _ ls']) simp
qed

end
