(* ===== verification/Scheduler_Pointers.thy ===== *)
theory Scheduler_Pointers
  imports Parser_Pointers Queue_Pointers
begin

text \<open>
  The operations on control blocks of \<open>project1/process-scheduler.c\<close> with all their pointers: heaps
  hold the control blocks, the process memories, the free memory segments and the scheduled
  processes. Processes arrive by \<open>malloc\<close>, are loaded, run and terminated, and the status line counts along the
  lists. Each operation is shown to simulate its model on lists: the same error, or related
  results. Addresses and sizes of memory are integers here as in \<open>Memory_Management\<close>.
\<close>

section \<open>Allocation\<close>

text \<open>
  What \<open>malloc\<close> returns for each kind of object. Control blocks, segments and scheduled processes
  get any address that is free. Process memories get the address above all others, as \<open>malloc_addr\<close> gives it in
  the model on lists; the program only compares these addresses for equality.
\<close>

record allocator =
  al_pcb :: "process_control_block_t heap \<Rightarrow> node_addr"
  al_seg :: "free_memory_segment_t heap \<Rightarrow> node_addr"
  al_sp :: "sched_heap \<Rightarrow> node_addr"

definition above :: "'a heap \<Rightarrow> node_addr" where
  "above h = (if dom h = {} then 0 else Suc (Max (dom h)))"

definition allocator_ok :: "allocator \<Rightarrow> bool" where
  "allocator_ok al \<longleftrightarrow> malloc_ok (al_pcb al) \<and> malloc_ok (al_seg al) \<and> malloc_ok (al_sp al)"

section \<open>Arrival\<close>

definition new_process_control_block_ptr ::
  "allocator \<Rightarrow> scheduled_process_t \<Rightarrow> process_control_block_t heap \<Rightarrow> procs_ptr
    \<Rightarrow> (node_addr \<times> process_control_block_t heap \<times> procs_ptr) res option" where
  "new_process_control_block_ptr al sp h procs =
     (let pcb = al_pcb al h; proc_mem = above (fst procs);
          pm = new_process_memory (sp_memory_size sp) (sp_process_id sp) in
      then_do (add_process_memory_ptr proc_mem
          ((fst procs)(proc_mem \<mapsto> \<lparr>nd_data = pm, nd_next = None\<rparr>), snd procs)) (\<lambda>procs'.
        Some (Inr (pcb, h(pcb \<mapsto> \<lparr>nd_data =
            \<lparr>pcb_process_id = sp_process_id sp, pcb_process_state = ready, pcb_process_memory = proc_mem,
             pcb_priority = 1, pcb_job_time = sp_job_time sp, pcb_burst_time = 0, pcb_cpu_time = 0\<rparr>,
            nd_next = None\<rparr>), procs'))))"

text \<open>The loop of \<open>check_scheduled_processes\<close>, with the index it returns.\<close>

function check_scheduled_processes_ptr ::
  "allocator \<Rightarrow> sched_ptr \<Rightarrow> nat \<Rightarrow> int \<Rightarrow> process_control_block_t heap \<Rightarrow> node_addr option \<Rightarrow> procs_ptr
    \<Rightarrow> (nat \<times> process_control_block_t heap \<times> node_addr option \<times> procs_ptr) res option" where
  "check_scheduled_processes_ptr al st spi time h head procs =
     (case scheduled_ptr st spi of
        Inl e \<Rightarrow> Some (Inl e)
      | Inr None \<Rightarrow> Some (Inr (spi, h, head, procs))
      | Inr (Some sp) \<Rightarrow>
          (if sp_start_time sp \<le> time
           then case new_process_control_block_ptr al sp h procs of
                  None \<Rightarrow> None
                | Some (Inl e) \<Rightarrow> Some (Inl e)
                | Some (Inr (pcb, h1, procs1)) \<Rightarrow>
                    (case append_pcb_ptr pcb h1 head of
                       None \<Rightarrow> None
                     | Some (Inl e) \<Rightarrow> Some (Inl e)
                     | Some (Inr (h2, head2)) \<Rightarrow>
                         check_scheduled_processes_ptr al st (spi + 1) time h2 head2 procs1)
           else Some (Inr (spi, h, head, procs))))"
  by pat_completeness auto
termination
  by (relation "measure (\<lambda>(al, st, spi, time, h, head, procs). length (sd_cells st) - spi)")
    (auto dest!: scheduled_ptr_length)

declare check_scheduled_processes_ptr.simps [simp del]

section \<open>Loading, running and terminating\<close>

definition load_pcb_ptr ::
  "allocator \<Rightarrow> node_addr \<Rightarrow> int \<Rightarrow> process_control_block_t heap \<Rightarrow> procs_ptr \<Rightarrow> segs_ptr
    \<Rightarrow> (process_control_block_t heap \<times> procs_ptr \<times> segs_ptr) res option" where
  "load_pcb_ptr al pcb time h procs segs =
     then_do (Some (load_node h (Some pcb))) (\<lambda>n.
     then_do (Some (load_node (fst procs) (Some (pcb_process_memory (nd_data n))))) (\<lambda>pm.
     then_do (if is_process_memory_in_disk (nd_data pm)
              then swap_in_process_memory_ptr (al_seg al) (pcb_process_memory (nd_data n)) time procs segs
              else Some (Inr (procs, segs))) (\<lambda>(procs', segs').
     then_do (Some (clear_next h pcb)) (\<lambda>h1.
     then_do (Some (store_data h1 (Some pcb) (\<lambda>p. p\<lparr>pcb_process_state := running, pcb_burst_time := 0\<rparr>))) (\<lambda>h2.
       Some (Inr (h2, procs', segs')))))))"

definition run_pcb_ptr :: "node_addr \<Rightarrow> process_control_block_t heap \<Rightarrow> process_control_block_t heap res option" where
  "run_pcb_ptr pcb h =
     then_do (Some (load_node h (Some pcb))) (\<lambda>n.
     then_do (Some (run_pcb (nd_data n))) (\<lambda>p.
       Some (store_data h (Some pcb) (\<lambda>_. p))))"

definition terminate_pcb_ptr ::
  "allocator \<Rightarrow> node_addr \<Rightarrow> process_control_block_t heap \<Rightarrow> procs_ptr \<Rightarrow> segs_ptr
    \<Rightarrow> (process_control_block_t heap \<times> procs_ptr \<times> segs_ptr) res option" where
  "terminate_pcb_ptr al pcb h procs segs =
     then_do (Some (load_node h (Some pcb))) (\<lambda>n.
     then_do (Some (load_node (fst procs) (Some (pcb_process_memory (nd_data n))))) (\<lambda>pm.
     then_do (if \<not> is_process_memory_in_disk (nd_data pm)
              then swap_out_by_process_memory_ptr (al_seg al) (pcb_process_memory (nd_data n)) procs segs
              else Some (Inr (procs, segs))) (\<lambda>(procs', segs').
     then_do (Some (clear_next h pcb)) (\<lambda>h1.
     then_do (Some (store_data h1 (Some pcb) (\<lambda>p. p\<lparr>pcb_process_state := terminated\<rparr>))) (\<lambda>h2.
       Some (Inr (h2, procs', segs')))))))"

section \<open>The status line\<close>

text \<open>The loops that count or sum over a list.\<close>

partial_function (option) fold_nodes :: "('a \<Rightarrow> int \<Rightarrow> int) \<Rightarrow> 'a heap \<Rightarrow> node_addr option \<Rightarrow> int \<Rightarrow> int res option" where
  "fold_nodes f h p acc =
     (case p of
        None \<Rightarrow> Some (Inr acc)
      | Some _ \<Rightarrow>
          (case load_node h p of
             Inl e \<Rightarrow> Some (Inl e)
           | Inr n \<Rightarrow> fold_nodes f h (nd_next n) (f (nd_data n) acc)))"

declare fold_nodes.simps [code]

definition count_holes_ptr :: "segs_ptr \<Rightarrow> int res option" where
  "count_holes_ptr segs = fold_nodes (\<lambda>_ cnt. cnt + 1) (fst segs) (snd segs) 0"

definition count_not_in_disk_ptr :: "procs_ptr \<Rightarrow> int res option" where
  "count_not_in_disk_ptr procs =
     fold_nodes (\<lambda>pm cnt. if \<not> is_process_memory_in_disk pm then cnt + 1 else cnt) (fst procs) (snd procs) 0"

definition size_not_in_disk_ptr :: "procs_ptr \<Rightarrow> int res option" where
  "size_not_in_disk_ptr procs =
     fold_nodes (\<lambda>pm sz. if \<not> is_process_memory_in_disk pm then sz + pm_size pm else sz) (fst procs) (snd procs) 0"

definition print_simulation_status_ptr ::
  "int \<Rightarrow> node_addr \<Rightarrow> process_control_block_t heap \<Rightarrow> procs_ptr \<Rightarrow> segs_ptr \<Rightarrow> int \<Rightarrow> out_line res option" where
  "print_simulation_status_ptr time pcb h procs segs memsize =
     then_do (size_not_in_disk_ptr procs) (\<lambda>memusagesize.
     then_do (Some (c_int (100 * memusagesize))) (\<lambda>memusageproportion.
       if memsize = 0 then Some (Inl DivByZero)
       else then_do (Some (load_node h (Some pcb))) (\<lambda>n.
            then_do (count_not_in_disk_ptr procs) (\<lambda>numprocesses.
            then_do (count_holes_ptr segs) (\<lambda>numholes.
              Some (Inr (Status time (pcb_process_id (nd_data n)) numprocesses numholes
                (memusageproportion sdiv memsize + (if memusageproportion smod memsize \<noteq> 0 then 1 else 0)))))))))"

section \<open>Simulation\<close>

text \<open>A result with pointers against a result on lists: the same error, or related values.\<close>

definition simulates :: "('c \<Rightarrow> 'm \<Rightarrow> bool) \<Rightarrow> 'c res option \<Rightarrow> 'm res \<Rightarrow> bool" where
  "simulates R r m \<longleftrightarrow> (case m of Inl e \<Rightarrow> r = Some (Inl e) | Inr x \<Rightarrow> (\<exists>y. r = Some (Inr y) \<and> R y x))"

lemma simulates_simps [simp]:
  "simulates R r (Inl e) \<longleftrightarrow> r = Some (Inl e)"
  "simulates R (Some (Inr y)) (Inr x) \<longleftrightarrow> R y x"
  by (simp_all add: simulates_def)

lemma simulates_bind:
  assumes "simulates R r m" and "\<And>y x. R y x \<Longrightarrow> m = Inr x \<Longrightarrow> simulates R' (f y) (g x)"
  shows "simulates R' (then_do r f) (res_bind m g)"
proof (cases m)
  case (Inl e)
  with assms(1) show ?thesis by simp
next
  case (Inr x)
  with assms(1) obtain y where "r = Some (Inr y)" "R y x" by (auto simp: simulates_def)
  with assms(2) [of y x] Inr show ?thesis by simp
qed

lemma simulates_same:
  assumes "\<And>x. m = Inr x \<Longrightarrow> simulates R' (f x) (g x)"
  shows "simulates R' (then_do (Some m) f) (res_bind m g)"
  by (rule simulates_bind [of "(=)"]) (use assms in \<open>auto simp: simulates_def split: sum.splits\<close>)

lemma simulates_mono: "simulates R r m \<Longrightarrow> (\<And>y x. R y x \<Longrightarrow> R' y x) \<Longrightarrow> simulates R' r m"
  by (auto simp: simulates_def split: sum.splits)

text \<open>The two lists of the memory manager own their heaps.\<close>

definition mem_rel :: "procs_ptr \<times> segs_ptr \<Rightarrow> process_memories_list_t \<times> free_memory_segments_list_t \<Rightarrow> bool" where
  "mem_rel c m \<longleftrightarrow> owns Map.empty (fst m) (fst c) \<and> (\<exists>l. owns Map.empty l (snd c) \<and> map snd l = snd m)"

lemma refines_simulates:
  assumes "refines Map.empty Map.empty r m"
  shows "simulates mem_rel r m"
proof (cases m)
  case (Inl e)
  with assms show ?thesis by (simp add: refines_def)
next
  case (Inr x)
  obtain l new where x: "x = (l, new)" by (cases x)
  from assms obtain procs' segs' lS' where "r = Some (Inr (procs', segs'))" "owns Map.empty l procs'"
    "owns Map.empty lS' segs'" "map snd lS' = new"
    unfolding refines_def Inr x sum.case prod.case by (elim exE conjE)
  then have "mem_rel (procs', segs') (l, new)" unfolding mem_rel_def fst_conv snd_conv by (intro conjI exI)
  with \<open>r = _\<close> show ?thesis by (simp add: Inr x)
qed

lemma owns_empty_dom:
  assumes "owns Map.empty l (h, p)"
  shows "dom h = addrs l"
proof
  show "dom h \<subseteq> addrs l" using owns_outside [OF assms] by (metis domIff subsetI)
  show "addrs l \<subseteq> dom h" using assms holds_allocated [of h p l] by simp
qed

text \<open>The queues and the running process are disjoint lists that own the heap of control blocks.\<close>

definition pcbs_rel :: "'a heap \<Rightarrow> node_addr option list \<Rightarrow> (node_addr \<times> 'a) list list \<Rightarrow> bool" where
  "pcbs_rel h heads ls \<longleftrightarrow> queues h heads ls \<and> dom h = addrs (concat ls)"

lemma queues_length: "queues h heads ls \<Longrightarrow> length heads = length ls"
  by (auto simp: queues_def dest: list_all2_lengthD)

lemma queues_append:
  assumes "length ps = length ks"
  shows "queues h (ps @ qs) (ks @ ms) \<longleftrightarrow> queues h ps ks \<and> queues h qs ms \<and> addrs (concat ks) \<inter> addrs (concat ms) = {}"
  using assms by (auto simp: queues_def list_all2_append)

section \<open>Arrival\<close>

lemma malloc_addr_above: "malloc_addr L = (if L = [] then 0 else Suc (Max (addrs L)))"
proof -
  have fold: "fold (\<lambda>(a, pm) m. max (Suc a) m) L m = Max (insert m (Suc ` addrs L))" for m
  proof (induction L arbitrary: m)
    case (Cons e L)
    then show ?case by (cases e; cases "L = []") (auto simp: max.assoc max.left_commute max.commute)
  qed simp
  show ?thesis
  proof (cases "L = []")
    case False
    then have "Suc (Max (addrs L)) = Max (Suc ` addrs L)" by (intro mono_Max_commute) (auto simp: mono_Suc)
    with False have "Max (insert 0 (Suc ` addrs L)) = Suc (Max (addrs L))" by simp
    with False fold [of 0] show ?thesis by (simp add: malloc_addr_def)
  qed (simp add: malloc_addr_def)
qed

lemma new_process_control_block_ptr_sim:
  assumes al: "allocator_ok al" and own: "owns Map.empty L procs" and fin: "finite (dom h)"
    and new: "new_process_control_block_by_scheduled_process sp L = (pcb, L')"
  shows "\<exists>a procs'. new_process_control_block_ptr al sp h procs =
      Some (Inr (a, h(a \<mapsto> \<lparr>nd_data = pcb, nd_next = None\<rparr>), procs')) \<and> a \<notin> dom h \<and> owns Map.empty L' procs'"
proof -
  obtain hp head where procs: "procs = (hp, head)" by (cases procs)
  have own0: "owns Map.empty L (hp, head)" using own procs by simp
  note dom = owns_empty_dom [OF own0]
  define b where "b = above hp"
  have b: "b = malloc_addr L" unfolding b_def above_def dom malloc_addr_above by simp
  then have "hp b = None" using malloc_addr_fresh [of L] dom by auto
  let ?n = "\<lparr>nd_data = new_process_memory (sp_memory_size sp) (sp_process_id sp), nd_next = None\<rparr>"
  note own1 = owns_allocate(1) [OF own0 \<open>hp b = None\<close>, of ?n]
  from add_process_memory_ptr_owns [OF own1, of b ?n] obtain procs' where
    add: "add_process_memory_ptr b (hp(b \<mapsto> ?n), head) = Some (Inr procs')"
      "owns ((Map.empty(b \<mapsto> ?n))(b := None)) (add_process_memory_to_process_memories_list (b, nd_data ?n) L) procs'"
    by (auto simp del: owns.simps)
  have "al_pcb al h \<notin> dom h" using al fin by (auto simp: allocator_ok_def malloc_ok_def)
  moreover have "(Map.empty(b \<mapsto> ?n))(b := None) = Map.empty" by auto
  ultimately show ?thesis
    using add new unfolding procs b_def [symmetric] b
    by (auto simp: new_process_control_block_ptr_def Let_def b_def [symmetric] b new_process_control_block_by_scheduled_process_def
        new_process_control_block_def simp del: owns.simps)
qed

lemma insert_node_dom:
  assumes "insert_node test a h p = Some (Inr (h', p'))"
  shows "dom h' = dom h"
  using assms
  by (auto simp: insert_node_def then_do_def simp del: domIff split: if_splits option.splits sum.splits dest!: dom_store_next)
    (metis domD domI)+

lemma addrs_update:
  assumes "i < length ls"
  shows "addrs (concat (ls[i := ls ! i @ [(a, x)]])) = insert a (addrs (concat ls))"
proof -
  have "concat ls = concat (take i ls @ ls ! i # drop (Suc i) ls)" using id_take_nth_drop [OF assms] by simp
  then show ?thesis unfolding upd_conv_take_nth_drop [OF assms] by auto
qed

text \<open>Appending a block that is in no list, with its link cleared, to one of the lists.\<close>

lemma pcbs_append_at:
  assumes qs: "queues h heads ls" and i: "i < length ls" and a: "h a = Some \<lparr>nd_data = x, nd_next = None\<rparr>"
    and out: "a \<notin> addrs (concat ls)" and dom: "dom h = insert a (addrs (concat ls))"
  shows "\<exists>h' p'. append_pcb_ptr a h (heads ! i) = Some (Inr (h', p')) \<and>
    pcbs_rel h' (heads[i := p']) (ls[i := ls ! i @ [(a, x)]])"
proof -
  from queues_insert_at [OF qs i a out, of "\<lambda>_. False"] obtain h' p' where
    ins: "insert_node (\<lambda>_. False) a h (heads ! i) = Some (Inr (h', p'))"
      "queues h' (heads[i := p']) (ls[i := ls ! i @ [(a, x)]])" by auto
  with insert_node_dom [OF ins(1)] dom addrs_update [OF i, of a x] show ?thesis
    by (simp add: append_pcb_ptr_def pcbs_rel_def)
qed

text \<open>The arrival queue is the first one; the other queues are not touched.\<close>

lemma pcbs_rel_append:
  assumes rel: "pcbs_rel h (p # ps) (l # ms)" and a: "a \<notin> dom h"
  shows "\<exists>h' p'. append_pcb_ptr a (h(a \<mapsto> \<lparr>nd_data = x, nd_next = None\<rparr>)) p = Some (Inr (h', p')) \<and>
    pcbs_rel h' (p' # ps) ((l @ [(a, x)]) # ms)"
proof -
  let ?h = "h(a \<mapsto> \<lparr>nd_data = x, nd_next = None\<rparr>)"
  have out: "a \<notin> addrs (concat (l # ms))" using rel a by (simp add: pcbs_rel_def)
  have "queues ?h (p # ps) (l # ms)" using rel queues_upd [OF _ out] by (simp add: pcbs_rel_def)
  moreover have "dom ?h = insert a (addrs (concat (l # ms)))" using rel by (simp add: pcbs_rel_def)
  ultimately show ?thesis using pcbs_append_at [of ?h "p # ps" "l # ms" 0 a x] out by simp
qed

definition arrived_rel ::
  "node_addr option list \<Rightarrow> (node_addr \<times> process_control_block_t) list list
    \<Rightarrow> nat \<times> process_control_block_t heap \<times> node_addr option \<times> procs_ptr \<Rightarrow> nat \<times> pcbs_queue_t \<times> process_memories_list_t \<Rightarrow> bool" where
  "arrived_rel ps ms = (\<lambda>(spi, h, p, procs) (spi', q, L).
     spi = spi' \<and> owns Map.empty L procs \<and> (\<exists>l. map snd l = q \<and> pcbs_rel h (p # ps) (l # ms)))"

lemma check_scheduled_processes_ptr_sim:
  assumes al: "allocator_ok al"
  shows "stores st sps \<Longrightarrow> pcbs_rel h (p # ps) (l # ms) \<Longrightarrow> owns Map.empty L procs \<Longrightarrow> spi \<le> length sps \<Longrightarrow>
    simulates (arrived_rel ps ms)
      (check_scheduled_processes_ptr al st spi time h p procs)
      (check_scheduled_processes sps spi time (map snd l) L)"
proof (induction sps spi time "map snd l" L arbitrary: h p l procs rule: check_scheduled_processes.induct)
  case (1 sps spi time L)
  note at = scheduled_ptr_stores [OF 1(2,5)]
  show ?case
  proof (cases "scheduled_at sps spi")
    case (Inl e)
    then show ?thesis by (simp add: check_scheduled_processes_ptr.simps [of al st spi] at check_scheduled_processes.simps [of sps spi])
  next
    case (Inr next_sp)
    show ?thesis
    proof (cases next_sp)
      case None
      with Inr 1(3,4) show ?thesis
        by (auto simp: arrived_rel_def check_scheduled_processes_ptr.simps [of al st spi] at check_scheduled_processes.simps [of sps spi] simp del: owns.simps)
    next
      case (Some sp)
      show ?thesis
      proof (cases "sp_start_time sp \<le> time")
        case False
        with Inr Some 1(3,4) show ?thesis
          by (auto simp: arrived_rel_def check_scheduled_processes_ptr.simps [of al st spi] at check_scheduled_processes.simps [of sps spi] simp del: owns.simps)
      next
        case True
        obtain pcb L' where new: "new_process_control_block_by_scheduled_process sp L = (pcb, L')" by fastforce
        have fin: "finite (dom h)" using 1(3) by (simp add: pcbs_rel_def)
        from new_process_control_block_ptr_sim [OF al 1(4) fin new] obtain a procs' where
          a: "new_process_control_block_ptr al sp h procs =
              Some (Inr (a, h(a \<mapsto> \<lparr>nd_data = pcb, nd_next = None\<rparr>), procs'))" "a \<notin> dom h" "owns Map.empty L' procs'" by blast
        from pcbs_rel_append [OF 1(3) a(2), of pcb] obtain h' p' where
          h': "append_pcb_ptr a (h(a \<mapsto> \<lparr>nd_data = pcb, nd_next = None\<rparr>)) p = Some (Inr (h', p'))"
            "pcbs_rel h' (p' # ps) ((l @ [(a, pcb)]) # ms)" by blast
        have q: "append_pcb_to_pcbs_list pcb (map snd l) = map snd (l @ [(a, pcb)])"
          by (simp add: append_pcb_to_pcbs_list_append)
        have "spi + 1 \<le> length sps" using Inr Some by (auto simp: scheduled_at_def split: if_splits)
        from 1(1) [OF Inr Some True new [symmetric] q 1(2) h'(2) a(3) this] show ?thesis
          using Inr Some True new a(1) h'(1) q
          by (simp add: check_scheduled_processes_ptr.simps [of al st spi] at check_scheduled_processes.simps [of sps spi] del: owns.simps)
      qed
    qed
  qed
qed

section \<open>Loading, running and terminating\<close>

text \<open>What is loaded through the pointer of a control block is what its address names in the list.\<close>

lemma load_process_memory:
  assumes "owns Map.empty L procs"
  shows "load_node (fst procs) (Some b) =
    (case map_of L b of None \<Rightarrow> Inl NullDeref | Some pm \<Rightarrow> Inr (the (fst procs b))) \<and>
    (\<forall>pm. map_of L b = Some pm \<longrightarrow> nd_data (the (fst procs b)) = pm)"
proof -
  obtain h p where procs: "procs = (h, p)" by (cases procs)
  have own: "owns Map.empty L (h, p)" using assms procs by simp
  show ?thesis
  proof (cases "map_of L b")
    case None
    then have "h b = None" using owns_empty_dom [OF own] by (auto simp: map_of_eq_None_iff)
    with None show ?thesis by (simp add: procs load_node_def)
  next
    case (Some pm)
    obtain m where "h b = Some m" "nd_data m = pm" by (rule owns_load [OF own Some])
    with Some show ?thesis by (simp add: procs)
  qed
qed

lemma memory_step_sim:
  assumes al: "allocator_ok al" and rel: "mem_rel (procs, segs) (L, S)" and b: "map_of L b = Some pm"
  shows "simulates mem_rel (swap_in_process_memory_ptr (al_seg al) b time procs segs) (swap_in_process_memory b time L S)"
    "simulates mem_rel (swap_out_by_process_memory_ptr (al_seg al) b procs segs) (swap_out_process_memory_by_process_memory b L S)"
proof -
  from rel obtain l where own: "owns Map.empty L procs" "owns Map.empty l segs" and S: "S = map snd l"
    unfolding mem_rel_def fst_conv snd_conv by (elim conjE exE) (rule that, assumption+, simp)
  have malloc: "malloc_ok (al_seg al)" using al by (simp add: allocator_ok_def)
  have fin: "finite (dom (Map.empty :: free_memory_segment_t heap))" by simp
  show "simulates mem_rel (swap_in_process_memory_ptr (al_seg al) b time procs segs) (swap_in_process_memory b time L S)"
    unfolding S
    by (rule refines_simulates, rule swap_in_process_memory_ptr_refines [OF own(1) _ own(2) malloc fin]) (simp add: b)
  show "simulates mem_rel (swap_out_by_process_memory_ptr (al_seg al) b procs segs) (swap_out_process_memory_by_process_memory b L S)"
    unfolding S
    by (rule refines_simulates, rule swap_out_by_process_memory_ptr_refines [OF own(1) b own(2) malloc fin])
qed

abbreviation block_rel ::
  "process_control_block_t heap \<Rightarrow> node_addr \<Rightarrow> process_control_block_t heap \<times> procs_ptr \<times> segs_ptr
    \<Rightarrow> process_control_block_t \<times> process_memories_list_t \<times> free_memory_segments_list_t \<Rightarrow> bool" where
  "block_rel h a \<equiv> \<lambda>(h', c) (pcb, m). h' = h(a \<mapsto> \<lparr>nd_data = pcb, nd_next = None\<rparr>) \<and> mem_rel c m"

lemma load_pcb_ptr_sim:
  assumes al: "allocator_ok al" and a: "h a = Some n" and rel: "mem_rel (procs, segs) (L, S)"
  shows "simulates (block_rel h a) (load_pcb_ptr al a time h procs segs) (load_pcb (nd_data n) time L S)"
proof -
  let ?b = "pcb_process_memory (nd_data n)"
  have own: "owns Map.empty L procs" using rel by (simp add: mem_rel_def del: owns.simps)
  note load = load_process_memory [OF own, of ?b]
  show ?thesis
  proof (cases "map_of L ?b")
    case None
    with a load show ?thesis by (simp add: load_pcb_ptr_def load_pcb_def)
  next
    case (Some pm)
    let ?m = "if is_process_memory_in_disk pm then swap_in_process_memory ?b time L S else Inr (L, S)"
    let ?r = "if is_process_memory_in_disk pm then swap_in_process_memory_ptr (al_seg al) ?b time procs segs
      else Some (Inr (procs, segs))"
    have "simulates mem_rel ?r ?m" using memory_step_sim(1) [OF al rel Some] rel by simp
    then have "simulates (block_rel h a) (then_do ?r (\<lambda>(procs', segs').
        then_do (Some (clear_next h a)) (\<lambda>h1.
        then_do (Some (store_data h1 (Some a) (\<lambda>p. p\<lparr>pcb_process_state := running, pcb_burst_time := 0\<rparr>))) (\<lambda>h2.
          Some (Inr (h2, procs', segs')))))) (load_pcb (nd_data n) time L S)"
      unfolding load_pcb_def Some option.case
      by (rule simulates_bind) (auto simp: clear_next_def a)
    then show ?thesis using a load Some by (simp add: load_pcb_ptr_def)
  qed
qed

lemma terminate_pcb_ptr_sim:
  assumes al: "allocator_ok al" and a: "h a = Some n" and rel: "mem_rel (procs, segs) (L, S)"
  shows "simulates (block_rel h a) (terminate_pcb_ptr al a h procs segs) (terminate_pcb (nd_data n) L S)"
proof -
  let ?b = "pcb_process_memory (nd_data n)"
  have own: "owns Map.empty L procs" using rel by (simp add: mem_rel_def del: owns.simps)
  note load = load_process_memory [OF own, of ?b]
  show ?thesis
  proof (cases "map_of L ?b")
    case None
    with a load show ?thesis by (simp add: terminate_pcb_ptr_def terminate_pcb_def)
  next
    case (Some pm)
    let ?m = "if \<not> is_process_memory_in_disk pm then swap_out_process_memory_by_process_memory ?b L S else Inr (L, S)"
    let ?r = "if \<not> is_process_memory_in_disk pm then swap_out_by_process_memory_ptr (al_seg al) ?b procs segs
      else Some (Inr (procs, segs))"
    have "simulates mem_rel ?r ?m" using memory_step_sim(2) [OF al rel Some] rel by simp
    then have "simulates (block_rel h a) (then_do ?r (\<lambda>(procs', segs').
        then_do (Some (clear_next h a)) (\<lambda>h1.
        then_do (Some (store_data h1 (Some a) (\<lambda>p. p\<lparr>pcb_process_state := terminated\<rparr>))) (\<lambda>h2.
          Some (Inr (h2, procs', segs')))))) (terminate_pcb (nd_data n) L S)"
      unfolding terminate_pcb_def Some option.case
      by (rule simulates_bind) (auto simp: clear_next_def a)
    then show ?thesis using a load Some by (simp add: terminate_pcb_ptr_def)
  qed
qed

lemma run_pcb_ptr_sim:
  assumes "h a = Some n"
  shows "simulates (\<lambda>h' pcb. h' = h(a \<mapsto> n\<lparr>nd_data := pcb\<rparr>)) (run_pcb_ptr a h) (run_pcb (nd_data n))"
proof (cases "run_pcb (nd_data n)")
  case (Inl e)
  with assms show ?thesis by (simp add: run_pcb_ptr_def)
next
  case (Inr p)
  with assms show ?thesis by (simp add: run_pcb_ptr_def)
qed

section \<open>The status line\<close>

lemma fold_nodes_part: "part h p l None \<Longrightarrow> fold_nodes f h p acc = Some (Inr (fold f (map snd l) acc))"
proof (induction l arbitrary: p acc)
  case Nil
  then show ?case by (subst fold_nodes.simps) simp
next
  case (Cons e l)
  obtain a x where e: "e = (a, x)" by (cases e)
  with Cons.prems obtain n where "p = Some a" "h a = Some n" "nd_data n = x" "part h (nd_next n) l None" by auto
  with Cons.IH [of "nd_next n" "f x acc"] show ?case by (subst fold_nodes.simps) (simp add: e)
qed

lemma fold_nodes_owns: "owns rest l c \<Longrightarrow> fold_nodes f (fst c) (snd c) acc = Some (Inr (fold f (map snd l) acc))"
  by (cases c) (simp add: holds_part fold_nodes_part)

lemma print_simulation_status_ptr_sim:
  assumes a: "h a = Some n" and rel: "mem_rel (procs, segs) (L, S)"
  shows "print_simulation_status_ptr time a h procs segs memsize =
    Some (print_simulation_status time (nd_data n) L S memsize)"
proof -
  from rel obtain l where own: "owns Map.empty L procs" "owns Map.empty l segs" and S: "S = map snd l"
    unfolding mem_rel_def fst_conv snd_conv by (elim conjE exE) (rule that, assumption+, simp)
  have "fold (\<lambda>_ cnt. cnt + 1) S c = count_free_memory_segments c S" for c
    by (induction S arbitrary: c) auto
  then have "count_holes_ptr segs = Some (Inr (get_free_memory_segments_list_count S))"
    by (simp only: count_holes_ptr_def get_free_memory_segments_list_count_def fold_nodes_owns [OF own(2)] S [symmetric])
  moreover have "fold (\<lambda>pm cnt. if \<not> is_process_memory_in_disk pm then cnt + 1 else cnt) (map snd L) c = count_not_in_disk c L" for c
    by (induction L arbitrary: c) auto
  then have "count_not_in_disk_ptr procs = Some (Inr (get_process_memories_list_not_in_disk_count L))"
    by (simp only: count_not_in_disk_ptr_def get_process_memories_list_not_in_disk_count_def fold_nodes_owns [OF own(1)])
  moreover have "fold (\<lambda>pm sz. if \<not> is_process_memory_in_disk pm then sz + pm_size pm else sz) (map snd L) c = size_not_in_disk c L" for c
    by (induction L arbitrary: c) auto
  then have "size_not_in_disk_ptr procs = Some (Inr (get_process_memories_list_not_in_disk_size L))"
    by (simp only: size_not_in_disk_ptr_def get_process_memories_list_not_in_disk_size_def fold_nodes_owns [OF own(1)])
  ultimately show ?thesis
    using a by (cases "c_int (100 * get_process_memories_list_not_in_disk_size L)")
      (simp_all add: print_simulation_status_ptr_def print_simulation_status_def Let_def c_int_def)
qed

end
