(* ===== verification/Runner_Pointers.thy ===== *)
theory Runner_Pointers
  imports Fcfs Multi Scheduler_Pointers
begin

text \<open>
  The two runners of \<open>project1/process-scheduler.c\<close> with all their pointers: queues, lists and
  \<open>running\<close> are addresses in the heaps of \<open>Scheduler_Pointers\<close>, and every list is freed at the end.
  Each round simulates the round on lists, and so do the loops and the runners: they print
  the same lines, use no null or freed pointer where the lists have none, end, and leave all
  heaps empty.
\<close>

section \<open>States with pointers\<close>

record sim_ptr =
  pt_time :: int
  pt_running :: "node_addr option"
  pt_terminated :: "node_addr option"
  pt_spi :: nat
  pt_pcbs :: "process_control_block_t heap"
  pt_procs :: procs_ptr
  pt_segs :: segs_ptr
  pt_out :: "out_line list"

record fcfs_ptr = sim_ptr +
  pt_queue :: "node_addr option"

record multi_ptr = sim_ptr +
  pt_queues :: "node_addr option list"

text \<open>A process that was taken from a queue is loaded and its status printed.\<close>

definition start_ptr :: "allocator \<Rightarrow> int \<Rightarrow> node_addr \<Rightarrow> ('a sim_ptr_scheme) \<Rightarrow> 'a sim_ptr_scheme res option" where
  "start_ptr al memsize pcb s =
     then_do (load_pcb_ptr al pcb (pt_time s) (pt_pcbs s) (pt_procs s) (pt_segs s)) (\<lambda>(h, procs, segs).
     then_do (print_simulation_status_ptr (pt_time s) pcb h procs segs memsize) (\<lambda>line.
       Some (Inr (s\<lparr>pt_running := Some pcb, pt_pcbs := h, pt_procs := procs, pt_segs := segs,
                     pt_out := pt_out s @ [line]\<rparr>))))"

text \<open>A running process that has finished is terminated and appended to its list.\<close>

definition finish_ptr :: "allocator \<Rightarrow> node_addr \<Rightarrow> ('a sim_ptr_scheme) \<Rightarrow> 'a sim_ptr_scheme res option" where
  "finish_ptr al pcb s =
     then_do (terminate_pcb_ptr al pcb (pt_pcbs s) (pt_procs s) (pt_segs s)) (\<lambda>(h, procs, segs).
     then_do (append_pcb_ptr pcb h (pt_terminated s)) (\<lambda>(h', head).
       Some (Inr (s\<lparr>pt_running := None, pt_terminated := head, pt_pcbs := h', pt_procs := procs, pt_segs := segs\<rparr>))))"

section \<open>The runners\<close>

definition fcfs_arrive_ptr :: "allocator \<Rightarrow> sched_ptr \<Rightarrow> fcfs_ptr \<Rightarrow> fcfs_ptr res option" where
  "fcfs_arrive_ptr al st s =
     then_do (check_scheduled_processes_ptr al st (pt_spi s) (pt_time s) (pt_pcbs s) (pt_queue s) (pt_procs s))
       (\<lambda>(spi, h, head, procs). Some (Inr (s\<lparr>pt_spi := spi, pt_pcbs := h, pt_queue := head, pt_procs := procs\<rparr>)))"

definition fcfs_dispatch_ptr ::
  "allocator \<Rightarrow> sched_ptr \<Rightarrow> int \<Rightarrow> fcfs_ptr \<Rightarrow> fcfs_ptr control res option" where
  "fcfs_dispatch_ptr al st memsize s =
     (if pt_running s = None
      then then_do (Some (pop_front_ptr (pt_pcbs s) (pt_queue s))) (\<lambda>(running, head).
             case running of
               Some pcb \<Rightarrow> then_do (start_ptr al memsize pcb (s\<lparr>pt_queue := head\<rparr>)) (\<lambda>s'. Some (Inr (Continue s')))
             | None \<Rightarrow>
                 then_do (Some (scheduled_ptr st (pt_spi s))) (\<lambda>sp.
                   if head = None \<and> sp = None then Some (Inr (Break s))
                   else Some (Inr (Continue (s\<lparr>pt_queue := head\<rparr>)))))
      else Some (Inr (Continue s)))"

definition fcfs_execute_ptr :: "allocator \<Rightarrow> fcfs_ptr \<Rightarrow> fcfs_ptr res option" where
  "fcfs_execute_ptr al s =
     (case pt_running s of
        None \<Rightarrow> then_do (Some (c_int (pt_time s + 1))) (\<lambda>time. Some (Inr (s\<lparr>pt_time := time\<rparr>)))
      | Some pcb \<Rightarrow>
          then_do (run_pcb_ptr pcb (pt_pcbs s)) (\<lambda>h.
          then_do (Some (c_int (pt_time s + 1))) (\<lambda>time.
          then_do (Some (load_node h (Some pcb))) (\<lambda>n.
            let s1 = s\<lparr>pt_pcbs := h, pt_time := time\<rparr> in
            if is_pcb_finished (nd_data n) then finish_ptr al pcb s1 else Some (Inr s1)))))"

definition fcfs_step_ptr ::
  "allocator \<Rightarrow> sched_ptr \<Rightarrow> int \<Rightarrow> fcfs_ptr \<Rightarrow> fcfs_ptr control res option" where
  "fcfs_step_ptr al st memsize s =
     then_do (fcfs_arrive_ptr al st s) (\<lambda>s1.
     then_do (fcfs_dispatch_ptr al st memsize s1) (\<lambda>c.
       case c of
         Break s2 \<Rightarrow> Some (Inr (Break s2))
       | Continue s2 \<Rightarrow> then_do (fcfs_execute_ptr al s2) (\<lambda>s3. Some (Inr (Continue s3)))))"

partial_function (option) fcfs_loop_ptr ::
  "allocator \<Rightarrow> sched_ptr \<Rightarrow> int \<Rightarrow> fcfs_ptr \<Rightarrow> fcfs_ptr res option" where
  "fcfs_loop_ptr al st memsize s =
     (case fcfs_step_ptr al st memsize s of
        None \<Rightarrow> None
      | Some (Inl e) \<Rightarrow> Some (Inl e)
      | Some (Inr (Break s')) \<Rightarrow> Some (Inr s')
      | Some (Inr (Continue s')) \<Rightarrow> fcfs_loop_ptr al st memsize s')"

definition multi_arrive_ptr :: "allocator \<Rightarrow> sched_ptr \<Rightarrow> multi_ptr \<Rightarrow> multi_ptr res option" where
  "multi_arrive_ptr al st s =
     (case pt_queues s of
        [] \<Rightarrow> Some (Inl OutOfBounds)
      | q1 # qs \<Rightarrow>
          then_do (check_scheduled_processes_ptr al st (pt_spi s) (pt_time s) (pt_pcbs s) q1 (pt_procs s))
            (\<lambda>(spi, h, head, procs).
               Some (Inr (s\<lparr>pt_spi := spi, pt_pcbs := h, pt_queues := head # qs, pt_procs := procs\<rparr>))))"

definition multi_dispatch_ptr ::
  "allocator \<Rightarrow> sched_ptr \<Rightarrow> int \<Rightarrow> multi_ptr \<Rightarrow> multi_ptr control res option" where
  "multi_dispatch_ptr al st memsize s =
     (if pt_running s = None
      then then_do (Some (pop_first_ptr (pt_pcbs s) (pt_queues s))) (\<lambda>(running, heads).
             case running of
               Some pcb \<Rightarrow> then_do (start_ptr al memsize pcb (s\<lparr>pt_queues := heads\<rparr>)) (\<lambda>s'. Some (Inr (Continue s')))
             | None \<Rightarrow>
                 then_do (Some (scheduled_ptr st (pt_spi s))) (\<lambda>sp.
                   if sp = None then Some (Inr (Break s))
                   else Some (Inr (Continue (s\<lparr>pt_queues := heads\<rparr>)))))
      else Some (Inr (Continue s)))"

text \<open>A process that has used up its quantum goes to the end of the queue of its new priority.\<close>

definition demote_ptr :: "node_addr \<Rightarrow> multi_ptr \<Rightarrow> multi_ptr res option" where
  "demote_ptr pcb s =
     then_do (Some (store_data (pt_pcbs s) (Some pcb) ready_and_decrease_priority_pcb)) (\<lambda>h.
     then_do (Some (load_node h (Some pcb))) (\<lambda>n.
       let i = pcb_priority (nd_data n) - 1 in
       if 0 \<le> i \<and> nat i < length (pt_queues s)
       then then_do (append_pcb_ptr pcb h (pt_queues s ! nat i)) (\<lambda>(h', head).
              Some (Inr (s\<lparr>pt_running := None, pt_pcbs := h', pt_queues := (pt_queues s)[nat i := head]\<rparr>)))
       else Some (Inl OutOfBounds)))"

definition multi_execute_ptr :: "allocator \<Rightarrow> multi_ptr \<Rightarrow> multi_ptr res option" where
  "multi_execute_ptr al s =
     (case pt_running s of
        None \<Rightarrow> then_do (Some (c_int (pt_time s + 1))) (\<lambda>time. Some (Inr (s\<lparr>pt_time := time\<rparr>)))
      | Some pcb \<Rightarrow>
          then_do (run_pcb_ptr pcb (pt_pcbs s)) (\<lambda>h.
          then_do (Some (c_int (pt_time s + 1))) (\<lambda>time.
          then_do (Some (load_node h (Some pcb))) (\<lambda>n.
            let s1 = s\<lparr>pt_pcbs := h, pt_time := time\<rparr> in
            if is_pcb_finished (nd_data n) then finish_ptr al pcb s1
            else if is_quantum_exhausted_by_pcb (nd_data n) then demote_ptr pcb s1
            else Some (Inr s1)))))"

definition multi_step_ptr ::
  "allocator \<Rightarrow> sched_ptr \<Rightarrow> int \<Rightarrow> multi_ptr \<Rightarrow> multi_ptr control res option" where
  "multi_step_ptr al st memsize s =
     then_do (multi_arrive_ptr al st s) (\<lambda>s1.
     then_do (multi_dispatch_ptr al st memsize s1) (\<lambda>c.
       case c of
         Break s2 \<Rightarrow> Some (Inr (Break s2))
       | Continue s2 \<Rightarrow> then_do (multi_execute_ptr al s2) (\<lambda>s3. Some (Inr (Continue s3)))))"

partial_function (option) multi_loop_ptr ::
  "allocator \<Rightarrow> sched_ptr \<Rightarrow> int \<Rightarrow> multi_ptr \<Rightarrow> multi_ptr res option" where
  "multi_loop_ptr al st memsize s =
     (case multi_step_ptr al st memsize s of
        None \<Rightarrow> None
      | Some (Inl e) \<Rightarrow> Some (Inl e)
      | Some (Inr (Break s')) \<Rightarrow> Some (Inr s')
      | Some (Inr (Continue s')) \<Rightarrow> multi_loop_ptr al st memsize s')"

text \<open>Freeing all lists at the end; the result is what is left in the heaps.\<close>

fun free_queues_ptr :: "process_control_block_t heap \<Rightarrow> node_addr option list \<Rightarrow> process_control_block_t heap res option" where
  "free_queues_ptr h [] = Some (Inr h)"
| "free_queues_ptr h (head # heads) = then_do (free_pcbs_queue_ptr h head) (\<lambda>h'. free_queues_ptr h' heads)"

type_synonym heaps = "process_control_block_t heap \<times> process_memory_t heap \<times> free_memory_segment_t heap \<times> sched_heap"

definition end_ptr :: "node_addr option list \<Rightarrow> sched_ptr \<Rightarrow> ('a sim_ptr_scheme) \<Rightarrow> (out_line list \<times> heaps) res option" where
  "end_ptr heads st s =
     then_do (free_queues_ptr (pt_pcbs s) (heads @ [pt_terminated s])) (\<lambda>pcbs.
     then_do (Some (free_scheduled_processes_ptr st)) (\<lambda>sps.
     then_do (free_free_memory_segments_list_ptr (pt_segs s)) (\<lambda>segs.
     then_do (free_process_memories_list_ptr (pt_procs s)) (\<lambda>procs.
       Some (Inr (pt_out s @ [Finished (pt_time s)], pcbs, procs, segs, sps))))))"

definition fcfs_start_ptr :: "allocator \<Rightarrow> int \<Rightarrow> fcfs_ptr" where
  "fcfs_start_ptr al memsize =
     \<lparr>pt_time = 0, pt_running = None, pt_terminated = None, pt_spi = 0, pt_pcbs = Map.empty,
      pt_procs = (Map.empty, None), pt_segs = new_free_memory_segments_list_ptr (al_seg al) memsize Map.empty,
      pt_out = [], pt_queue = None\<rparr>"

definition multi_start_ptr :: "allocator \<Rightarrow> int \<Rightarrow> multi_ptr" where
  "multi_start_ptr al memsize =
     \<lparr>pt_time = 0, pt_running = None, pt_terminated = None, pt_spi = 0, pt_pcbs = Map.empty,
      pt_procs = (Map.empty, None), pt_segs = new_free_memory_segments_list_ptr (al_seg al) memsize Map.empty,
      pt_out = [], pt_queues = replicate (nat MIN_PRIORITY) None\<rparr>"

definition fcfs_runner_ptr :: "allocator \<Rightarrow> string option \<Rightarrow> int \<Rightarrow> (out_line list \<times> heaps) res option" where
  "fcfs_runner_ptr al file memsize =
     (case file of
        None \<Rightarrow> Some (Inl (Exit 1))
      | Some fp \<Rightarrow>
          then_do (Some (parse_process_data_file_ptr (al_sp al) fp)) (\<lambda>scheduled_processes.
          then_do (fcfs_loop_ptr al scheduled_processes memsize (fcfs_start_ptr al memsize)) (\<lambda>s.
            end_ptr [pt_queue s] scheduled_processes s)))"

definition multi_runner_ptr :: "allocator \<Rightarrow> string option \<Rightarrow> int \<Rightarrow> (out_line list \<times> heaps) res option" where
  "multi_runner_ptr al file memsize =
     (case file of
        None \<Rightarrow> Some (Inl (Exit 1))
      | Some fp \<Rightarrow>
          then_do (Some (parse_process_data_file_ptr (al_sp al) fp)) (\<lambda>scheduled_processes.
          then_do (multi_loop_ptr al scheduled_processes memsize (multi_start_ptr al memsize)) (\<lambda>s.
            end_ptr (pt_queues s) scheduled_processes s)))"

section \<open>States\<close>

text \<open>
  A state with pointers represents a state on lists: the ready queues, the list of terminated
  processes and the running process, as a list of at most one block, own the heap of control
  blocks, and the two lists of the memory manager own theirs.
\<close>

definition running_list :: "process_control_block_t option \<Rightarrow> process_control_block_t list" where
  "running_list r = (case r of None \<Rightarrow> [] | Some pcb \<Rightarrow> [pcb])"

definition sim_rel ::
  "node_addr option list \<Rightarrow> 'a sim_ptr_scheme \<Rightarrow> pcbs_queue_t list \<Rightarrow> 'b sim_state_scheme \<Rightarrow> bool" where
  "sim_rel heads c qs s \<longleftrightarrow>
     pt_time c = sim_time s \<and> pt_spi c = sim_spi s \<and> pt_out c = sim_out s \<and>
     mem_rel (pt_procs c, pt_segs c) (sim_procs s, sim_segs s) \<and>
     (\<exists>ls lt lr. length heads = length ls \<and>
        pcbs_rel (pt_pcbs c) (heads @ [pt_terminated c, pt_running c]) (ls @ [lt, lr]) \<and>
        map (map snd) ls = qs \<and> map snd lt = sim_terminated s \<and> map snd lr = running_list (sim_running s))"

definition fcfs_rel :: "fcfs_ptr \<Rightarrow> fcfs_state \<Rightarrow> bool" where
  "fcfs_rel c s \<longleftrightarrow> sim_rel [pt_queue c] c [ready_queue s] s"

definition multi_rel :: "multi_ptr \<Rightarrow> multi_state \<Rightarrow> bool" where
  "multi_rel c s \<longleftrightarrow> sim_rel (pt_queues c) c (ready_qs s) s"

lemma sim_relE:
  assumes "sim_rel heads c qs s"
  obtains ls lt lr where "pt_time c = sim_time s" "pt_spi c = sim_spi s" "pt_out c = sim_out s"
    "mem_rel (pt_procs c, pt_segs c) (sim_procs s, sim_segs s)" "length heads = length ls"
    "pcbs_rel (pt_pcbs c) (heads @ [pt_terminated c, pt_running c]) (ls @ [lt, lr])"
    "map (map snd) ls = qs" "map snd lt = sim_terminated s" "map snd lr = running_list (sim_running s)"
  using assms unfolding sim_rel_def by (elim conjE exE) (rule that, assumption+)

lemma sim_rel_running:
  assumes "sim_rel heads c qs s"
  shows "case sim_running s of
      None \<Rightarrow> pt_running c = None
    | Some pcb \<Rightarrow> \<exists>a. pt_running c = Some a \<and> pt_pcbs c a = Some \<lparr>nd_data = pcb, nd_next = None\<rparr>"
proof -
  from assms obtain ls lt lr where len: "length heads = length ls"
    and rel: "pcbs_rel (pt_pcbs c) (heads @ [pt_terminated c, pt_running c]) (ls @ [lt, lr])"
    and lr: "map snd lr = running_list (sim_running s)" by (rule sim_relE)
  have holds: "holds (pt_pcbs c) (pt_running c) lr"
    using rel len by (simp add: pcbs_rel_def queues_append queues_Cons)
  show ?thesis
  proof (cases "sim_running s")
    case None
    with lr holds show ?thesis by (simp add: running_list_def)
  next
    case (Some pcb)
    with lr obtain a where "lr = [(a, pcb)]" by (auto simp: running_list_def)
    with holds Some show ?thesis by (auto simp: holds_part)
  qed
qed

text \<open>The last list is the running process: taking it out of the lists and back.\<close>

lemma pcbs_rel_snoc_None:
  "pcbs_rel h (heads @ [t, None]) (ls @ [lt, []]) \<longleftrightarrow> pcbs_rel h (heads @ [t]) (ls @ [lt])"
  if "length heads = length ls"
  using that by (auto simp: pcbs_rel_def queues_append queues_Cons)

lemma pcbs_rel_snoc_Some:
  assumes len: "length heads = length ls" and qs: "queues h (heads @ [t]) (ls @ [lt])" and a: "a \<notin> addrs (concat (ls @ [lt]))"
    and dom: "dom h \<subseteq> insert a (addrs (concat (ls @ [lt])))" "addrs (concat (ls @ [lt])) \<subseteq> dom h"
  shows "pcbs_rel (h(a \<mapsto> \<lparr>nd_data = x, nd_next = None\<rparr>)) (heads @ [t, Some a]) (ls @ [lt, [(a, x)]])"
proof -
  let ?h = "h(a \<mapsto> \<lparr>nd_data = x, nd_next = None\<rparr>)"
  have "queues ?h (heads @ [t]) (ls @ [lt])" by (rule queues_upd [OF qs a])
  moreover have "queues ?h [Some a] [[(a, x)]]" by (simp add: queues_def holds_part)
  ultimately have "queues ?h ((heads @ [t]) @ [Some a]) ((ls @ [lt]) @ [[(a, x)]])"
    using len a by (subst queues_append) auto
  moreover have "addrs (concat (ls @ [lt, [(a, x)]])) = insert a (addrs (concat (ls @ [lt])))" by auto
  moreover have "dom ?h = insert a (addrs (concat (ls @ [lt])))"
  proof
    show "dom ?h \<subseteq> insert a (addrs (concat (ls @ [lt])))" using dom(1) by simp
    show "insert a (addrs (concat (ls @ [lt]))) \<subseteq> dom ?h" using insert_mono [OF dom(2), of a] by simp
  qed
  ultimately show ?thesis by (simp only: pcbs_rel_def append_assoc append_Cons append_Nil simp_thms)
qed

lemma pcbs_rel_running:
  assumes len: "length heads = length ls" and rel: "pcbs_rel h (heads @ [t, Some a]) (ls @ [lt, [(a, x)]])"
  shows "queues h (heads @ [t]) (ls @ [lt])" "a \<notin> addrs (concat (ls @ [lt]))"
    "dom h = insert a (addrs (concat (ls @ [lt])))"
proof -
  have "queues h ((heads @ [t]) @ [Some a]) ((ls @ [lt]) @ [[(a, x)]])" using rel by (simp add: pcbs_rel_def)
  then show "queues h (heads @ [t]) (ls @ [lt])" "a \<notin> addrs (concat (ls @ [lt]))"
    using len by (subst (asm) queues_append; auto)+
  show "dom h = insert a (addrs (concat (ls @ [lt])))" using rel by (auto simp: pcbs_rel_def)
qed

text \<open>A state with a running process, and one that gets it back with other data.\<close>

lemma sim_rel_someE:
  assumes rel: "sim_rel heads c qs s" and run: "sim_running s = Some pcb"
  obtains a ls lt where "pt_running c = Some a" "pt_pcbs c a = Some \<lparr>nd_data = pcb, nd_next = None\<rparr>" "length heads = length ls"
    "queues (pt_pcbs c) (heads @ [pt_terminated c]) (ls @ [lt])" "a \<notin> addrs (concat (ls @ [lt]))"
    "dom (pt_pcbs c) = insert a (addrs (concat (ls @ [lt])))" "map (map snd) ls = qs" "map snd lt = sim_terminated s"
    "pt_time c = sim_time s" "pt_spi c = sim_spi s" "pt_out c = sim_out s"
    "mem_rel (pt_procs c, pt_segs c) (sim_procs s, sim_segs s)"
proof -
  from rel obtain ls lt lr where
    eq: "pt_time c = sim_time s" "pt_spi c = sim_spi s" "pt_out c = sim_out s" and
    mem: "mem_rel (pt_procs c, pt_segs c) (sim_procs s, sim_segs s)" and len: "length heads = length ls" and
    pcbs: "pcbs_rel (pt_pcbs c) (heads @ [pt_terminated c, pt_running c]) (ls @ [lt, lr])" and
    maps: "map (map snd) ls = qs" "map snd lt = sim_terminated s" "map snd lr = running_list (sim_running s)"
    by (rule sim_relE)
  from sim_rel_running [OF rel] run obtain a where
    a: "pt_running c = Some a" "pt_pcbs c a = Some \<lparr>nd_data = pcb, nd_next = None\<rparr>" by auto
  from maps(3) run obtain b where "lr = [(b, pcb)]" by (auto simp: running_list_def)
  moreover have "holds (pt_pcbs c) (Some a) lr" using pcbs len a by (simp add: pcbs_rel_def queues_append queues_Cons)
  ultimately have lr: "lr = [(a, pcb)]" by (simp add: holds_part)
  note out = pcbs_rel_running [OF len pcbs [unfolded a(1) lr]]
  show thesis by (rule that [OF a len out maps(1,2) eq mem])
qed

lemma sim_rel_someI:
  assumes "pt_time c = sim_time s" "pt_spi c = sim_spi s" "pt_out c = sim_out s"
    "mem_rel (pt_procs c, pt_segs c) (sim_procs s, sim_segs s)" and len: "length heads = length ls"
    and pcbs: "pt_pcbs c = h(a \<mapsto> \<lparr>nd_data = pcb, nd_next = None\<rparr>)"
    and qs: "queues h (heads @ [pt_terminated c]) (ls @ [lt])" "a \<notin> addrs (concat (ls @ [lt]))"
      "dom h = insert a (addrs (concat (ls @ [lt])))"
    and maps: "map (map snd) ls = qs" "map snd lt = sim_terminated s"
    and run: "pt_running c = Some a" "sim_running s = Some pcb"
  shows "sim_rel heads c qs s"
proof -
  have "pcbs_rel (pt_pcbs c) (heads @ [pt_terminated c, pt_running c]) (ls @ [lt, [(a, pcb)]])"
    unfolding pcbs run using qs(3) by (intro pcbs_rel_snoc_Some [OF len qs(1,2)]) auto
  with assms show ?thesis unfolding sim_rel_def
    by (intro conjI exI [of _ ls] exI [of _ lt] exI [of _ "[(a, pcb)]"]) (simp_all add: running_list_def)
qed

section \<open>Rounds\<close>

lemma sim_rel_arrive:
  assumes al: "allocator_ok al" and st: "stores st sps" "sim_spi s \<le> length sps" and rel: "sim_rel (p # ps) c (q # qs) s"
  shows "simulates (\<lambda>(spi, h, p', procs) (spi', q', L).
      sim_rel (p' # ps) (c\<lparr>pt_spi := spi, pt_pcbs := h, pt_procs := procs\<rparr>) (q' # qs) (s\<lparr>sim_spi := spi', sim_procs := L\<rparr>))
    (check_scheduled_processes_ptr al st (pt_spi c) (pt_time c) (pt_pcbs c) p (pt_procs c))
    (check_scheduled_processes sps (sim_spi s) (sim_time s) q (sim_procs s))"
proof -
  from rel obtain ls lt lr where
    eq: "pt_time c = sim_time s" "pt_spi c = sim_spi s" "pt_out c = sim_out s" and
    mem: "mem_rel (pt_procs c, pt_segs c) (sim_procs s, sim_segs s)" and len: "length (p # ps) = length ls" and
    pcbs: "pcbs_rel (pt_pcbs c) ((p # ps) @ [pt_terminated c, pt_running c]) (ls @ [lt, lr])" and
    maps: "map (map snd) ls = q # qs" "map snd lt = sim_terminated s" "map snd lr = running_list (sim_running s)"
    by (rule sim_relE)
  from maps(1) obtain l ms where ls: "ls = l # ms" "map snd l = q" "map (map snd) ms = qs" by auto
  have own: "owns Map.empty (sim_procs s) (pt_procs c)" using mem by (simp add: mem_rel_def del: owns.simps)
  from pcbs have pcbs1: "pcbs_rel (pt_pcbs c) (p # ps @ [pt_terminated c, pt_running c]) (l # ms @ [lt, lr])" by (simp add: ls)
  note arr = check_scheduled_processes_ptr_sim [OF al st(1) pcbs1 own st(2), of "sim_time s"]
  show ?thesis
    unfolding eq ls(2) [symmetric]
  proof (rule simulates_mono [OF arr])
    fix y x
    assume r: "arrived_rel (ps @ [pt_terminated c, pt_running c]) (ms @ [lt, lr]) y x"
    obtain spi h' p' procs' where y: "y = (spi, h', p', procs')" by (cases y)
    obtain spi' q' L' where x: "x = (spi', q', L')" by (cases x)
    from r obtain l' where l': "spi = spi'" "owns Map.empty L' procs'" "map snd l' = q'"
      "pcbs_rel h' (p' # ps @ [pt_terminated c, pt_running c]) (l' # ms @ [lt, lr])"
      unfolding arrived_rel_def y x prod.case by (elim conjE exE)
    have "mem_rel (procs', pt_segs c) (L', sim_segs s)" using mem l'(2) by (simp add: mem_rel_def del: owns.simps)
    moreover have "\<exists>ls lt lr. length (p' # ps) = length ls \<and> pcbs_rel h' ((p' # ps) @ [pt_terminated c, pt_running c]) (ls @ [lt, lr]) \<and>
        map (map snd) ls = q' # qs \<and> map snd lt = sim_terminated s \<and> map snd lr = running_list (sim_running s)"
      by (intro exI [of _ "l' # ms"] exI [of _ lt] exI [of _ lr]) (use l' maps ls len in simp)
    ultimately show "(case y of (spi, h, p', procs) \<Rightarrow> \<lambda>(spi', q', L).
      sim_rel (p' # ps) (c\<lparr>pt_spi := spi, pt_pcbs := h, pt_procs := procs\<rparr>) (q' # qs) (s\<lparr>sim_spi := spi', sim_procs := L\<rparr>)) x"
      using eq l'(1) unfolding y x by (simp add: sim_rel_def)
  qed
qed

text \<open>The relation looks at the fields that both runners have.\<close>

lemma sim_rel_cong:
  fixes c :: "'a sim_ptr_scheme" and c' :: "'b sim_ptr_scheme" and s :: "'c sim_state_scheme" and s' :: "'d sim_state_scheme"
  assumes "sim_rel heads c qs s" "sim_ptr.truncate c' = sim_ptr.truncate c" "sim_state.truncate s' = sim_state.truncate s"
  shows "sim_rel heads c' qs s'"
  using assms by (simp add: sim_rel_def sim_ptr.truncate_def sim_state.truncate_def)

lemmas truncate_defs = sim_ptr.truncate_def sim_state.truncate_def

lemma fcfs_relI:
  assumes "sim_rel heads c qs s" "heads = [pt_queue c']" "qs = [ready_queue s']"
    "sim_ptr.truncate c' = sim_ptr.truncate c" "sim_state.truncate s' = sim_state.truncate s"
  shows "fcfs_rel c' s'"
  unfolding fcfs_rel_def using sim_rel_cong [OF assms(1,4,5)] assms(2,3) by simp

lemma multi_relI:
  assumes "sim_rel heads c qs s" "heads = pt_queues c'" "qs = ready_qs s'"
    "sim_ptr.truncate c' = sim_ptr.truncate c" "sim_state.truncate s' = sim_state.truncate s"
  shows "multi_rel c' s'"
  unfolding multi_rel_def using sim_rel_cong [OF assms(1,4,5)] assms(2,3) by simp

lemma fcfs_arrive_sim:
  assumes al: "allocator_ok al" and st: "stores st sps" "sim_spi s \<le> length sps" and rel: "fcfs_rel c s"
  shows "simulates fcfs_rel (fcfs_arrive_ptr al st c) (fcfs_arrive sps s)"
  unfolding fcfs_arrive_ptr_def fcfs_arrive_def
  by (rule simulates_bind [OF sim_rel_arrive [OF al st rel [unfolded fcfs_rel_def]]])
    (auto elim!: fcfs_relI simp: truncate_defs)

lemma multi_arrive_sim:
  assumes al: "allocator_ok al" and st: "stores st sps" "sim_spi s \<le> length sps" and rel: "multi_rel c s"
  shows "simulates multi_rel (multi_arrive_ptr al st c) (multi_arrive sps s)"
proof (cases "pt_queues c")
  case Nil
  then have "ready_qs s = []" using rel by (auto simp: multi_rel_def elim: sim_relE)
  with Nil show ?thesis by (simp add: multi_arrive_ptr_def multi_arrive_def)
next
  case (Cons p ps)
  then obtain q qs where qs: "ready_qs s = q # qs" using rel
    by (cases "ready_qs s") (auto simp: multi_rel_def elim: sim_relE)
  have "sim_rel (p # ps) c (q # qs) s" using rel by (simp add: multi_rel_def Cons qs)
  note arr = sim_rel_arrive [OF al st this]
  show ?thesis
    unfolding multi_arrive_ptr_def multi_arrive_def Cons qs list.case
    by (rule simulates_bind [OF arr]) (auto elim!: multi_relI simp: truncate_defs)
qed

text \<open>Starting a block that was taken from the ready queues.\<close>

lemma start_ptr_sim:
  assumes al: "allocator_ok al" and len: "length heads = length ls"
    and eq: "pt_time c = sim_time s" "pt_spi c = sim_spi s" "pt_out c = sim_out s"
    and mem: "mem_rel (pt_procs c, pt_segs c) (sim_procs s, sim_segs s)"
    and qs: "queues (pt_pcbs c) (heads @ [pt_terminated c]) (ls @ [lt])"
    and a: "pt_pcbs c a = Some n" "a \<notin> addrs (concat (ls @ [lt]))"
    and dom: "dom (pt_pcbs c) = insert a (addrs (concat (ls @ [lt])))"
    and lt: "map snd lt = sim_terminated s"
  shows "simulates (\<lambda>c' s'. sim_rel heads c' (map (map snd) ls) s' \<and> sim_ptr.more c' = sim_ptr.more c \<and> sim_state.more s' = sim_state.more s)
    (start_ptr al memsize a c)
    (res_bind (load_pcb (nd_data n) (sim_time s) (sim_procs s) (sim_segs s)) (\<lambda>(pcb', procs, segs).
     res_bind (print_simulation_status (sim_time s) pcb' procs segs memsize) (\<lambda>line.
       Inr (s\<lparr>sim_running := Some pcb', sim_procs := procs, sim_segs := segs, sim_out := sim_out s @ [line]\<rparr>))))"
  unfolding start_ptr_def eq(1)
proof (rule simulates_bind [OF load_pcb_ptr_sim [where h = "pt_pcbs c", OF al a(1) mem]])
  fix y x
  assume r: "block_rel (pt_pcbs c) a y x"
  obtain h procs segs where y: "y = (h, procs, segs)" by (cases y)
  obtain pcb' L S where x: "x = (pcb', L, S)" by (cases x)
  have h: "h = (pt_pcbs c)(a \<mapsto> \<lparr>nd_data = pcb', nd_next = None\<rparr>)" and mem': "mem_rel (procs, segs) (L, S)"
    using r by (auto simp: y x)
  have line: "print_simulation_status_ptr (sim_time s) a h procs segs memsize =
      Some (print_simulation_status (sim_time s) pcb' L S memsize)"
    using print_simulation_status_ptr_sim [OF _ mem', of h a] by (simp add: h)
  show "simulates (\<lambda>c' s'. sim_rel heads c' (map (map snd) ls) s' \<and> sim_ptr.more c' = sim_ptr.more c \<and> sim_state.more s' = sim_state.more s)
      (case y of (h, procs, segs) \<Rightarrow> then_do (print_simulation_status_ptr (sim_time s) a h procs segs memsize) (\<lambda>line.
        Some (Inr (c\<lparr>pt_running := Some a, pt_pcbs := h, pt_procs := procs, pt_segs := segs, pt_out := pt_out c @ [line]\<rparr>))))
      (case x of (pcb', procs, segs) \<Rightarrow> res_bind (print_simulation_status (sim_time s) pcb' procs segs memsize) (\<lambda>line.
        Inr (s\<lparr>sim_running := Some pcb', sim_procs := procs, sim_segs := segs, sim_out := sim_out s @ [line]\<rparr>)))"
    unfolding y x prod.case line
  proof (rule simulates_same)
    fix line
    show "simulates (\<lambda>c' s'. sim_rel heads c' (map (map snd) ls) s' \<and> sim_ptr.more c' = sim_ptr.more c \<and> sim_state.more s' = sim_state.more s)
      (Some (Inr (c\<lparr>pt_running := Some a, pt_pcbs := h, pt_procs := procs, pt_segs := segs, pt_out := pt_out c @ [line]\<rparr>)))
      (Inr (s\<lparr>sim_running := Some pcb', sim_procs := L, sim_segs := S, sim_out := sim_out s @ [line]\<rparr>))"
      unfolding simulates_simps
      by (intro conjI sim_rel_someI [where h = "pt_pcbs c" and ls = ls and lt = lt and a = a and pcb = pcb'])
        (use eq mem' len qs a dom lt h in simp_all)
  qed
qed

text \<open>Finishing the running block.\<close>

lemma finish_ptr_sim:
  assumes al: "allocator_ok al" and rel: "sim_rel heads c qs s" and run: "pt_running c = Some a" "sim_running s = Some pcb"
  shows "simulates (\<lambda>c' s'. sim_rel heads c' qs s' \<and> sim_ptr.more c' = sim_ptr.more c \<and> sim_state.more s' = sim_state.more s)
    (finish_ptr al a c)
    (res_bind (terminate_pcb pcb (sim_procs s) (sim_segs s)) (\<lambda>(pcb', procs, segs).
       Inr (s\<lparr>sim_running := None, sim_procs := procs, sim_segs := segs,
              sim_terminated := append_pcb_to_pcbs_list pcb' (sim_terminated s)\<rparr>)))"
proof -
  obtain b ls lt where "pt_running c = Some b" "pt_pcbs c b = Some \<lparr>nd_data = pcb, nd_next = None\<rparr>" and
    len: "length heads = length ls" and out': "queues (pt_pcbs c) (heads @ [pt_terminated c]) (ls @ [lt])"
    "b \<notin> addrs (concat (ls @ [lt]))" "dom (pt_pcbs c) = insert b (addrs (concat (ls @ [lt])))" and
    maps: "map (map snd) ls = qs" "map snd lt = sim_terminated s" and
    eq: "pt_time c = sim_time s" "pt_spi c = sim_spi s" "pt_out c = sim_out s" and
    mem: "mem_rel (pt_procs c, pt_segs c) (sim_procs s, sim_segs s)"
    by (rule sim_rel_someE [OF rel run(2)])
  with run have b: "b = a" and a: "pt_pcbs c a = Some \<lparr>nd_data = pcb, nd_next = None\<rparr>" by auto
  note out = out' [unfolded b]
  show ?thesis
    unfolding finish_ptr_def
  proof (rule simulates_bind)
    show "simulates (block_rel (pt_pcbs c) a) (terminate_pcb_ptr al a (pt_pcbs c) (pt_procs c) (pt_segs c))
        (terminate_pcb pcb (sim_procs s) (sim_segs s))"
      using terminate_pcb_ptr_sim [where h = "pt_pcbs c", OF al a mem] by simp
  next
    fix y x
    assume r: "block_rel (pt_pcbs c) a y x"
    obtain h procs segs where y: "y = (h, procs, segs)" by (cases y)
    obtain pcb' L S where x: "x = (pcb', L, S)" by (cases x)
    have h: "h = (pt_pcbs c)(a \<mapsto> \<lparr>nd_data = pcb', nd_next = None\<rparr>)" and mem': "mem_rel (procs, segs) (L, S)"
      using r by (auto simp: y x)
    have "queues h (heads @ [pt_terminated c]) (ls @ [lt])" unfolding h by (rule queues_upd [OF out(1,2)])
    moreover have "dom h = insert a (addrs (concat (ls @ [lt])))" unfolding h using out(3) by auto
    ultimately obtain h' t' where
      app: "append_pcb_ptr a h (pt_terminated c) = Some (Inr (h', t'))"
        "pcbs_rel h' (heads @ [t']) (ls @ [lt @ [(a, pcb')]])"
      using pcbs_append_at [of h "heads @ [pt_terminated c]" "ls @ [lt]" "length ls" a pcb'] out(2) len
      by (auto simp: h nth_append list_update_append)
    have "\<exists>ls' lt' lr. length heads = length ls' \<and> pcbs_rel h' (heads @ [t', None]) (ls' @ [lt', lr]) \<and>
        map (map snd) ls' = qs \<and> map snd lt' = append_pcb_to_pcbs_list pcb' (sim_terminated s) \<and> map snd lr = running_list None"
      by (intro exI [of _ ls] exI [of _ "lt @ [(a, pcb')]"] exI [of _ "[]"])
        (use app(2) len maps in \<open>simp add: running_list_def pcbs_rel_snoc_None append_pcb_to_pcbs_list_append\<close>)
    then show "simulates (\<lambda>c' s'. sim_rel heads c' qs s' \<and> sim_ptr.more c' = sim_ptr.more c \<and> sim_state.more s' = sim_state.more s)
        (case y of (h, procs, segs) \<Rightarrow> then_do (append_pcb_ptr a h (pt_terminated c)) (\<lambda>(h', head).
          Some (Inr (c\<lparr>pt_running := None, pt_terminated := head, pt_pcbs := h', pt_procs := procs, pt_segs := segs\<rparr>))))
        (case x of (pcb', procs, segs) \<Rightarrow> Inr (s\<lparr>sim_running := None, sim_procs := procs, sim_segs := segs,
          sim_terminated := append_pcb_to_pcbs_list pcb' (sim_terminated s)\<rparr>))"
      unfolding y x prod.case app(1) then_do_simps using eq mem' by (simp add: sim_rel_def)
  qed
qed

lemma res_bind_assoc: "res_bind (res_bind m f) g = res_bind m (\<lambda>x. res_bind (f x) g)"
  by (cases m) simp_all

text \<open>Taking a block from the ready queues of a state.\<close>

lemma sim_rel_pop:
  assumes rel: "sim_rel heads c qs s" and idle: "sim_running s = None"
  obtains r heads' ls' lt where "pop_first_ptr (pt_pcbs c) heads = Inr (r, heads')" "length heads' = length ls'"
    "pop_first_ready qs = (map_option (node_data (pt_pcbs c)) r, map (map snd) ls')"
    "queues (pt_pcbs c) (heads' @ [pt_terminated c]) (ls' @ [lt])" "map snd lt = sim_terminated s"
    "\<forall>a. r = Some a \<longrightarrow> (\<exists>n. pt_pcbs c a = Some n) \<and> a \<notin> addrs (concat (ls' @ [lt]))"
    "dom (pt_pcbs c) = set_option r \<union> addrs (concat (ls' @ [lt]))"
proof -
  from rel obtain ls lt lr where len: "length heads = length ls" and
    pcbs: "pcbs_rel (pt_pcbs c) (heads @ [pt_terminated c, pt_running c]) (ls @ [lt, lr])" and
    maps: "map (map snd) ls = qs" "map snd lt = sim_terminated s" "map snd lr = running_list (sim_running s)"
    by (rule sim_relE)
  have lr: "lr = []" using maps(3) idle by (simp add: running_list_def)
  have run: "pt_running c = None" using sim_rel_running [OF rel] idle by simp
  have pcbs': "pcbs_rel (pt_pcbs c) (heads @ [pt_terminated c]) (ls @ [lt])"
    using pcbs pcbs_rel_snoc_None [OF len] unfolding lr run by blast
  then have qs: "queues (pt_pcbs c) heads ls" "queues (pt_pcbs c) [pt_terminated c] [lt]"
      "addrs (concat ls) \<inter> addrs (concat [lt]) = {}" and dom: "dom (pt_pcbs c) = addrs (concat ls) \<union> addrs lt"
    by (auto simp only: pcbs_rel_def queues_append [OF len] concat_append set_append image_Un concat.simps append_Nil2)
  from queues_pop_first [OF qs(1)] obtain r heads' ls' where
    pop: "pop_first_ptr (pt_pcbs c) heads = Inr (r, heads')" "queues (pt_pcbs c) heads' ls'"
      "pop_first_ready (map (map snd) ls) = (map_option (node_data (pt_pcbs c)) r, map (map snd) ls')"
      "\<forall>a. r = Some a \<longrightarrow> pt_pcbs c a \<noteq> None \<and> a \<notin> addrs (concat ls')"
      "addrs (concat ls) = set_option r \<union> addrs (concat ls')" by blast
  note len' = queues_length [OF pop(2)]
  have both: "addrs (concat (ls' @ [lt])) = addrs (concat ls') \<union> addrs lt" by (simp add: image_Un)
  have q: "queues (pt_pcbs c) (heads' @ [pt_terminated c]) (ls' @ [lt])"
    using pop(2,5) qs(2,3) unfolding queues_append [OF len'] by auto
  have fresh: "\<forall>a. r = Some a \<longrightarrow> (\<exists>n. pt_pcbs c a = Some n) \<and> a \<notin> addrs (concat (ls' @ [lt]))"
    using pop(4,5) qs(3) unfolding both by auto
  have "dom (pt_pcbs c) = set_option r \<union> addrs (concat (ls' @ [lt]))" unfolding dom pop(5) both by blast
  from that [OF pop(1) len' _ q maps(2) fresh this] pop(3) maps(1) show thesis by simp
qed

lemma sim_rel_idle:
  assumes rel: "sim_rel heads c qs s" and run: "sim_running s = None" and len: "length heads' = length ls'"
    and q: "queues (pt_pcbs c) (heads' @ [pt_terminated c]) (ls' @ [lt])" "dom (pt_pcbs c) = addrs (concat (ls' @ [lt]))"
    and lt: "map snd lt = sim_terminated s"
  shows "sim_rel heads' c (map (map snd) ls') s"
proof -
  have "pt_running c = None" using sim_rel_running [OF rel] run by simp
  moreover have "pcbs_rel (pt_pcbs c) (heads' @ [pt_terminated c]) (ls' @ [lt])" using q by (simp only: pcbs_rel_def simp_thms)
  ultimately have "pcbs_rel (pt_pcbs c) (heads' @ [pt_terminated c, pt_running c]) (ls' @ [lt, []])"
    by (simp only: pcbs_rel_snoc_None [OF len])
  then have "\<exists>ls lt lr. length heads' = length ls \<and>
      pcbs_rel (pt_pcbs c) (heads' @ [pt_terminated c, pt_running c]) (ls @ [lt, lr]) \<and>
      map (map snd) ls = map (map snd) ls' \<and> map snd lt = sim_terminated s \<and> map snd lr = running_list (sim_running s)"
    by (intro exI [of _ ls'] exI [of _ lt] exI [of _ "[]"]) (use len lt run in \<open>simp add: running_list_def\<close>)
  with rel show ?thesis unfolding sim_rel_def by blast
qed

fun control_rel :: "('c \<Rightarrow> 'a sim_state_scheme \<Rightarrow> bool) \<Rightarrow> 'c control \<Rightarrow> 'a sim_state_scheme control \<Rightarrow> bool" where
  "control_rel R (Break c) (Break s) \<longleftrightarrow> R c s \<and> sim_running s = None"
| "control_rel R (Continue c) (Continue s) \<longleftrightarrow> R c s"
| "control_rel R _ _ \<longleftrightarrow> False"

lemma simulates_continue:
  assumes "simulates R r m"
  shows "simulates (control_rel R) (then_do r (\<lambda>c. Some (Inr (Continue c)))) (res_bind m (\<lambda>s. Inr (Continue s)))"
  by (rule simulates_bind [OF assms]) simp

text \<open>What the models on lists do with a block that was taken from a queue, and with one that has finished.\<close>

abbreviation start_list :: "int \<Rightarrow> process_control_block_t \<Rightarrow> 'a sim_state_scheme \<Rightarrow> 'a sim_state_scheme res" where
  "start_list m pcb s \<equiv>
     res_bind (load_pcb pcb (sim_time s) (sim_procs s) (sim_segs s)) (\<lambda>(pcb', procs, segs).
     res_bind (print_simulation_status (sim_time s) pcb' procs segs m) (\<lambda>line.
       Inr (s\<lparr>sim_running := Some pcb', sim_procs := procs, sim_segs := segs, sim_out := sim_out s @ [line]\<rparr>)))"

abbreviation finish_list :: "process_control_block_t \<Rightarrow> 'a sim_state_scheme \<Rightarrow> 'a sim_state_scheme res" where
  "finish_list pcb s \<equiv>
     res_bind (terminate_pcb pcb (sim_procs s) (sim_segs s)) (\<lambda>(pcb', procs, segs).
       Inr (s\<lparr>sim_running := None, sim_procs := procs, sim_segs := segs,
              sim_terminated := append_pcb_to_pcbs_list pcb' (sim_terminated s)\<rparr>))"

text \<open>One time step of the running process.\<close>

lemma sim_rel_run:
  assumes rel: "sim_rel heads c qs s" and run: "pt_running c = Some a" "sim_running s = Some pcb"
  shows "sim_rel heads (c\<lparr>pt_pcbs := (pt_pcbs c)(a \<mapsto> \<lparr>nd_data = pcb', nd_next = None\<rparr>), pt_time := t\<rparr>) qs
    (s\<lparr>sim_time := t, sim_running := Some pcb'\<rparr>)"
proof -
  obtain b ls lt where "pt_running c = Some b" "pt_pcbs c b = Some \<lparr>nd_data = pcb, nd_next = None\<rparr>" and
    len: "length heads = length ls" and out: "queues (pt_pcbs c) (heads @ [pt_terminated c]) (ls @ [lt])"
    "b \<notin> addrs (concat (ls @ [lt]))" "dom (pt_pcbs c) = insert b (addrs (concat (ls @ [lt])))" and
    maps: "map (map snd) ls = qs" "map snd lt = sim_terminated s" and
    eq: "pt_time c = sim_time s" "pt_spi c = sim_spi s" "pt_out c = sim_out s" and
    mem: "mem_rel (pt_procs c, pt_segs c) (sim_procs s, sim_segs s)"
    by (rule sim_rel_someE [OF rel run(2)])
  with run show ?thesis
    by (intro sim_rel_someI [where h = "pt_pcbs c" and ls = ls and lt = lt and a = a and pcb = pcb']) simp_all
qed

lemma sim_rel_time:
  "sim_rel heads c qs s \<Longrightarrow> sim_rel heads (c\<lparr>pt_time := t\<rparr>) qs (s\<lparr>sim_time := t\<rparr>)"
  by (simp add: sim_rel_def)

text \<open>
  What the two runners share: their ready queues are read off the fields that the common part
  of a state leaves out.
\<close>

locale runner_view =
  fixes R :: "'a sim_ptr_scheme \<Rightarrow> 'b sim_state_scheme \<Rightarrow> bool"
    and heads :: "'a sim_ptr_scheme \<Rightarrow> node_addr option list" and queue_lists :: "'b sim_state_scheme \<Rightarrow> pcbs_queue_t list"
  assumes rel: "R c s \<longleftrightarrow> sim_rel (heads c) c (queue_lists s) s"
    and heads_more: "sim_ptr.more c = sim_ptr.more d \<Longrightarrow> heads c = heads d"
    and queue_lists_more: "sim_state.more s = sim_state.more r \<Longrightarrow> queue_lists s = queue_lists r"
begin

lemma rel_more:
  assumes "sim_rel (heads d) c (queue_lists r) s" "sim_ptr.more c = sim_ptr.more d" "sim_state.more s = sim_state.more r"
  shows "R c s"
  using assms heads_more [OF assms(2)] queue_lists_more [OF assms(3)] by (simp add: rel)

lemma rel_running:
  assumes "R c s"
  shows "case sim_running s of
      None \<Rightarrow> pt_running c = None
    | Some pcb \<Rightarrow> \<exists>a. pt_running c = Some a \<and> pt_pcbs c a = Some \<lparr>nd_data = pcb, nd_next = None\<rparr>"
  using assms unfolding rel by (rule sim_rel_running)

lemma pop_cases:
  assumes al: "allocator_ok al" and R: "R c s" and idle: "sim_running s = None"
  obtains (block) a pcb heads' qs' where "pop_first_ptr (pt_pcbs c) (heads c) = Inr (Some a, heads')"
      "pop_first_ready (queue_lists s) = (Some pcb, qs')"
      "\<forall>m c1 s1. heads c1 = heads' \<longrightarrow> queue_lists s1 = qs' \<longrightarrow> sim_ptr.truncate c1 = sim_ptr.truncate c \<longrightarrow>
        sim_state.truncate s1 = sim_state.truncate s \<longrightarrow> simulates R (start_ptr al m a c1) (start_list m pcb s1)"
    | (empty) heads' qs' where "pop_first_ptr (pt_pcbs c) (heads c) = Inr (None, heads')"
      "pop_first_ready (queue_lists s) = (None, qs')"
      "\<forall>c1 s1. heads c1 = heads' \<longrightarrow> queue_lists s1 = qs' \<longrightarrow> sim_ptr.truncate c1 = sim_ptr.truncate c \<longrightarrow>
        sim_state.truncate s1 = sim_state.truncate s \<longrightarrow> R c1 s1"
proof -
  note R' = R [unfolded rel]
  obtain r heads' ls' lt where pop: "pop_first_ptr (pt_pcbs c) (heads c) = Inr (r, heads')" "length heads' = length ls'"
    "pop_first_ready (queue_lists s) = (map_option (node_data (pt_pcbs c)) r, map (map snd) ls')"
    "queues (pt_pcbs c) (heads' @ [pt_terminated c]) (ls' @ [lt])" "map snd lt = sim_terminated s"
    "\<forall>a. r = Some a \<longrightarrow> (\<exists>n. pt_pcbs c a = Some n) \<and> a \<notin> addrs (concat (ls' @ [lt]))"
    "dom (pt_pcbs c) = set_option r \<union> addrs (concat (ls' @ [lt]))"
    by (rule sim_rel_pop [OF R' idle])
  from R' have eq: "pt_time c = sim_time s" "pt_spi c = sim_spi s" "pt_out c = sim_out s"
    and mem: "mem_rel (pt_procs c, pt_segs c) (sim_procs s, sim_segs s)" by (auto elim: sim_relE)
  show thesis
  proof (cases r)
    case None
    have "sim_rel heads' c (map (map snd) ls') s"
      by (rule sim_rel_idle [OF R' idle pop(2,4) _ pop(5)]) (use pop(7) None in simp)
    then show thesis using pop(1,3) None by (intro empty) (auto simp: rel elim: sim_rel_cong)
  next
    case (Some a)
    from pop(6) Some obtain n where n: "pt_pcbs c a = Some n" "a \<notin> addrs (concat (ls' @ [lt]))" by blast
    have dom: "dom (pt_pcbs c) = insert a (addrs (concat (ls' @ [lt])))" using pop(7) Some by auto
    have start: "simulates R (start_ptr al m a c1) (start_list m (nd_data n) s1)"
      if c1: "heads c1 = heads'" "sim_ptr.truncate c1 = sim_ptr.truncate c"
        and s1: "queue_lists s1 = map (map snd) ls'" "sim_state.truncate s1 = sim_state.truncate s" for m c1 s1
    proof -
      have "simulates (\<lambda>c' s'. sim_rel heads' c' (map (map snd) ls') s' \<and> sim_ptr.more c' = sim_ptr.more c1 \<and>
          sim_state.more s' = sim_state.more s1) (start_ptr al m a c1) (start_list m (nd_data n) s1)"
        by (rule start_ptr_sim [OF al pop(2)]) (use eq mem pop(4,5) n dom c1(2) s1(2) in \<open>simp_all add: truncate_defs\<close>)
      then show ?thesis by (rule simulates_mono) (rule rel_more [where d = c1 and r = s1]; use c1(1) s1(1) in simp)
    qed
    show thesis
      by (rule block [of a heads' "nd_data n" "map (map snd) ls'"])
        (use pop(1,3) n(1) Some in \<open>simp_all add: node_data_def start\<close>)
  qed
qed

text \<open>A time step without a running process, and one of the running process.\<close>

lemma wait_sim:
  assumes "R c s"
  shows "simulates R (then_do (Some (c_int (pt_time c + 1))) (\<lambda>t. Some (Inr (c\<lparr>pt_time := t\<rparr>))))
    (res_bind (c_int (sim_time s + 1)) (\<lambda>t. Inr (s\<lparr>sim_time := t\<rparr>)))"
proof -
  have "pt_time c = sim_time s" using assms unfolding rel by (auto elim: sim_relE)
  moreover have "R (c\<lparr>pt_time := t\<rparr>) (s\<lparr>sim_time := t\<rparr>)" for t
    by (rule rel_more [where d = c and r = s]) (use assms [unfolded rel] in \<open>auto intro: sim_rel_time\<close>)
  ultimately show ?thesis by (auto intro: simulates_same)
qed

lemma run_sim:
  assumes al: "allocator_ok al" and R: "R c s" and run: "pt_running c = Some a" "sim_running s = Some pcb"
    and others: "\<And>h t pcb'. R (c\<lparr>pt_pcbs := h, pt_time := t\<rparr>) (s\<lparr>sim_time := t, sim_running := Some pcb'\<rparr>) \<Longrightarrow>
      simulates R (f pcb' (c\<lparr>pt_pcbs := h, pt_time := t\<rparr>)) (g t pcb')"
  shows "simulates R
    (then_do (run_pcb_ptr a (pt_pcbs c)) (\<lambda>h. then_do (Some (c_int (pt_time c + 1))) (\<lambda>t.
       then_do (Some (load_node h (Some a))) (\<lambda>n. let c' = c\<lparr>pt_pcbs := h, pt_time := t\<rparr> in
         if is_pcb_finished (nd_data n) then finish_ptr al a c' else f (nd_data n) c'))))
    (res_bind (run_pcb pcb) (\<lambda>pcb'. res_bind (c_int (sim_time s + 1)) (\<lambda>t.
       if is_pcb_finished pcb'
       then res_bind (terminate_pcb pcb' (sim_procs s) (sim_segs s)) (\<lambda>(pcb'', procs, segs).
              Inr (s\<lparr>sim_time := t, sim_running := None, sim_procs := procs, sim_segs := segs,
                     sim_terminated := append_pcb_to_pcbs_list pcb'' (sim_terminated s)\<rparr>))
       else g t pcb')))"
proof -
  note R' = R [unfolded rel]
  have node: "pt_pcbs c a = Some \<lparr>nd_data = pcb, nd_next = None\<rparr>" using rel_running [OF R] run by simp
  have time: "pt_time c = sim_time s" using R' by (auto elim: sim_relE)
  have step: "simulates (\<lambda>h pcb'. h = (pt_pcbs c)(a \<mapsto> \<lparr>nd_data = pcb', nd_next = None\<rparr>))
      (run_pcb_ptr a (pt_pcbs c)) (run_pcb pcb)"
    using run_pcb_ptr_sim [where h = "pt_pcbs c", OF node] by simp
  show ?thesis
    unfolding time
  proof (rule simulates_bind [OF step], rule simulates_same)
    fix h pcb' t
    assume h: "h = (pt_pcbs c)(a \<mapsto> \<lparr>nd_data = pcb', nd_next = None\<rparr>)"
    let ?c = "c\<lparr>pt_pcbs := h, pt_time := t\<rparr>" and ?s = "s\<lparr>sim_time := t, sim_running := Some pcb'\<rparr>"
    have rel1: "sim_rel (heads c) ?c (queue_lists s) ?s" unfolding h by (rule sim_rel_run [OF R' run])
    have "simulates (\<lambda>c' s'. sim_rel (heads c) c' (queue_lists s) s' \<and> sim_ptr.more c' = sim_ptr.more ?c \<and>
        sim_state.more s' = sim_state.more ?s) (finish_ptr al a ?c) (finish_list pcb' ?s)"
      by (rule finish_ptr_sim [OF al rel1]) (simp_all add: run(1))
    then have fin: "simulates R (finish_ptr al a ?c) (finish_list pcb' ?s)"
      by (rule simulates_mono) (auto intro: rel_more [where d = c and r = s])
    have "R ?c ?s" by (rule rel_more [where d = c and r = s]) (use rel1 in simp_all)
    from fin others [OF this] show "simulates R
        (then_do (Some (load_node h (Some a))) (\<lambda>n. let c' = c\<lparr>pt_pcbs := h, pt_time := t\<rparr> in
           if is_pcb_finished (nd_data n) then finish_ptr al a c' else f (nd_data n) c'))
        (if is_pcb_finished pcb'
         then res_bind (terminate_pcb pcb' (sim_procs s) (sim_segs s)) (\<lambda>(pcb'', procs, segs).
              Inr (s\<lparr>sim_time := t, sim_running := None, sim_procs := procs, sim_segs := segs,
                     sim_terminated := append_pcb_to_pcbs_list pcb'' (sim_terminated s)\<rparr>))
         else g t pcb')"
      by (simp add: h Let_def)
  qed
qed

end

lemma fcfs_fields:
  fixes c d :: fcfs_ptr and s r :: fcfs_state
  shows "sim_ptr.more c = sim_ptr.more d \<Longrightarrow> pt_queue c = pt_queue d"
    and "sim_state.more s = sim_state.more r \<Longrightarrow> ready_queue s = ready_queue r"
  by (cases c; cases d; simp) (cases s; cases r; simp)

lemma multi_fields:
  fixes c d :: multi_ptr and s r :: multi_state
  shows "sim_ptr.more c = sim_ptr.more d \<Longrightarrow> pt_queues c = pt_queues d"
    and "sim_state.more s = sim_state.more r \<Longrightarrow> ready_qs s = ready_qs r"
  by (cases c; cases d; simp) (cases s; cases r; simp)

interpretation fcfs_view: runner_view fcfs_rel "\<lambda>c. [pt_queue c]" "\<lambda>s. [ready_queue s]"
  by unfold_locales (auto simp: fcfs_rel_def intro: fcfs_fields)

interpretation multi_view: runner_view multi_rel pt_queues ready_qs
  by unfold_locales (auto simp: multi_rel_def intro: multi_fields)

lemma rel_same:
  "fcfs_rel c s \<Longrightarrow> pt_spi c = sim_spi s" "multi_rel d r \<Longrightarrow> pt_spi d = sim_spi r"
  by (simp_all add: fcfs_rel_def multi_rel_def sim_rel_def)

lemma multi_dispatch_sim:
  assumes al: "allocator_ok al" and st: "stores st sps" "sim_spi s \<le> length sps" and R: "multi_rel c s"
  shows "simulates (control_rel multi_rel) (multi_dispatch_ptr al st m c) (multi_dispatch sps m s)"
proof (cases "sim_running s")
  case (Some pcb)
  with multi_view.rel_running [OF R] R show ?thesis by (auto simp: multi_dispatch_ptr_def multi_dispatch_def)
next
  case idle: None
  have run: "pt_running c = None" using multi_view.rel_running [OF R] idle by simp
  from al R idle show ?thesis
  proof (cases rule: multi_view.pop_cases)
    case (block a pcb heads' qs')
    from block(3) have "simulates multi_rel (start_ptr al m a (c\<lparr>pt_queues := heads'\<rparr>)) (start_list m pcb (s\<lparr>ready_qs := qs'\<rparr>))"
      by (simp add: truncate_defs)
    from simulates_continue [OF this] show ?thesis using block(1,2) run idle
      by (simp add: multi_dispatch_ptr_def multi_dispatch_def res_bind_assoc case_prod_unfold)
  next
    case (empty heads' qs')
    from empty(3) have "multi_rel (c\<lparr>pt_queues := heads'\<rparr>) (s\<lparr>ready_qs := qs'\<rparr>)" by (simp add: truncate_defs)
    with empty(1,2) R run idle rel_same(2) [OF R] show ?thesis
      by (cases "scheduled_at sps (sim_spi s)") (auto simp: multi_dispatch_ptr_def multi_dispatch_def scheduled_ptr_stores [OF st])
  qed
qed

text \<open>The one queue of the other runner is a list of one queue, empty when nothing can be taken from it.\<close>

lemma pop_single:
  "pop_first_ptr h [p] = res_bind (pop_front_ptr h p) (\<lambda>(r, p'). Inr (r, [p']))"
  "pop_first_ready [q] = (case pop_front_pcb_from_pcbs_queue q of (r, q') \<Rightarrow> (r, [q']))"
  by (auto simp: pop_front_ptr_def res_bind_def pop_front_pcb_from_pcbs_queue_def split: list.splits sum.splits)

lemma pop_front_None:
  "pop_front_ptr h p = Inr (None, p') \<Longrightarrow> p' = None"
  "pop_front_pcb_from_pcbs_queue q = (None, q') \<Longrightarrow> q' = []"
  by (auto simp: pop_front_ptr_def res_bind_def pop_front_pcb_from_pcbs_queue_def split: if_splits sum.splits list.splits)

lemma fcfs_dispatch_sim:
  assumes al: "allocator_ok al" and st: "stores st sps" "sim_spi s \<le> length sps" and R: "fcfs_rel c s"
  shows "simulates (control_rel fcfs_rel) (fcfs_dispatch_ptr al st m c) (fcfs_dispatch sps m s)"
proof (cases "sim_running s")
  case (Some pcb)
  with fcfs_view.rel_running [OF R] R show ?thesis by (auto simp: fcfs_dispatch_ptr_def fcfs_dispatch_def)
next
  case idle: None
  have run: "pt_running c = None" using fcfs_view.rel_running [OF R] idle by simp
  from al R idle show ?thesis
  proof (cases rule: fcfs_view.pop_cases)
    case (block a pcb heads' qs')
    from block(1,2) obtain p' q' where pop: "heads' = [p']" "pop_front_ptr (pt_pcbs c) (pt_queue c) = Inr (Some a, p')"
      "qs' = [q']" "pop_front_pcb_from_pcbs_queue (ready_queue s) = (Some pcb, q')"
      unfolding pop_single by (auto split: prod.splits)
    from block(3) have "simulates fcfs_rel (start_ptr al m a (c\<lparr>pt_queue := p'\<rparr>)) (start_list m pcb (s\<lparr>ready_queue := q'\<rparr>))"
      by (simp add: truncate_defs pop)
    from simulates_continue [OF this] show ?thesis using pop run idle
      by (simp add: fcfs_dispatch_ptr_def fcfs_dispatch_def res_bind_assoc case_prod_unfold)
  next
    case (empty heads' qs')
    from empty(1,2) obtain p' q' where pop: "heads' = [p']" "pop_front_ptr (pt_pcbs c) (pt_queue c) = Inr (None, p')"
      "qs' = [q']" "pop_front_pcb_from_pcbs_queue (ready_queue s) = (None, q')"
      unfolding pop_single by (auto split: prod.splits)
    from empty(3) have "fcfs_rel (c\<lparr>pt_queue := p'\<rparr>) (s\<lparr>ready_queue := q'\<rparr>)" by (simp add: truncate_defs pop)
    with pop pop_front_None(1) [OF pop(2)] pop_front_None(2) [OF pop(4)] R run idle rel_same(1) [OF R] show ?thesis
      by (cases "scheduled_at sps (sim_spi s)") (auto simp: fcfs_dispatch_ptr_def fcfs_dispatch_def scheduled_ptr_stores [OF st])
  qed
qed

text \<open>The running block goes to the end of a ready queue.\<close>

lemma demote_ptr_sim:
  assumes rel: "sim_rel (pt_queues c) c (ready_qs s) s" and run: "pt_running c = Some a" "sim_running s = Some pcb"
  defines "pcb' \<equiv> ready_and_decrease_priority_pcb pcb"
  shows "simulates multi_rel (demote_ptr a c)
    (res_bind (append_to_queue pcb' (pcb_priority pcb' - 1) (ready_qs s)) (\<lambda>qs. Inr (s\<lparr>sim_running := None, ready_qs := qs\<rparr>)))"
proof -
  obtain b ls lt where "pt_running c = Some b" "pt_pcbs c b = Some \<lparr>nd_data = pcb, nd_next = None\<rparr>" and
    len: "length (pt_queues c) = length ls" and out': "queues (pt_pcbs c) (pt_queues c @ [pt_terminated c]) (ls @ [lt])"
    "b \<notin> addrs (concat (ls @ [lt]))" "dom (pt_pcbs c) = insert b (addrs (concat (ls @ [lt])))" and
    maps: "map (map snd) ls = ready_qs s" "map snd lt = sim_terminated s" and
    eq: "pt_time c = sim_time s" "pt_spi c = sim_spi s" "pt_out c = sim_out s" and
    mem: "mem_rel (pt_procs c, pt_segs c) (sim_procs s, sim_segs s)"
    by (rule sim_rel_someE [OF rel run(2)])
  with run have b: "b = a" and a: "pt_pcbs c a = Some \<lparr>nd_data = pcb, nd_next = None\<rparr>" by auto
  note out = out' [unfolded b]
  define h where "h = (pt_pcbs c)(a \<mapsto> \<lparr>nd_data = pcb', nd_next = None\<rparr>)"
  define i where "i = pcb_priority pcb' - 1"
  have data: "store_data (pt_pcbs c) (Some a) ready_and_decrease_priority_pcb = Inr h" "load_node h (Some a) = Inr \<lparr>nd_data = pcb', nd_next = None\<rparr>"
    using a by (simp_all add: h_def pcb'_def)
  have lens: "length (ready_qs s) = length (pt_queues c)" using maps(1) len by (metis length_map)
  show ?thesis
  proof (cases "0 \<le> i \<and> nat i < length (pt_queues c)")
    case False
    then show ?thesis
      using lens by (auto simp: demote_ptr_def data append_to_queue_def Let_def i_def)
  next
    case True
    then have i: "nat i < length ls" using len by simp
    have "queues h (pt_queues c @ [pt_terminated c]) (ls @ [lt])" unfolding h_def by (rule queues_upd [OF out(1,2)])
    moreover have "dom h = insert a (addrs (concat (ls @ [lt])))" unfolding h_def using out(3) by auto
    ultimately obtain h' p' where
      app: "append_pcb_ptr a h (pt_queues c ! nat i) = Some (Inr (h', p'))"
        "pcbs_rel h' ((pt_queues c)[nat i := p'] @ [pt_terminated c]) (ls[nat i := ls ! nat i @ [(a, pcb')]] @ [lt])"
      using pcbs_append_at [of h "pt_queues c @ [pt_terminated c]" "ls @ [lt]" "nat i" a pcb'] out(2) len i
      by (auto simp: h_def nth_append list_update_append)
    let ?c = "c\<lparr>pt_running := None, pt_pcbs := h', pt_queues := (pt_queues c)[nat i := p']\<rparr>"
    let ?qs = "(ready_qs s)[nat i := append_pcb_to_pcbs_list pcb' (ready_qs s ! nat i)]"
    have "map (map snd) (ls[nat i := ls ! nat i @ [(a, pcb')]]) = ?qs"
      using i unfolding maps(1) [symmetric] by (simp add: map_update append_pcb_to_pcbs_list_append)
    then have "\<exists>ls' lt' lr. length ((pt_queues c)[nat i := p']) = length ls' \<and>
        pcbs_rel h' ((pt_queues c)[nat i := p'] @ [pt_terminated c, None]) (ls' @ [lt', lr]) \<and>
        map (map snd) ls' = ?qs \<and> map snd lt' = sim_terminated s \<and> map snd lr = running_list None"
      by (intro exI [of _ "ls[nat i := ls ! nat i @ [(a, pcb')]]"] exI [of _ lt] exI [of _ "[]"])
        (use app(2) len maps(2) in \<open>simp add: running_list_def pcbs_rel_snoc_None\<close>)
    then have "multi_rel ?c (s\<lparr>sim_running := None, ready_qs := ?qs\<rparr>)"
      using eq mem by (simp add: multi_rel_def sim_rel_def)
    then show ?thesis
      using True lens app(1) by (simp add: demote_ptr_def data append_to_queue_def Let_def i_def)
  qed
qed

text \<open>One time step.\<close>

lemma fcfs_execute_sim:
  assumes al: "allocator_ok al" and R: "fcfs_rel c s"
  shows "simulates fcfs_rel (fcfs_execute_ptr al c) (fcfs_execute s)"
proof (cases "sim_running s")
  case None
  with fcfs_view.rel_running [OF R] fcfs_view.wait_sim [OF R] show ?thesis
    by (simp add: fcfs_execute_ptr_def fcfs_execute_def)
next
  case (Some pcb)
  with fcfs_view.rel_running [OF R] obtain a where a: "pt_running c = Some a" by auto
  show ?thesis
    unfolding fcfs_execute_ptr_def fcfs_execute_def a Some option.case
    by (rule fcfs_view.run_sim [OF al R a Some, of "\<lambda>_ c. Some (Inr c)"]) simp
qed

lemma multi_execute_sim:
  assumes al: "allocator_ok al" and R: "multi_rel c s"
  shows "simulates multi_rel (multi_execute_ptr al c) (multi_execute s)"
proof (cases "sim_running s")
  case None
  with multi_view.rel_running [OF R] multi_view.wait_sim [OF R] show ?thesis
    by (simp add: multi_execute_ptr_def multi_execute_def)
next
  case (Some pcb)
  with multi_view.rel_running [OF R] obtain a where a: "pt_running c = Some a" by auto
  let ?f = "\<lambda>pcb c. if is_quantum_exhausted_by_pcb pcb then demote_ptr a c else Some (Inr c)"
  show ?thesis
    unfolding multi_execute_ptr_def multi_execute_def a Some option.case
  proof (rule multi_view.run_sim [OF al R a Some, of ?f])
    fix h t pcb'
    assume R': "multi_rel (c\<lparr>pt_pcbs := h, pt_time := t\<rparr>) (s\<lparr>sim_time := t, sim_running := Some pcb'\<rparr>)"
    note dem = demote_ptr_sim [OF R' [unfolded multi_rel_def], of a pcb']
    show "simulates multi_rel (?f pcb' (c\<lparr>pt_pcbs := h, pt_time := t\<rparr>))
      (if is_quantum_exhausted_by_pcb pcb'
       then let pcb'' = ready_and_decrease_priority_pcb pcb' in
         res_bind (append_to_queue pcb'' (pcb_priority pcb'' - 1) (ready_qs s)) (\<lambda>qs.
           Inr (s\<lparr>sim_time := t, sim_running := None, ready_qs := qs\<rparr>))
       else Inr (s\<lparr>sim_time := t, sim_running := Some pcb'\<rparr>))"
      using R' dem by (cases "is_quantum_exhausted_by_pcb pcb'") (simp_all add: a Let_def)
  qed
qed

section \<open>Runs\<close>

lemma simulates_step:
  assumes arrive: "simulates R r m" and dispatch: "\<And>c s. R c s \<Longrightarrow> simulates (control_rel R) (d c) (e s)"
    and exec: "\<And>c s. R c s \<Longrightarrow> simulates R (x c) (y s)"
  shows "simulates (control_rel R)
    (then_do r (\<lambda>c. then_do (d c) (\<lambda>k. case k of
       Break c' \<Rightarrow> Some (Inr (Break c')) | Continue c' \<Rightarrow> then_do (x c') (\<lambda>c''. Some (Inr (Continue c''))))))
    (res_bind m (\<lambda>s. res_bind (e s) (\<lambda>k. case k of
       Break s' \<Rightarrow> Inr (Break s') | Continue s' \<Rightarrow> res_bind (y s') (\<lambda>s''. Inr (Continue s'')))))"
proof (rule simulates_bind [OF arrive], rule simulates_bind [OF dispatch], assumption)
  fix k l
  assume "control_rel R k l"
  then show "simulates (control_rel R)
    (case k of Break c' \<Rightarrow> Some (Inr (Break c')) | Continue c' \<Rightarrow> then_do (x c') (\<lambda>c''. Some (Inr (Continue c''))))
    (case l of Break s' \<Rightarrow> Inr (Break s') | Continue s' \<Rightarrow> res_bind (y s') (\<lambda>s''. Inr (Continue s'')))"
    by (cases k; cases l) (auto intro: simulates_continue exec)
qed

text \<open>The index into the scheduled processes never passes the null pointer.\<close>

lemma check_scheduled_processes_index:
  "check_scheduled_processes sps spi time q L = Inr (spi', q', L') \<Longrightarrow> spi' \<le> length sps"
proof (cases "spi \<le> length sps")
  case True
  have "length (due sps spi time) \<le> length sps - spi"
    unfolding due_def by (metis length_drop length_takeWhile_le)
  then show "check_scheduled_processes sps spi time q L = Inr (spi', q', L') \<Longrightarrow> spi' \<le> length sps"
    using True by (auto simp: check_scheduled_processes_eq split: prod.splits)
qed (simp add: check_scheduled_processes_beyond)

lemma arrive_index:
  "fcfs_arrive sps s = Inr s' \<Longrightarrow> sim_spi s' \<le> length sps"
  "multi_arrive sps r = Inr r' \<Longrightarrow> sim_spi r' \<le> length sps"
  by (auto simp: fcfs_arrive_def multi_arrive_def split: list.splits dest: check_scheduled_processes_index)

lemma dispatch_index:
  "fcfs_dispatch sps m s = Inr (Break s') \<Longrightarrow> sim_spi s' = sim_spi s"
  "fcfs_dispatch sps m s = Inr (Continue s') \<Longrightarrow> sim_spi s' = sim_spi s"
  "multi_dispatch sps m r = Inr (Break r') \<Longrightarrow> sim_spi r' = sim_spi r"
  "multi_dispatch sps m r = Inr (Continue r') \<Longrightarrow> sim_spi r' = sim_spi r"
  by (auto simp: fcfs_dispatch_def multi_dispatch_def split: option.splits prod.splits if_splits)

lemma execute_index:
  "fcfs_execute s = Inr s' \<Longrightarrow> sim_spi s' = sim_spi s"
  "multi_execute r = Inr r' \<Longrightarrow> sim_spi r' = sim_spi r"
  by (auto simp: fcfs_execute_def multi_execute_def Let_def split: option.splits prod.splits if_splits)

lemma simulates_keep:
  "simulates R r m \<Longrightarrow> (\<And>s. m = Inr s \<Longrightarrow> P s) \<Longrightarrow> simulates (\<lambda>c s. R c s \<and> P s) r m"
  by (auto simp: simulates_def split: sum.splits)

lemma control_rel_conj:
  "control_rel (\<lambda>c s. R c s \<and> P s) k l \<longleftrightarrow> control_rel R k l \<and> (case l of Break s \<Rightarrow> P s | Continue s \<Rightarrow> P s)"
  by (cases k; cases l) auto

lemma simulates_keep_control:
  assumes "simulates (control_rel R) r m" and "\<And>s. m = Inr (Break s) \<or> m = Inr (Continue s) \<Longrightarrow> P s"
  shows "simulates (control_rel (\<lambda>c s. R c s \<and> P s)) r m"
  unfolding control_rel_conj
  by (rule simulates_keep [OF assms(1)]) (use assms(2) in \<open>auto split: control.splits\<close>)

lemma fcfs_step_sim:
  assumes al: "allocator_ok al" and st: "stores st sps" and rel: "fcfs_rel c s" "sim_spi s \<le> length sps"
  shows "simulates (control_rel (\<lambda>c s. fcfs_rel c s \<and> sim_spi s \<le> length sps)) (fcfs_step_ptr al st m c) (fcfs_step sps m s)"
  unfolding fcfs_step_ptr_def fcfs_step_def
proof (rule simulates_step)
  show "simulates (\<lambda>c s. fcfs_rel c s \<and> sim_spi s \<le> length sps) (fcfs_arrive_ptr al st c) (fcfs_arrive sps s)"
    by (rule simulates_keep [OF fcfs_arrive_sim [OF al st rel(2,1)]]) (rule arrive_index)
next
  fix c s
  assume R: "fcfs_rel c s \<and> sim_spi s \<le> length sps"
  show "simulates (control_rel (\<lambda>c s. fcfs_rel c s \<and> sim_spi s \<le> length sps)) (fcfs_dispatch_ptr al st m c) (fcfs_dispatch sps m s)"
    by (rule simulates_keep_control [OF fcfs_dispatch_sim [OF al st]]) (use R in \<open>auto dest: dispatch_index\<close>)
  show "simulates (\<lambda>c s. fcfs_rel c s \<and> sim_spi s \<le> length sps) (fcfs_execute_ptr al c) (fcfs_execute s)"
    by (rule simulates_keep [OF fcfs_execute_sim [OF al]]) (use R in \<open>auto dest: execute_index\<close>)
qed

lemma multi_step_sim:
  assumes al: "allocator_ok al" and st: "stores st sps" and rel: "multi_rel c s" "sim_spi s \<le> length sps"
  shows "simulates (control_rel (\<lambda>c s. multi_rel c s \<and> sim_spi s \<le> length sps)) (multi_step_ptr al st m c) (multi_step sps m s)"
  unfolding multi_step_ptr_def multi_step_def
proof (rule simulates_step)
  show "simulates (\<lambda>c s. multi_rel c s \<and> sim_spi s \<le> length sps) (multi_arrive_ptr al st c) (multi_arrive sps s)"
    by (rule simulates_keep [OF multi_arrive_sim [OF al st rel(2,1)]]) (rule arrive_index)
next
  fix c s
  assume R: "multi_rel c s \<and> sim_spi s \<le> length sps"
  show "simulates (control_rel (\<lambda>c s. multi_rel c s \<and> sim_spi s \<le> length sps)) (multi_dispatch_ptr al st m c) (multi_dispatch sps m s)"
    by (rule simulates_keep_control [OF multi_dispatch_sim [OF al st]]) (use R in \<open>auto dest: dispatch_index\<close>)
  show "simulates (\<lambda>c s. multi_rel c s \<and> sim_spi s \<le> length sps) (multi_execute_ptr al c) (multi_execute s)"
    by (rule simulates_keep [OF multi_execute_sim [OF al]]) (use R in \<open>auto dest: execute_index\<close>)
qed

text \<open>What a simulation of one round says of the result of the round with pointers.\<close>

lemma simulates_control_cases:
  assumes "simulates (control_rel R) r m"
  obtains (error) e where "m = Inl e" "r = Some (Inl e)"
    | (break) c s where "m = Inr (Break s)" "r = Some (Inr (Break c))" "R c s" "sim_running s = None"
    | (continue) c s where "m = Inr (Continue s)" "r = Some (Inr (Continue c))" "R c s"
proof (cases m)
  case (Inl e)
  with assms error show thesis by simp
next
  case (Inr k)
  with assms obtain l where "r = Some (Inr l)" "control_rel R l k" by (auto simp: simulates_def)
  with Inr break continue show thesis by (cases k; cases l) auto
qed

lemma fcfs_loop_sim:
  assumes al: "allocator_ok al"
  shows "stores st sps \<Longrightarrow> fcfs_rel c s \<Longrightarrow> sim_spi s \<le> length sps \<Longrightarrow>
    simulates (\<lambda>c s. fcfs_rel c s \<and> sim_running s = None) (fcfs_loop_ptr al st m c) (fcfs_loop sps m s)"
proof (induction sps m s arbitrary: c rule: fcfs_loop.induct)
  case (1 sps m s)
  from fcfs_step_sim [OF al 1(2-4), of m] show ?case
    by (cases rule: simulates_control_cases; subst fcfs_loop_ptr.simps, subst fcfs_loop.simps) (auto intro: 1(1) [OF _ _ 1(2)])
qed

lemma multi_loop_sim:
  assumes al: "allocator_ok al"
  shows "stores st sps \<Longrightarrow> multi_rel c s \<Longrightarrow> sim_spi s \<le> length sps \<Longrightarrow>
    simulates (\<lambda>c s. multi_rel c s \<and> sim_running s = None) (multi_loop_ptr al st m c) (multi_loop sps m s)"
proof (induction sps m s arbitrary: c rule: multi_loop.induct)
  case (1 sps m s)
  from multi_step_sim [OF al 1(2-4), of m] show ?case
    by (cases rule: simulates_control_cases; subst multi_loop_ptr.simps, subst multi_loop.simps) (auto intro: 1(1) [OF _ _ 1(2)])
qed

text \<open>Freeing lists that own the heap leaves it empty.\<close>

lemma free_queues_ptr_queues:
  "queues h heads ls \<Longrightarrow> free_queues_ptr h heads = Some (Inr (h |` (- addrs (concat ls))))"
proof (induction ls arbitrary: h heads)
  case Nil
  then show ?case by (auto simp: queues_def restrict_map_def)
next
  case (Cons l ls)
  then obtain p ps where heads: "heads = p # ps" by (cases heads) (auto simp: queues_def)
  have q: "holds h p l" "queues h ps ls" "addrs l \<inter> addrs (concat ls) = {}"
    using Cons.prems unfolding heads queues_Cons by auto
  let ?h = "h |` (- addrs l)"
  have "?h a = h a" if "a \<in> addrs (concat ls)" for a using q(3) that by (auto simp: restrict_map_def)
  then have "queues ?h ps ls" using q(2) queues_eq [of ls ?h h ps] by (simp add: queues_def)
  from Cons.IH [OF this] show ?case
    using free_loop_holds [OF q(1)] by (simp add: heads free_pcbs_queue_ptr_def image_Un)
qed

lemma end_ptr_sim:
  assumes st: "stores st sps" and rel: "sim_rel heads c qs s" and idle: "sim_running s = None"
  shows "end_ptr heads st c = Some (Inr (sim_out s @ [Finished (sim_time s)], Map.empty, Map.empty, Map.empty, Map.empty))"
proof -
  from rel obtain ls lt lr where eq: "pt_time c = sim_time s" "pt_out c = sim_out s" and
    mem: "mem_rel (pt_procs c, pt_segs c) (sim_procs s, sim_segs s)" and len: "length heads = length ls" and
    pcbs: "pcbs_rel (pt_pcbs c) (heads @ [pt_terminated c, pt_running c]) (ls @ [lt, lr])" and
    maps: "map snd lr = running_list (sim_running s)"
    by (rule sim_relE)
  have lr: "lr = []" using maps idle by (simp add: running_list_def)
  have run: "pt_running c = None" using sim_rel_running [OF rel] idle by simp
  have "pcbs_rel (pt_pcbs c) (heads @ [pt_terminated c]) (ls @ [lt])"
    using pcbs pcbs_rel_snoc_None [OF len] unfolding lr run by blast
  then have q: "queues (pt_pcbs c) (heads @ [pt_terminated c]) (ls @ [lt])" "dom (pt_pcbs c) = addrs (concat (ls @ [lt]))"
    by (simp_all only: pcbs_rel_def)
  have "(pt_pcbs c) |` (- addrs (concat (ls @ [lt]))) = Map.empty"
    unfolding q(2) [symmetric] by (auto simp: restrict_map_def fun_eq_iff)
  then have free: "free_queues_ptr (pt_pcbs c) (heads @ [pt_terminated c]) = Some (Inr Map.empty)"
    using free_queues_ptr_queues [OF q(1)] by simp
  from mem obtain lS where "owns Map.empty (sim_procs s) (pt_procs c)" "owns Map.empty lS (pt_segs c)"
    unfolding mem_rel_def fst_conv snd_conv by (elim conjE exE)
  from free_ptr_owns(1) [OF this(1)] free_ptr_owns(2) [OF this(2)] free eq show ?thesis
    by (simp add: end_ptr_def free_scheduled_processes_ptr_stores [OF st])
qed

text \<open>The first states represent each other.\<close>

lemma start_mem_rel:
  assumes "allocator_ok al"
  shows "mem_rel ((Map.empty, None), new_free_memory_segments_list_ptr (al_seg al) m Map.empty)
    (new_process_memories_list, new_free_memory_segments_list m)"
proof -
  have "owns Map.empty [] (Map.empty, None)" by (simp add: holds_part)
  moreover have "owns Map.empty [(al_seg al Map.empty, \<lparr>fms_start_address = m, fms_size = m\<rparr>)]
      (new_free_memory_segments_list_ptr (al_seg al) m Map.empty)"
    by (rule new_free_memory_segments_list_ptr_owns) simp
  ultimately show ?thesis
    unfolding mem_rel_def fst_conv snd_conv new_process_memories_list_def new_free_memory_segments_list_def
    by (intro conjI exI [of _ "[(al_seg al Map.empty, \<lparr>fms_start_address = m, fms_size = m\<rparr>)]"]) simp_all
qed

lemma queues_empty: "queues h (replicate n None) (replicate n [])"
  by (simp add: queues_def list_all2_conv_all_nth)

lemma start_sim_rel:
  assumes "allocator_ok al" and "pt_time c = 0" "pt_spi c = 0" "pt_out c = []" "pt_running c = None" "pt_terminated c = None"
    "pt_pcbs c = Map.empty" "pt_procs c = (Map.empty, None)"
    "pt_segs c = new_free_memory_segments_list_ptr (al_seg al) m Map.empty"
    and "sim_time s = 0" "sim_spi s = 0" "sim_out s = []" "sim_running s = None" "sim_terminated s = []"
    "sim_procs s = new_process_memories_list" "sim_segs s = new_free_memory_segments_list m"
  shows "sim_rel (replicate n None) c (replicate n []) s"
proof -
  have "queues Map.empty (replicate n None @ [None, None]) (replicate n [] @ [[], []])"
    using queues_empty [of Map.empty "n + 2"] unfolding replicate_add by (simp add: numeral_2_eq_2)
  then have "pcbs_rel (pt_pcbs c) (replicate n None @ [pt_terminated c, pt_running c]) (replicate n [] @ [[], []])"
    using assms by (simp add: pcbs_rel_def)
  then have "\<exists>ls lt lr. length (replicate n None) = length ls \<and>
      pcbs_rel (pt_pcbs c) (replicate n None @ [pt_terminated c, pt_running c]) (ls @ [lt, lr]) \<and>
      map (map snd) ls = replicate n [] \<and> map snd lt = sim_terminated s \<and> map snd lr = running_list (sim_running s)"
    by (intro exI [of _ "replicate n []"] exI [of _ "[]"]) (use assms in \<open>simp add: running_list_def\<close>)
  with assms start_mem_rel [OF assms(1), of m] show ?thesis unfolding sim_rel_def by simp
qed

lemma fcfs_start_rel: "allocator_ok al \<Longrightarrow> fcfs_rel (fcfs_start_ptr al m) (fcfs_init m)"
  using start_sim_rel [of al "fcfs_start_ptr al m" m "fcfs_init m" 1]
  by (simp add: fcfs_rel_def fcfs_start_ptr_def fcfs_init_def new_pcbs_queue_def new_pcbs_list_def)

lemma multi_start_rel: "allocator_ok al \<Longrightarrow> multi_rel (multi_start_ptr al m) (multi_init m)"
  using start_sim_rel [of al "multi_start_ptr al m" m "multi_init m" "nat MIN_PRIORITY"]
  by (simp add: multi_rel_def multi_start_ptr_def multi_init_def new_pcbs_queue_def new_pcbs_list_def)

text \<open>The result of a runner: its lines and empty heaps, or its error.\<close>

abbreviation nothing_left :: heaps where
  "nothing_left \<equiv> (Map.empty, Map.empty, Map.empty, Map.empty)"

lemma simulates_runner:
  assumes "simulates (\<lambda>lines x. lines = (x, nothing_left)) r m"
  shows "r = Some (map_sum id (\<lambda>x. (x, nothing_left)) m)"
  using assms by (cases m) (auto simp: simulates_def)

lemma parse_ptr_sim:
  assumes "allocator_ok al"
  shows "simulates stores (Some (parse_process_data_file_ptr (al_sp al) fp)) (parse_process_data_file fp)"
  using parse_process_data_file_ptr_stores [of "al_sp al" fp] assms
  by (cases rule: rel_sum.cases) (auto simp: allocator_ok_def)

lemma fcfs_runner_ptr_sim:
  assumes al: "allocator_ok al"
  shows "simulates (\<lambda>lines x. lines = (x, nothing_left)) (fcfs_runner_ptr al file m) (fcfs_scheduler_runner file m)"
proof (cases "file")
  case None
  then show ?thesis by (simp add: fcfs_runner_ptr_def fcfs_scheduler_runner_def)
next
  case (Some fp)
  show ?thesis
    unfolding fcfs_runner_ptr_def fcfs_scheduler_runner_def Some option.case
    by (rule simulates_bind [OF parse_ptr_sim [OF al]],
        rule simulates_bind [OF fcfs_loop_sim [OF al _ fcfs_start_rel [OF al]]])
      (auto simp: fcfs_rel_def fcfs_init_def end_ptr_sim)
qed

lemma multi_runner_ptr_sim:
  assumes al: "allocator_ok al"
  shows "simulates (\<lambda>lines x. lines = (x, nothing_left)) (multi_runner_ptr al file m) (multi_scheduler_runner file m)"
proof (cases "file")
  case None
  then show ?thesis by (simp add: multi_runner_ptr_def multi_scheduler_runner_def)
next
  case (Some fp)
  show ?thesis
    unfolding multi_runner_ptr_def multi_scheduler_runner_def Some option.case
    by (rule simulates_bind [OF parse_ptr_sim [OF al]],
        rule simulates_bind [OF multi_loop_sim [OF al _ multi_start_rel [OF al]]])
      (auto simp: multi_rel_def multi_init_def end_ptr_sim)
qed

section \<open>Properties\<close>

text \<open>Both runners with all their pointers give what their models on lists give, for every file and every
  memory size: they end, with the same error or after printing the same lines, and then every
  scheduled process, control block, process memory and memory segment that was allocated has
  been freed.\<close>

theorem runners_pointers_refine:
  assumes "allocator_ok al"
  shows "fcfs_runner_ptr al file memsize =
      Some (map_sum id (\<lambda>lines. (lines, Map.empty, Map.empty, Map.empty, Map.empty)) (fcfs_scheduler_runner file memsize)) \<and>
    multi_runner_ptr al file memsize =
      Some (map_sum id (\<lambda>lines. (lines, Map.empty, Map.empty, Map.empty, Map.empty)) (multi_scheduler_runner file memsize))"
  using fcfs_runner_ptr_sim [OF assms, THEN simulates_runner] multi_runner_ptr_sim [OF assms, THEN simulates_runner] by blast

lemma least_free: "malloc_ok (\<lambda>h :: nat \<rightharpoonup> 'a. LEAST a. h a = None)"
  unfolding malloc_ok_def
proof (intro allI impI)
  fix h :: "nat \<rightharpoonup> 'a"
  assume "finite (dom h)"
  then obtain a where "a \<notin> dom h" using ex_new_if_finite [OF infinite_UNIV_nat] by blast
  then have "h a = None" by auto
  then show "h (LEAST a. h a = None) = None" by (rule LeastI)
qed

theorem runners_pointers_refine_witness:
  "\<exists>al. allocator_ok al \<and> (\<exists>lines.
    fcfs_runner_ptr al (Some (render_file demo_sps)) 100 = Some (Inr (lines, Map.empty, Map.empty, Map.empty, Map.empty)) \<and>
    lines = fcfs_schedule 100 0 demo_sps)"
proof -
  let ?al = "\<lparr>al_pcb = \<lambda>h. LEAST a. h a = None, al_seg = \<lambda>h. LEAST a. h a = None,
    al_sp = \<lambda>h. LEAST a. h a = None\<rparr>"
  have al: "allocator_ok ?al" by (simp add: allocator_ok_def least_free)
  have loop: "fcfs_scheduler_runner (Some (render_file demo_sps)) 100 = Inr (fcfs_schedule 100 0 demo_sps)"
  proof -
    from fcfs_loop_total [OF demo_sps_valid] obtain s where "fcfs_loop demo_sps 100 (fcfs_init 100) = Inr s"
      and "fcfs_final 100 demo_sps s" .
    with fcfs_final_out(1) demo_sps_parsed show ?thesis by (simp add: fcfs_scheduler_runner_def)
  qed
  from runners_pointers_refine [OF al, of "Some (render_file demo_sps)" 100] loop al show ?thesis by auto
qed

end
