(* ===== verification/Memory_Printing.thy ===== *)
theory Memory_Printing
  imports Memory_Pointers C_Library
begin

text \<open>
  The functions of \<open>project1/memory-management.c\<close> that print the two lists for debugging, with the
  addresses of the nodes. How \<open>%p\<close> shows an address or \<open>NULL\<close> is a parameter.
\<close>

section \<open>Printing\<close>

partial_function (option) print_nodes ::
  "(node_addr \<Rightarrow> 'a node \<Rightarrow> string) \<Rightarrow> 'a heap \<Rightarrow> node_addr option \<Rightarrow> string \<Rightarrow> string res option" where
  "print_nodes line h p out =
     (case p of
        None \<Rightarrow> Some (Inr out)
      | Some a \<Rightarrow>
          (case load_node h p of
             Inl e \<Rightarrow> Some (Inl e)
           | Inr n \<Rightarrow> print_nodes line h (nd_next n) (out @ line a n)))"

declare print_nodes.simps [code]

definition process_memory_line :: "(node_addr option \<Rightarrow> string) \<Rightarrow> node_addr \<Rightarrow> process_memory_t node \<Rightarrow> string" where
  "process_memory_line show_ptr a n =
     ''  [proc_mem: '' @ show_ptr (Some a) @ '', next: '' @ show_ptr (nd_next n) @
     '', start_add: '' @ show_int (pm_start_address (nd_data n)) @ '', size: '' @ show_int (pm_size (nd_data n)) @
     '', time: '' @ show_int (pm_swap_in_time (nd_data n)) @ '', pid: '' @ show_int (pm_process_id (nd_data n)) @ '']'' @ [newline]"

definition print_process_memories_list :: "(node_addr option \<Rightarrow> string) \<Rightarrow> procs_ptr \<Rightarrow> string res option" where
  "print_process_memories_list show_ptr procs =
     then_do (print_nodes (process_memory_line show_ptr) (fst procs) (snd procs) (''{'' @ [newline])) (\<lambda>out.
       Some (Inr (out @ ''}'' @ [newline])))"

definition free_memory_segment_line ::
  "(node_addr option \<Rightarrow> string) \<Rightarrow> node_addr \<Rightarrow> free_memory_segment_t node \<Rightarrow> string" where
  "free_memory_segment_line show_ptr a n =
     ''  [mem_seg: '' @ show_ptr (Some a) @ '', next: '' @ show_ptr (nd_next n) @
     '', start_add: '' @ show_int (fms_start_address (nd_data n)) @ '', size: '' @ show_int (fms_size (nd_data n)) @ '']'' @ [newline]"

definition print_free_memory_segments_list :: "(node_addr option \<Rightarrow> string) \<Rightarrow> segs_ptr \<Rightarrow> string res option" where
  "print_free_memory_segments_list show_ptr segs =
     then_do (print_nodes (free_memory_segment_line show_ptr) (fst segs) (snd segs) (''{'' @ [newline])) (\<lambda>out.
       Some (Inr (out @ ''}'' @ [newline])))"

section \<open>What is printed\<close>

text \<open>One line for each node, in the order of the list, with the address of the next one.\<close>

fun list_text :: "(node_addr \<Rightarrow> 'a node \<Rightarrow> string) \<Rightarrow> (node_addr \<times> 'a) list \<Rightarrow> string" where
  "list_text line [] = []"
| "list_text line ((a, x) # l) = line a \<lparr>nd_data = x, nd_next = first_addr l\<rparr> @ list_text line l"

lemma print_nodes_part:
  "part h p l None \<Longrightarrow> print_nodes line h p out = Some (Inr (out @ list_text line l))"
proof (induction l arbitrary: p out)
  case Nil
  then show ?case by (subst print_nodes.simps) simp
next
  case (Cons e l)
  obtain a x where e: "e = (a, x)" by (cases e)
  with Cons.prems obtain n where n: "p = Some a" "h a = Some n" "nd_data n = x" "part h (nd_next n) l None" by auto
  then have "n = \<lparr>nd_data = x, nd_next = first_addr l\<rparr>" by (cases n; cases l) auto
  with Cons.IH [OF n(4), of "out @ line a n"] n show ?case by (subst print_nodes.simps) (simp add: e)
qed

lemma print_nodes_owns:
  "owns rest l c \<Longrightarrow> print_nodes line (fst c) (snd c) out = Some (Inr (out @ list_text line l))"
  by (cases c) (simp add: holds_part print_nodes_part)

text \<open>Printing ends and shows the represented list.\<close>

lemma print_process_memories_list_text:
  assumes "owns rest l procs"
  shows "print_process_memories_list show_ptr procs =
      Some (Inr (''{'' @ [newline] @ list_text (process_memory_line show_ptr) l @ ''}'' @ [newline]))"
  unfolding print_process_memories_list_def print_nodes_owns [OF assms] by simp

lemma print_free_memory_segments_list_text:
  assumes "owns rest l segs"
  shows "print_free_memory_segments_list show_ptr segs =
      Some (Inr (''{'' @ [newline] @ list_text (free_memory_segment_line show_ptr) l @ ''}'' @ [newline]))"
  unfolding print_free_memory_segments_list_def print_nodes_owns [OF assms] by simp

end
