(* ===== verification/Secret_Code.thy ===== *)
theory Secret_Code
  imports C_Library
begin

text \<open>
  Secret codes of the Mastermind game (\<open>project2/secret-code.c\<close> and \<open>.h\<close>). A character
  buffer is the list of its bytes, and every access to it is checked. Shown are that the
  validity test reads no byte after the terminating null and accepts the codes of four
  colours only, that a generated code is valid, and that the feedback of a guess is the
  one the rules of the game define by multisets.
\<close>

section \<open>Data\<close>

definition SECRET_CODE_LEN :: nat where "SECRET_CODE_LEN = 4"
definition SECRET_CODE_COLORS_LEN :: int where "SECRET_CODE_COLORS_LEN = 6"

definition SECRET_CODE_COLORS :: string where
  "SECRET_CODE_COLORS = [CHR ''A'', CHR ''B'', CHR ''C'', CHR ''D'', CHR ''E'', CHR ''F'']"

section \<open>Operations\<close>

text \<open>
  The loop that fills a code. The values of \<open>rand()\<close> are a parameter; they are not
  negative.
\<close>

function fill_code :: "(nat \<Rightarrow> int) \<Rightarrow> nat \<Rightarrow> string \<Rightarrow> string res" where
  "fill_code rand i secret_code =
     (if i < SECRET_CODE_LEN
      then res_bind (read_at SECRET_CODE_COLORS (nat (rand i mod SECRET_CODE_COLORS_LEN))) (\<lambda>c.
           res_bind (write_at secret_code i c) (\<lambda>secret_code'.
             fill_code rand (i + 1) secret_code'))
      else Inr secret_code)"
  by pat_completeness auto
termination
  by (relation "measure (\<lambda>(rand, i, code). SECRET_CODE_LEN - i)") auto

declare fill_code.simps [simp del]

definition get_random_secret_code :: "(nat \<Rightarrow> int) \<Rightarrow> string \<Rightarrow> string res" where
  "get_random_secret_code rand secret_code =
     res_bind (fill_code rand 0 secret_code) (\<lambda>secret_code'.
       write_at secret_code' SECRET_CODE_LEN NUL)"

definition is_color :: "char \<Rightarrow> bool" where
  "is_color c \<longleftrightarrow> c = CHR ''A'' \<or> c = CHR ''B'' \<or> c = CHR ''C'' \<or> c = CHR ''D''
     \<or> c = CHR ''E'' \<or> c = CHR ''F''"

text \<open>The index at which the loop of the test stops.\<close>

function valid_loop :: "string \<Rightarrow> nat \<Rightarrow> nat res" where
  "valid_loop secret_code i =
     (if i < SECRET_CODE_LEN
      then res_bind (read_at secret_code i) (\<lambda>c.
             if is_color c then valid_loop secret_code (i + 1) else Inr i)
      else Inr i)"
  by pat_completeness auto
termination
  by (relation "measure (\<lambda>(code, i). SECRET_CODE_LEN - i)") auto

declare valid_loop.simps [simp del]

definition is_valid_secret_code :: "string \<Rightarrow> bool res" where
  "is_valid_secret_code secret_code =
     res_bind (valid_loop secret_code 0) (\<lambda>i.
       if i = SECRET_CODE_LEN
       then res_bind (read_at secret_code SECRET_CODE_LEN) (\<lambda>c. Inr (c = NUL))
       else Inr False)"

text \<open>The first loop of the feedback: the count of correct positions and the marked positions.\<close>

function positions_loop :: "string \<Rightarrow> string \<Rightarrow> nat \<Rightarrow> int \<Rightarrow> int list \<Rightarrow> (int \<times> int list) res" where
  "positions_loop actual guess i cnt visited =
     (if i < SECRET_CODE_LEN
      then res_bind (read_at guess i) (\<lambda>g.
           res_bind (read_at actual i) (\<lambda>a.
             if g = a
             then res_bind (write_at visited i 1) (\<lambda>visited'.
                    positions_loop actual guess (i + 1) (cnt + 1) visited')
             else positions_loop actual guess (i + 1) cnt visited))
      else Inr (cnt, visited))"
  by pat_completeness auto
termination
  by (relation "measure (\<lambda>(a, g, i, n, v). SECRET_CODE_LEN - i)") auto

declare positions_loop.simps [simp del]

text \<open>
  The inner loop: the first position that is not marked in either array and holds the
  colour, if there is one.
\<close>

function color_search :: "string \<Rightarrow> char \<Rightarrow> int list \<Rightarrow> int list \<Rightarrow> nat \<Rightarrow> nat option res" where
  "color_search actual g visited visited_2 j =
     (if j < SECRET_CODE_LEN
      then res_bind (read_at visited j) (\<lambda>v.
           res_bind (if v \<noteq> 0 then Inr v else read_at visited_2 j) (\<lambda>v2.
             if v \<noteq> 0 \<or> v2 \<noteq> 0 then color_search actual g visited visited_2 (j + 1)
             else res_bind (read_at actual j) (\<lambda>a.
                    if g = a then Inr (Some j)
                    else color_search actual g visited visited_2 (j + 1))))
      else Inr None)"
  by pat_completeness auto
termination
  by (relation "measure (\<lambda>(a, g, v, w, j). SECRET_CODE_LEN - j)") auto

declare color_search.simps [simp del]

function colors_loop :: "string \<Rightarrow> string \<Rightarrow> int list \<Rightarrow> int list \<Rightarrow> nat \<Rightarrow> int \<Rightarrow> int res" where
  "colors_loop actual guess visited visited_2 i cnt =
     (if i < SECRET_CODE_LEN
      then res_bind (read_at visited i) (\<lambda>v.
             if v \<noteq> 0 then colors_loop actual guess visited visited_2 (i + 1) cnt
             else res_bind (read_at guess i) (\<lambda>g.
                  res_bind (color_search actual g visited visited_2 0) (\<lambda>r.
                    case r of
                      None \<Rightarrow> colors_loop actual guess visited visited_2 (i + 1) cnt
                    | Some j \<Rightarrow>
                        res_bind (write_at visited_2 j 1) (\<lambda>visited_2'.
                          colors_loop actual guess visited visited_2' (i + 1) (cnt + 1)))))
      else Inr cnt)"
  by pat_completeness auto
termination
  by (relation "measure (\<lambda>(a, g, v, w, i, n). SECRET_CODE_LEN - i)") auto

declare colors_loop.simps [simp del]

text \<open>The result is the returned flag and the two counts.\<close>

definition get_secret_code_guess_feedback :: "string \<Rightarrow> string \<Rightarrow> (bool \<times> int \<times> int) res" where
  "get_secret_code_guess_feedback actual guess =
     res_bind (positions_loop actual guess 0 0 (replicate SECRET_CODE_LEN 0)) (\<lambda>(positions, visited).
     res_bind (colors_loop actual guess visited (replicate SECRET_CODE_LEN 0) 0 0) (\<lambda>colors.
       Inr (positions = int SECRET_CODE_LEN, positions, colors)))"

section \<open>Validity\<close>

text \<open>The codes of the game.\<close>

definition secret_codes :: "string set" where
  "secret_codes = {s. length s = SECRET_CODE_LEN \<and> set s \<subseteq> set SECRET_CODE_COLORS}"

lemma is_color_iff: "is_color c \<longleftrightarrow> c \<in> set SECRET_CODE_COLORS"
  by (simp add: is_color_def SECRET_CODE_COLORS_def)

lemma not_is_color_NUL [simp]: "\<not> is_color NUL"
  by (simp add: is_color_def NUL_def)

text \<open>
  The test on a buffer that holds a null byte: the bytes before it decide, and nothing
  after it is read.
\<close>

lemma valid_loop_string:
  assumes "i \<le> length s" and "NUL \<notin> set s" and "\<forall>k < i. is_color (s ! k)" and "i \<le> SECRET_CODE_LEN"
  shows "valid_loop (s @ NUL # rest) i =
    Inr (length (takeWhile is_color (take SECRET_CODE_LEN s)))"
  using assms
proof (induction "SECRET_CODE_LEN - i" arbitrary: i)
  case 0
  then have i: "i = SECRET_CODE_LEN" by simp
  have "\<forall>c \<in> set (take SECRET_CODE_LEN s). is_color c"
    using 0(2-) i by (auto simp: in_set_conv_nth)
  then have "takeWhile is_color (take SECRET_CODE_LEN s) = take SECRET_CODE_LEN s" by simp
  with i 0(2) show ?case by (simp add: valid_loop.simps del: takeWhile_eq_all_conv)
next
  case (Suc n)
  then have lt: "i < SECRET_CODE_LEN" by simp
  have split: "take SECRET_CODE_LEN s = take i s @ take (SECRET_CODE_LEN - i) (drop i s)"
    using lt by (simp add: take_add [symmetric])
  have colors: "\<forall>c \<in> set (take i s). is_color c" using Suc.prems by (auto simp: in_set_conv_nth)
  show ?case
  proof (cases "i < length s \<and> is_color (s ! i)")
    case True
    with Suc.prems lt have "\<forall>k < i + 1. is_color (s ! k)" by (auto simp: less_Suc_eq)
    with Suc.hyps(1) [of "i + 1"] Suc.hyps(2) Suc.prems True lt show ?thesis
      by (simp add: valid_loop.simps [of _ i] nth_append)
  next
    case False
    then have "takeWhile is_color (take (SECRET_CODE_LEN - i) (drop i s)) = []"
      using lt by (cases "drop i s") (auto simp: take_Cons' nth_via_drop split: if_splits)
    then have "takeWhile is_color (take SECRET_CODE_LEN s) = take i s"
      unfolding split using colors by (simp add: takeWhile_append2)
    moreover have "valid_loop (s @ NUL # rest) i = Inr i"
      using False lt Suc.prems by (auto simp: valid_loop.simps [of _ i] nth_append)
    ultimately show ?thesis using Suc.prems by simp
  qed
qed

lemma is_valid_secret_code_string:
  assumes "NUL \<notin> set s"
  shows "is_valid_secret_code (s @ NUL # rest) = Inr (s \<in> secret_codes)"
proof -
  let ?n = "length (takeWhile is_color (take SECRET_CODE_LEN s))"
  have loop: "valid_loop (s @ NUL # rest) 0 = Inr ?n"
    using assms by (intro valid_loop_string) simp_all
  have le: "?n \<le> length (take SECRET_CODE_LEN s)" by (rule length_takeWhile_le)
  have full: "?n = SECRET_CODE_LEN \<longleftrightarrow>
      SECRET_CODE_LEN \<le> length s \<and> (\<forall>c \<in> set (take SECRET_CODE_LEN s). is_color c)"
  proof
    assume n: "?n = SECRET_CODE_LEN"
    with le have len: "SECRET_CODE_LEN \<le> length s" by simp
    then have "takeWhile is_color (take SECRET_CODE_LEN s) = take SECRET_CODE_LEN s"
      using n by (metis append_eq_conv_conj length_take min.absorb2 order_refl take_all takeWhile_dropWhile_id)
    with len show "SECRET_CODE_LEN \<le> length s \<and> (\<forall>c \<in> set (take SECRET_CODE_LEN s). is_color c)" by simp
  next
    assume r: "SECRET_CODE_LEN \<le> length s \<and> (\<forall>c \<in> set (take SECRET_CODE_LEN s). is_color c)"
    then have "takeWhile is_color (take SECRET_CODE_LEN s) = take SECRET_CODE_LEN s" by simp
    with r show "?n = SECRET_CODE_LEN" by (simp del: takeWhile_eq_all_conv)
  qed
  show ?thesis
  proof (cases "?n = SECRET_CODE_LEN")
    case True
    have "(s @ NUL # rest) ! SECRET_CODE_LEN = NUL \<longleftrightarrow> length s = SECRET_CODE_LEN"
      using True full assms by (auto simp: nth_append dest: nth_mem)
    with True full loop show ?thesis
      by (auto simp: is_valid_secret_code_def secret_codes_def is_color_iff)
  next
    case False
    with full loop show ?thesis
      by (auto simp: is_valid_secret_code_def secret_codes_def is_color_iff)
  qed
qed

lemma c_string_split:
  assumes "NUL \<in> set buf"
  obtains rest where "buf = c_string buf @ NUL # rest" and "NUL \<notin> set (c_string buf)"
proof -
  from split_list_first [OF assms] obtain ys zs where buf: "buf = ys @ NUL # zs" "NUL \<notin> set ys" by blast
  then have "\<forall>c \<in> set ys. c \<noteq> NUL" by auto
  then have "c_string buf = ys" by (simp add: c_string_def buf(1) takeWhile_append2)
  with buf show thesis by (intro that [of zs]) simp_all
qed

lemma is_valid_secret_code_buffer:
  assumes "NUL \<in> set buf"
  shows "is_valid_secret_code buf = Inr (c_string buf \<in> secret_codes)"
  using assms by (metis c_string_split is_valid_secret_code_string)

section \<open>Random codes\<close>

lemma fill_code_ok:
  assumes "length code = SECRET_CODE_LEN + 1" and "\<forall>k < i. code ! k \<in> set SECRET_CODE_COLORS"
    and "i \<le> SECRET_CODE_LEN"
  shows "\<exists>code'. fill_code rand i code = Inr code' \<and> length code' = SECRET_CODE_LEN + 1 \<and>
    (\<forall>k < SECRET_CODE_LEN. code' ! k \<in> set SECRET_CODE_COLORS)"
  using assms
proof (induction rand i code rule: fill_code.induct)
  case (1 rand i code)
  show ?case
  proof (cases "i < SECRET_CODE_LEN")
    case False
    with "1.prems" show ?thesis by (auto simp: fill_code.simps)
  next
    case True
    let ?k = "nat (rand i mod SECRET_CODE_COLORS_LEN)"
    have k: "?k < length SECRET_CODE_COLORS"
      by (simp add: SECRET_CODE_COLORS_def SECRET_CODE_COLORS_LEN_def nat_less_iff)
    let ?code = "code[i := SECRET_CODE_COLORS ! ?k]"
    have "\<forall>j < i + 1. ?code ! j \<in> set SECRET_CODE_COLORS"
      using "1.prems" k True by (auto simp: nth_list_update less_Suc_eq)
    with "1.IH" [OF True, of "SECRET_CODE_COLORS ! ?k" ?code] "1.prems" True k show ?thesis
      by (simp add: fill_code.simps [of rand i code])
  qed
qed

lemma get_random_secret_code_ok:
  assumes "length code = SECRET_CODE_LEN + 1"
  obtains s where "get_random_secret_code rand code = Inr (s @ [NUL])" and "s \<in> secret_codes"
proof -
  from fill_code_ok [of code 0 rand] assms obtain code' where
    fill: "fill_code rand 0 code = Inr code'" and len: "length code' = SECRET_CODE_LEN + 1"
    and colors: "\<forall>k < SECRET_CODE_LEN. code' ! k \<in> set SECRET_CODE_COLORS"
    by auto
  let ?s = "take SECRET_CODE_LEN code'"
  have "code'[SECRET_CODE_LEN := NUL] = ?s @ [NUL]"
    using len by (simp add: upd_conv_take_nth_drop)
  moreover have "?s \<in> secret_codes"
    using len colors by (auto simp: secret_codes_def in_set_conv_nth)
  ultimately show thesis
    using fill len by (intro that [of ?s]) (simp_all add: get_random_secret_code_def)
qed

section \<open>Feedback\<close>

text \<open>The multiset of the values that \<open>xs\<close> has at the positions in \<open>B\<close>.\<close>

definition at_positions :: "'a list \<Rightarrow> nat set \<Rightarrow> 'a multiset" where
  "at_positions xs B = image_mset (\<lambda>i. xs ! i) (mset_set B)"

text \<open>The positions of a code, and the ones an array does not mark.\<close>

definition unmarked :: "int list \<Rightarrow> nat set" where
  "unmarked visited = {i. i < SECRET_CODE_LEN \<and> visited ! i = 0}"

lemma finite_unmarked [simp]: "finite (unmarked visited)"
  by (simp add: unmarked_def)

lemma at_positions_remove:
  "finite B \<Longrightarrow> j \<in> B \<Longrightarrow> at_positions xs (B - {j}) = at_positions xs B - {#xs ! j#}"
  by (simp add: at_positions_def mset_set.remove)

lemma at_positions_insert:
  "finite B \<Longrightarrow> j \<notin> B \<Longrightarrow> at_positions xs (insert j B) = add_mset (xs ! j) (at_positions xs B)"
  by (simp add: at_positions_def)

lemma in_at_positions: "finite B \<Longrightarrow> x \<in># at_positions xs B \<longleftrightarrow> (\<exists>j \<in> B. xs ! j = x)"
  by (auto simp: at_positions_def)

lemma at_positions_all: "length xs = n \<Longrightarrow> at_positions xs {..<n} = mset xs"
  by (metis at_positions_def map_nth mset_map mset_upt atLeast0LessThan)

lemma at_positions_union:
  "finite A \<Longrightarrow> finite B \<Longrightarrow> A \<inter> B = {} \<Longrightarrow>
   at_positions xs (A \<union> B) = at_positions xs A + at_positions xs B"
  by (simp add: at_positions_def mset_set_Union)

text \<open>The reference: exact hits, and the hits of colours regardless of their place.\<close>

definition hits :: "string \<Rightarrow> string \<Rightarrow> nat set" where
  "hits actual guess = {i. i < SECRET_CODE_LEN \<and> guess ! i = actual ! i}"

definition color_hits :: "string \<Rightarrow> string \<Rightarrow> nat" where
  "color_hits actual guess =
     size (mset (take SECRET_CODE_LEN guess) \<inter># mset (take SECRET_CODE_LEN actual))"

text \<open>One round of each loop on buffers that are long enough.\<close>

lemma positions_loop_round:
  assumes "SECRET_CODE_LEN \<le> length actual" and "SECRET_CODE_LEN \<le> length guess"
    and "length visited = SECRET_CODE_LEN" and "i < SECRET_CODE_LEN"
  shows "positions_loop actual guess i cnt visited =
    (if guess ! i = actual ! i then positions_loop actual guess (i + 1) (cnt + 1) (visited[i := 1])
     else positions_loop actual guess (i + 1) cnt visited)"
  using assms by (subst positions_loop.simps) simp

lemma positions_loop_ok:
  assumes "SECRET_CODE_LEN \<le> length actual" and "SECRET_CODE_LEN \<le> length guess"
    and "length visited = SECRET_CODE_LEN" and "i \<le> SECRET_CODE_LEN"
    and "unmarked visited = {..<SECRET_CODE_LEN} - (hits actual guess \<inter> {..<i})"
    and "cnt = int (card (hits actual guess \<inter> {..<i}))"
  shows "\<exists>visited'. positions_loop actual guess i cnt visited =
      Inr (int (card (hits actual guess)), visited') \<and> length visited' = SECRET_CODE_LEN \<and>
    unmarked visited' = {..<SECRET_CODE_LEN} - hits actual guess"
  using assms(3-)
proof (induction "SECRET_CODE_LEN - i" arbitrary: i cnt visited)
  case 0
  then have "hits actual guess \<inter> {..<i} = hits actual guess" by (auto simp: hits_def)
  with 0 show ?case by (auto simp: positions_loop.simps)
next
  case (Suc n)
  then have lt: "i < SECRET_CODE_LEN" by simp
  note round = positions_loop_round [OF assms(1,2) Suc.prems(1) lt, of cnt]
  have n: "n = SECRET_CODE_LEN - (i + 1)" using Suc.hyps(2) by simp
  show ?case
  proof (cases "guess ! i = actual ! i")
    case True
    then have ins: "hits actual guess \<inter> {..<i + 1} = insert i (hits actual guess \<inter> {..<i})"
      using lt by (auto simp: hits_def)
    have "unmarked (visited[i := 1]) = unmarked visited - {i}"
      using lt Suc.prems(1) by (auto simp: unmarked_def nth_list_update split: if_splits)
    also have "\<dots> = {..<SECRET_CODE_LEN} - (hits actual guess \<inter> {..<i + 1})"
      unfolding Suc.prems(3) ins by blast
    finally have un: "unmarked (visited[i := 1]) =
      {..<SECRET_CODE_LEN} - (hits actual guess \<inter> {..<i + 1})" .
    have "cnt + 1 = int (card (hits actual guess \<inter> {..<i + 1}))"
      unfolding ins Suc.prems(4) by simp
    with Suc.hyps(1) [OF n _ _ un] Suc.prems(1) lt show ?thesis
      unfolding round by (simp add: True)
  next
    case False
    then have "hits actual guess \<inter> {..<i + 1} = hits actual guess \<inter> {..<i}"
      by (auto simp: hits_def less_Suc_eq)
    with Suc.hyps(1) [of "i + 1" visited cnt] Suc.hyps(2) Suc.prems lt show ?thesis
      unfolding round by (simp add: False)
  qed
qed

lemma color_search_ok:
  assumes "SECRET_CODE_LEN \<le> length actual" and "length visited = SECRET_CODE_LEN"
    and "length visited_2 = SECRET_CODE_LEN" and "j \<le> SECRET_CODE_LEN"
  shows "\<exists>r. color_search actual g visited visited_2 j = Inr r \<and>
    (case r of
       None \<Rightarrow> \<forall>k \<in> unmarked visited \<inter> unmarked visited_2. j \<le> k \<longrightarrow> actual ! k \<noteq> g
     | Some k \<Rightarrow> k \<in> unmarked visited \<inter> unmarked visited_2 \<and> actual ! k = g)"
  using assms(4)
proof (induction "SECRET_CODE_LEN - j" arbitrary: j)
  case 0
  then show ?case by (auto simp: color_search.simps unmarked_def)
next
  case (Suc n)
  then have lt: "j < SECRET_CODE_LEN" by simp
  have round: "color_search actual g visited visited_2 j =
      (if j \<in> unmarked visited \<inter> unmarked visited_2 \<and> actual ! j = g then Inr (Some j)
       else color_search actual g visited visited_2 (j + 1))"
    using assms lt by (subst color_search.simps) (auto simp: unmarked_def)
  show ?case
  proof (cases "j \<in> unmarked visited \<inter> unmarked visited_2 \<and> actual ! j = g")
    case True
    then show ?thesis unfolding round by simp
  next
    case False
    have n: "n = SECRET_CODE_LEN - (j + 1)" using Suc.hyps(2) by simp
    from Suc.hyps(1) [OF n] lt obtain r where
      r: "color_search actual g visited visited_2 (j + 1) = Inr r"
      and cases: "case r of
       None \<Rightarrow> \<forall>k \<in> unmarked visited \<inter> unmarked visited_2. j + 1 \<le> k \<longrightarrow> actual ! k \<noteq> g
     | Some k \<Rightarrow> k \<in> unmarked visited \<inter> unmarked visited_2 \<and> actual ! k = g"
      by auto
    from cases False have "case r of
       None \<Rightarrow> \<forall>k \<in> unmarked visited \<inter> unmarked visited_2. j \<le> k \<longrightarrow> actual ! k \<noteq> g
     | Some k \<Rightarrow> k \<in> unmarked visited \<inter> unmarked visited_2 \<and> actual ! k = g"
      by (auto split: option.splits simp: Suc_le_eq nat_less_le)
    with r False show ?thesis unfolding round by auto
  qed
qed

text \<open>Matching one more element against what is left of a multiset.\<close>

lemma size_inter_add:
  "size (add_mset x G \<inter># A) = size (G \<inter># A) + (if x \<in># A - G then 1 else 0)"
proof (cases "x \<in># A - G")
  case True
  then have "count G x < count A x" by (simp add: in_diff_count)
  then have "add_mset x G \<inter># A = add_mset x (G \<inter># A)"
    by (intro multiset_eqI) auto
  with True show ?thesis by simp
next
  case False
  then have "count A x \<le> count G x" by (simp add: in_diff_count not_less)
  then have "add_mset x G \<inter># A = G \<inter># A"
    by (intro multiset_eqI) auto
  with False show ?thesis by simp
qed

lemma colors_loop_ok:
  assumes "SECRET_CODE_LEN \<le> length actual" and "SECRET_CODE_LEN \<le> length guess"
    and "length visited = SECRET_CODE_LEN" and "length visited_2 = SECRET_CODE_LEN"
    and "i \<le> SECRET_CODE_LEN"
    and "at_positions actual (unmarked visited \<inter> unmarked visited_2) =
      at_positions actual (unmarked visited) - at_positions guess (unmarked visited \<inter> {..<i})"
    and "cnt = int (size (at_positions guess (unmarked visited \<inter> {..<i})
      \<inter># at_positions actual (unmarked visited)))"
  shows "colors_loop actual guess visited visited_2 i cnt =
    Inr (int (size (at_positions guess (unmarked visited) \<inter># at_positions actual (unmarked visited))))"
  using assms(4-)
proof (induction "SECRET_CODE_LEN - i" arbitrary: i cnt visited_2)
  case 0
  then have "unmarked visited \<inter> {..<i} = unmarked visited" by (auto simp: unmarked_def)
  with 0 show ?case by (simp add: colors_loop.simps)
next
  case (Suc n)
  then have lt: "i < SECRET_CODE_LEN" by simp
  let ?A = "at_positions actual (unmarked visited)"
  let ?G = "at_positions guess (unmarked visited \<inter> {..<i})"
  let ?R = "unmarked visited \<inter> unmarked visited_2"
  note IH = Suc.hyps(1) [of "Suc i"]
  have n: "n = SECRET_CODE_LEN - Suc i" using Suc.hyps(2) by simp
  show ?case
  proof (cases "visited ! i = 0")
    case False
    then have "unmarked visited \<inter> {..<Suc i} = unmarked visited \<inter> {..<i}"
      by (auto simp: unmarked_def less_Suc_eq)
    with IH [of visited_2 cnt] n Suc.prems lt False assms(3) show ?thesis
      by (simp add: colors_loop.simps [of actual guess visited visited_2 i])
  next
    case True
    then have ins: "unmarked visited \<inter> {..<Suc i} = insert i (unmarked visited \<inter> {..<i})"
      using lt by (auto simp: unmarked_def)
    have G: "at_positions guess (unmarked visited \<inter> {..<Suc i}) = add_mset (guess ! i) ?G"
      unfolding ins by (simp add: at_positions_insert)
    from color_search_ok [OF assms(1,3) Suc.prems(1), of 0 "guess ! i"] obtain r where
      r: "color_search actual (guess ! i) visited visited_2 0 = Inr r" and cases: "case r of
        None \<Rightarrow> \<forall>k \<in> ?R. 0 \<le> k \<longrightarrow> actual ! k \<noteq> guess ! i | Some k \<Rightarrow> k \<in> ?R \<and> actual ! k = guess ! i"
      by auto
    have left: "guess ! i \<in># ?A - ?G \<longleftrightarrow> (\<exists>k \<in> ?R. actual ! k = guess ! i)"
      unfolding Suc.prems(3) [symmetric] by (simp add: in_at_positions)
    show ?thesis
    proof (cases r)
      case None
      with cases left have notin: "guess ! i \<notin># ?A - ?G" by auto
      then have "?A - add_mset (guess ! i) ?G = ?A - ?G"
        by (metis diff_add_mset_swap diff_single_trivial add_mset_add_single diff_diff_add)
      with IH [of visited_2 cnt] n Suc.prems lt notin True assms(2,3) r None show ?thesis
        by (simp add: colors_loop.simps [of actual guess visited visited_2 i] G size_inter_add)
    next
      case (Some k)
      with cases have k: "k \<in> ?R" "actual ! k = guess ! i" by auto
      with left have isin: "guess ! i \<in># ?A - ?G" by auto
      have "unmarked visited \<inter> unmarked (visited_2[k := 1]) = ?R - {k}"
        using k(1) Suc.prems(1) by (auto simp: unmarked_def nth_list_update split: if_splits)
      then have "at_positions actual (unmarked visited \<inter> unmarked (visited_2[k := 1])) =
          ?A - add_mset (guess ! i) ?G"
        using k Suc.prems(3) by (simp add: at_positions_remove)
      moreover have "k < length visited_2" using k(1) Suc.prems(1) by (simp add: unmarked_def)
      ultimately show ?thesis
        using IH [of "visited_2[k := 1]" "cnt + 1"] n Suc.prems lt isin True assms(2,3) r Some
        by (simp add: colors_loop.simps [of actual guess visited visited_2 i] G size_inter_add)
    qed
  qed
qed

lemma inter_add_same: "(G + P) \<inter># (A + P) = (G \<inter># A) + (P :: 'a multiset)"
  by (intro multiset_eqI) simp

lemma card_hits_le: "card (hits actual guess) \<le> SECRET_CODE_LEN"
  and finite_hits [simp]: "finite (hits actual guess)"
  and hits_sub: "hits actual guess \<subseteq> {..<SECRET_CODE_LEN}"
proof -
  show sub: "hits actual guess \<subseteq> {..<SECRET_CODE_LEN}" by (auto simp: hits_def)
  then show "finite (hits actual guess)" by (rule finite_subset) simp
  from card_mono [OF _ sub] show "card (hits actual guess) \<le> SECRET_CODE_LEN" by simp
qed

lemma color_hits_split:
  assumes "SECRET_CODE_LEN \<le> length actual" and "SECRET_CODE_LEN \<le> length guess"
  defines "U \<equiv> {..<SECRET_CODE_LEN} - hits actual guess"
  shows "color_hits actual guess =
    size (at_positions guess U \<inter># at_positions actual U) + card (hits actual guess)"
proof -
  let ?H = "hits actual guess"
  have whole: "{..<SECRET_CODE_LEN} = U \<union> ?H" using hits_sub by (auto simp: U_def)
  have parts: "finite U" "U \<inter> ?H = {}" by (auto simp: U_def)
  have mset: "mset (take SECRET_CODE_LEN xs) = at_positions xs U + at_positions xs ?H"
    if "SECRET_CODE_LEN \<le> length xs" for xs :: string
  proof -
    have "mset (take SECRET_CODE_LEN xs) = at_positions (take SECRET_CODE_LEN xs) {..<SECRET_CODE_LEN}"
      using that by (simp add: at_positions_all)
    also have "\<dots> = at_positions xs {..<SECRET_CODE_LEN}"
      unfolding at_positions_def by (intro image_mset_cong) auto
    finally show ?thesis unfolding whole using parts by (simp add: at_positions_union)
  qed
  have same: "at_positions guess ?H = at_positions actual ?H"
    unfolding at_positions_def by (intro image_mset_cong) (auto simp: hits_def)
  show ?thesis
    unfolding color_hits_def mset [OF assms(1)] mset [OF assms(2)] same inter_add_same
    by (simp add: at_positions_def)
qed

lemma unmarked_zeros: "unmarked (replicate SECRET_CODE_LEN 0) = {..<SECRET_CODE_LEN}"
  by (auto simp: unmarked_def)

lemma get_secret_code_guess_feedback_eq:
  assumes "SECRET_CODE_LEN \<le> length actual" and "SECRET_CODE_LEN \<le> length guess"
  shows "get_secret_code_guess_feedback actual guess =
    Inr (take SECRET_CODE_LEN guess = take SECRET_CODE_LEN actual, int (card (hits actual guess)),
      int (color_hits actual guess) - int (card (hits actual guess)))"
proof -
  from positions_loop_ok [OF assms, of "replicate SECRET_CODE_LEN 0" 0 0] obtain visited where
    pos: "positions_loop actual guess 0 0 (replicate SECRET_CODE_LEN 0) =
      Inr (int (card (hits actual guess)), visited)" and len: "length visited = SECRET_CODE_LEN"
    and vis: "unmarked visited = {..<SECRET_CODE_LEN} - hits actual guess"
    by (auto simp: unmarked_zeros)
  have "unmarked visited \<inter> unmarked (replicate SECRET_CODE_LEN 0) = unmarked visited"
    by (auto simp: unmarked_zeros unmarked_def)
  then have col: "colors_loop actual guess visited (replicate SECRET_CODE_LEN 0) 0 0 =
      Inr (int (size (at_positions guess (unmarked visited) \<inter># at_positions actual (unmarked visited))))"
    using assms len by (intro colors_loop_ok) (simp_all add: at_positions_def)
  have "card (hits actual guess) = SECRET_CODE_LEN \<longleftrightarrow> hits actual guess = {..<SECRET_CODE_LEN}"
    using card_subset_eq [OF _ hits_sub] by auto
  also have "\<dots> \<longleftrightarrow> take SECRET_CODE_LEN guess = take SECRET_CODE_LEN actual"
    using assms by (auto simp: hits_def list_eq_iff_nth_eq)
  finally show ?thesis
    using pos col color_hits_split [OF assms]
    by (simp add: get_secret_code_guess_feedback_def vis)
qed

section \<open>Properties of secret codes\<close>

text \<open>On every null-terminated buffer the validity test reads no byte after the
  terminator and accepts exactly the strings of four colours.\<close>

theorem is_valid_secret_code_correct:
  assumes "NUL \<in> set buf"
  shows "is_valid_secret_code buf = Inr (c_string buf \<in> secret_codes) \<and>
    is_valid_secret_code buf = is_valid_secret_code (c_string buf @ [NUL])"
proof -
  from c_string_split [OF assms] have "NUL \<notin> set (c_string buf)" by blast
  from is_valid_secret_code_string [OF this, of "[]"] is_valid_secret_code_buffer [OF assms]
  show ?thesis by simp
qed

theorem is_valid_secret_code_correct_witness:
  "is_valid_secret_code [CHR ''A'', NUL] = Inr (c_string [CHR ''A'', NUL] \<in> secret_codes) \<and>
    is_valid_secret_code [CHR ''A'', NUL] = is_valid_secret_code (c_string [CHR ''A'', NUL] @ [NUL])"
  by (rule is_valid_secret_code_correct) simp

text \<open>Whatever numbers the random source gives, filling the buffer of five bytes stays
  inside the table of colours and the buffer, and the result is a valid secret code.\<close>

theorem get_random_secret_code_valid:
  assumes "length code = SECRET_CODE_LEN + 1"
  shows "\<exists>code'. get_random_secret_code rand code = Inr code' \<and> is_valid_secret_code code' = Inr True"
proof -
  from get_random_secret_code_ok [OF assms] obtain s where
    s: "get_random_secret_code rand code = Inr (s @ [NUL])" "s \<in> secret_codes" by blast
  then have "NUL \<notin> set s" by (auto simp: secret_codes_def SECRET_CODE_COLORS_def NUL_def)
  from is_valid_secret_code_string [OF this, of "[]"] s show ?thesis by simp
qed

theorem get_random_secret_code_valid_witness:
  "\<exists>code'. get_random_secret_code (\<lambda>i. int i * 7) (replicate 5 NUL) = Inr code' \<and>
    is_valid_secret_code code' = Inr True"
  by (rule get_random_secret_code_valid) (simp add: SECRET_CODE_LEN_def)

text \<open>C7: The feedback of a guess is the one of the rules: the first count is the number of
  positions with the right colour, the sum of both counts is the size of the intersection
  of the two multisets of colours, and the flag tells whether the guess is the secret.\<close>

theorem get_secret_code_guess_feedback_correct:
  assumes "SECRET_CODE_LEN \<le> length actual" and "SECRET_CODE_LEN \<le> length guess"
  shows "\<exists>positions colors. get_secret_code_guess_feedback actual guess =
      Inr (take SECRET_CODE_LEN guess = take SECRET_CODE_LEN actual, positions, colors) \<and>
    positions = int (card {i. i < SECRET_CODE_LEN \<and> guess ! i = actual ! i}) \<and>
    positions + colors =
      int (size (mset (take SECRET_CODE_LEN guess) \<inter># mset (take SECRET_CODE_LEN actual)))"
  using get_secret_code_guess_feedback_eq [OF assms]
  by (simp add: hits_def color_hits_def)

theorem get_secret_code_guess_feedback_correct_witness:
  "\<exists>positions colors. get_secret_code_guess_feedback ''ABCA'' ''AABB'' =
      Inr (take SECRET_CODE_LEN ''AABB'' = take SECRET_CODE_LEN ''ABCA'', positions, colors) \<and>
    positions = int (card {i. i < SECRET_CODE_LEN \<and> ''AABB'' ! i = ''ABCA'' ! i}) \<and>
    positions + colors =
      int (size (mset (take SECRET_CODE_LEN ''AABB'') \<inter># mset (take SECRET_CODE_LEN ''ABCA'')))"
  by (rule get_secret_code_guess_feedback_correct) (simp_all add: SECRET_CODE_LEN_def)

end
