(* ===== verification/Message_Helpers.thy ===== *)
theory Message_Helpers
  imports C_Library
begin

text \<open>
  Sending and receiving a message of fixed size over a socket
  (\<open>project2/message-helpers.c\<close> and \<open>.h\<close>). A connection is seen from one end: what the
  coming calls of \<open>read\<close> and \<open>write\<close> meet is a script, and the bytes that \<open>write\<close> took are
  recorded. A \<open>read\<close> may deliver less than asked for, deliver nothing at the end of the
  stream, or fail; a \<open>write\<close> may take a part only, or fail because the peer is gone or for
  another reason. Shown are that no byte is lost, duplicated or written outside the
  buffer, and when the calls succeed.
\<close>

section \<open>Connections\<close>

datatype read_ev = Chunk string | ReadErr

datatype write_ev = Wrote nat | EPipe | WriteErr

record conn =
  incoming :: "read_ev list"
  write_evs :: "write_ev list"
  delivered :: string

text \<open>
  \<open>read (fd, buf, n)\<close>: the returned number and the bytes. After the script the stream is at
  its end. What a chunk has beyond \<open>n\<close> bytes is left for the next call.
\<close>

definition sys_read :: "nat \<Rightarrow> conn \<Rightarrow> int \<times> string \<times> conn" where
  "sys_read n c =
     (case incoming c of
        [] \<Rightarrow> (0, [], c)
      | ReadErr # evs \<Rightarrow> (-1, [], c\<lparr>incoming := evs\<rparr>)
      | Chunk bs # evs \<Rightarrow>
          (int (length (take n bs)), take n bs,
           c\<lparr>incoming := (if n < length bs then Chunk (drop n bs) # evs else evs)\<rparr>))"

text \<open>
  \<open>write (fd, bytes, n)\<close>: the returned number and whether \<open>errno\<close> is \<open>EPIPE\<close>. After the
  script every byte is taken.
\<close>

definition sys_write :: "string \<Rightarrow> conn \<Rightarrow> int \<times> bool \<times> conn" where
  "sys_write bytes c =
     (case write_evs c of
        [] \<Rightarrow> (int (length bytes), False, c\<lparr>delivered := delivered c @ bytes\<rparr>)
      | Wrote k # evs \<Rightarrow>
          (int (length (take k bytes)), False,
           c\<lparr>write_evs := evs, delivered := delivered c @ take k bytes\<rparr>)
      | EPipe # evs \<Rightarrow> (-1, True, c\<lparr>write_evs := evs\<rparr>)
      | WriteErr # evs \<Rightarrow> (-1, False, c\<lparr>write_evs := evs\<rparr>))"

section \<open>Operations\<close>

definition READ_ATTEMPTS_MAX_COUNT :: nat where "READ_ATTEMPTS_MAX_COUNT = 5"
definition WRITE_ATTEMPTS_MAX_COUNT :: nat where "WRITE_ATTEMPTS_MAX_COUNT = 5"
definition READ_ERROR :: int where "READ_ERROR = -1"
definition WRITE_CONN_LOST_ERROR :: int where "WRITE_CONN_LOST_ERROR = -2"
definition WRITE_OTHER_ERROR :: int where "WRITE_OTHER_ERROR = -1"

text \<open>The loop \<open>do ... while\<close> of \<open>receive_message\<close>.\<close>

function receive_loop :: "nat \<Rightarrow> nat \<Rightarrow> nat \<Rightarrow> string \<Rightarrow> conn \<Rightarrow> (nat \<times> string \<times> conn) res" where
  "receive_loop msg_size rcvd_msg_size read_attempts_count buf c =
     (case sys_read (msg_size - rcvd_msg_size) c of (n, bytes, c') \<Rightarrow>
        res_bind (write_block buf rcvd_msg_size bytes) (\<lambda>buf'.
          let rcvd_msg_size' = (if n > 0 then rcvd_msg_size + nat n else rcvd_msg_size) in
          if rcvd_msg_size' < msg_size \<and> read_attempts_count + 1 < READ_ATTEMPTS_MAX_COUNT
          then receive_loop msg_size rcvd_msg_size' (read_attempts_count + 1) buf' c'
          else Inr (rcvd_msg_size', buf', c')))"
  by pat_completeness auto
termination
  by (relation "measure (\<lambda>(m, r, a, b, c). READ_ATTEMPTS_MAX_COUNT - a)") auto

declare receive_loop.simps [simp del]

definition receive_message :: "conn \<Rightarrow> string \<Rightarrow> nat \<Rightarrow> (int \<times> string \<times> conn) res" where
  "receive_message c buf msg_size =
     res_bind (receive_loop msg_size 0 0 buf c) (\<lambda>(rcvd_msg_size, buf', c').
       Inr (if rcvd_msg_size \<noteq> msg_size then READ_ERROR else int rcvd_msg_size, buf', c'))"

text \<open>The loop of \<open>send_message\<close>; the first result is \<open>sent_msg_size\<close>.\<close>

function send_loop :: "string \<Rightarrow> nat \<Rightarrow> nat \<Rightarrow> nat \<Rightarrow> conn \<Rightarrow> int \<times> conn" where
  "send_loop msg msg_size sent_msg_size write_attempts_count c =
     (case sys_write (take (msg_size - sent_msg_size) (drop sent_msg_size msg)) c of (n, epipe, c') \<Rightarrow>
        if n = -1 \<and> epipe then (WRITE_CONN_LOST_ERROR, c')
        else let sent_msg_size' = (if n > 0 then sent_msg_size + nat n else sent_msg_size) in
             if sent_msg_size' < msg_size \<and> write_attempts_count + 1 < WRITE_ATTEMPTS_MAX_COUNT
             then send_loop msg msg_size sent_msg_size' (write_attempts_count + 1) c'
             else (int sent_msg_size', c'))"
  by pat_completeness auto
termination
  by (relation "measure (\<lambda>(m, s, t, a, c). WRITE_ATTEMPTS_MAX_COUNT - a)") auto

declare send_loop.simps [simp del]

definition send_message :: "conn \<Rightarrow> string \<Rightarrow> nat \<Rightarrow> int \<times> conn" where
  "send_message c msg msg_size =
     (case send_loop msg msg_size 0 0 c of (sent_msg_size, c') \<Rightarrow>
        (if sent_msg_size \<noteq> int msg_size \<and> sent_msg_size \<noteq> WRITE_CONN_LOST_ERROR
         then WRITE_OTHER_ERROR else sent_msg_size, c'))"

section \<open>Receiving\<close>

text \<open>The bytes that are still to come.\<close>

fun ev_bytes :: "read_ev \<Rightarrow> string" where
  "ev_bytes (Chunk bs) = bs"
| "ev_bytes ReadErr = []"

definition pending :: "conn \<Rightarrow> string" where
  "pending c = concat (map ev_bytes (incoming c))"

lemma sys_read_spec:
  assumes "sys_read n c = (r, bytes, c')"
  shows "pending c = bytes @ pending c'" and "length bytes \<le> n"
    and "(if r > 0 then nat r else 0) = length bytes"
    and "write_evs c' = write_evs c" and "delivered c' = delivered c"
  using assms
  by (auto simp: sys_read_def pending_def split: list.splits read_ev.splits)

lemma receive_loop_spec:
  assumes "msg_size \<le> length buf" and "rcvd \<le> msg_size"
  shows "\<exists>k buf' c'. receive_loop msg_size rcvd attempts buf c = Inr (k, buf', c') \<and>
    rcvd \<le> k \<and> k \<le> msg_size \<and> length buf' = length buf \<and>
    take rcvd buf' = take rcvd buf \<and> drop k buf' = drop k buf \<and>
    pending c = drop rcvd (take k buf') @ pending c' \<and>
    write_evs c' = write_evs c \<and> delivered c' = delivered c"
  using assms
proof (induction msg_size rcvd attempts buf c rule: receive_loop.induct)
  case (1 msg_size rcvd attempts buf c)
  obtain n bytes c1 where rd: "sys_read (msg_size - rcvd) c = (n, bytes, c1)"
    using prod_cases3 by blast
  note spec = sys_read_spec [OF rd]
  let ?r = "rcvd + length bytes"
  let ?buf = "take rcvd buf @ bytes @ drop ?r buf"
  have r: "(if n > 0 then rcvd + nat n else rcvd) = ?r" using spec(3) by (simp split: if_splits)
  have le: "?r \<le> msg_size" using spec(2) "1.prems"(2) by simp
  have wr: "write_block buf rcvd bytes = Inr ?buf"
    using le "1.prems"(1) by (simp add: write_block_def)
  have len: "length ?buf = length buf" using le "1.prems" by simp
  have part: "take rcvd ?buf = take rcvd buf" "drop rcvd (take ?r ?buf) = bytes"
    "drop ?r ?buf = drop ?r buf"
    using "1.prems" by (simp_all add: drop_take)
  note step = receive_loop.simps [of msg_size rcvd attempts buf c,
    unfolded rd prod.case wr res_bind_simps r Let_def]
  show ?case
  proof (cases "?r < msg_size \<and> attempts + 1 < READ_ATTEMPTS_MAX_COUNT")
    case False
    have "receive_loop msg_size rcvd attempts buf c = Inr (?r, ?buf, c1)"
      unfolding step if_not_P [OF False] ..
    with le len part spec show ?thesis by auto
  next
    case True
    from "1.IH" [OF rd [symmetric] refl wr r [symmetric] True] le len "1.prems"
    obtain k buf' c' where
      IH: "receive_loop msg_size ?r (attempts + 1) ?buf c1 = Inr (k, buf', c')"
      and k: "?r \<le> k" "k \<le> msg_size" and len': "length buf' = length buf"
      and t: "take ?r buf' = take ?r ?buf" and d: "drop k buf' = drop k ?buf"
      and p: "pending c1 = drop ?r (take k buf') @ pending c'"
      and w: "write_evs c' = write_evs c1" "delivered c' = delivered c1"
      by auto
    have eq: "receive_loop msg_size rcvd attempts buf c = Inr (k, buf', c')"
      unfolding step if_P [OF True] by (rule IH)
    have t': "take rcvd buf' = take rcvd buf"
      using arg_cong [OF t, of "take rcvd"] part(1) by simp
    have "drop k ?buf = drop (k - ?r) (drop ?r ?buf)" using k(1) by simp
    also have "\<dots> = drop k buf" unfolding part(3) using k(1) by simp
    finally have d': "drop k buf' = drop k buf" using d by simp
    have "take k buf' = take ?r buf' @ drop ?r (take k buf')"
      using k(1) by (metis append_take_drop_id min.absorb1 take_take)
    then have "drop rcvd (take k buf') = drop rcvd (take ?r ?buf) @ drop ?r (take k buf')"
      unfolding t using "1.prems" le by (metis drop_append drop_0 diff_is_0_eq len length_take
          min.absorb2 le_add1 order_trans)
    then have "pending c = drop rcvd (take k buf') @ pending c'"
      using spec(1) p part(2) by simp
    with eq k len' t' d' w spec(4,5) show ?thesis by auto
  qed
qed

lemma receive_message_spec:
  assumes "msg_size \<le> length buf"
  obtains k buf' c' where "receive_message c buf msg_size =
      Inr (if k = msg_size then int msg_size else READ_ERROR, buf', c')"
    and "k \<le> msg_size" and "length buf' = length buf" and "drop k buf' = drop k buf"
    and "pending c = take k buf' @ pending c'"
    and "write_evs c' = write_evs c" and "delivered c' = delivered c"
proof -
  from receive_loop_spec [OF assms, of 0 0 c] obtain k buf' c' where
    "receive_loop msg_size 0 0 buf c = Inr (k, buf', c')" and "k \<le> msg_size"
    and "length buf' = length buf" and "drop k buf' = drop k buf"
    and "pending c = take k buf' @ pending c'"
    and "write_evs c' = write_evs c" "delivered c' = delivered c"
    by auto
  then show thesis
    by (intro that [of k buf' c']) (auto simp: receive_message_def)
qed

text \<open>A message that arrives in at most five parts is received.\<close>

lemma receive_loop_chunks:
  assumes "\<forall>b \<in> set bs. b \<noteq> []" and "length (concat bs) = msg_size - rcvd" and "rcvd < msg_size"
    and "attempts + length bs \<le> READ_ATTEMPTS_MAX_COUNT" and "msg_size \<le> length buf"
    and "incoming c = map Chunk bs @ evs"
  shows "receive_loop msg_size rcvd attempts buf c =
    Inr (msg_size, take rcvd buf @ concat bs @ drop msg_size buf, c\<lparr>incoming := evs\<rparr>)"
  using assms
proof (induction bs arbitrary: rcvd attempts buf c)
  case Nil
  then show ?case by simp
next
  case (Cons b bs)
  have b: "length b \<le> msg_size - rcvd" "b \<noteq> []" using Cons.prems(1,2) by auto
  have rd: "sys_read (msg_size - rcvd) c = (int (length b), b, c\<lparr>incoming := map Chunk bs @ evs\<rparr>)"
    using Cons.prems(6) b(1) by (simp add: sys_read_def)
  let ?r = "rcvd + length b"
  let ?buf = "take rcvd buf @ b @ drop ?r buf"
  let ?c = "c\<lparr>incoming := map Chunk bs @ evs\<rparr>"
  have wr: "write_block buf rcvd b = Inr ?buf"
    using b Cons.prems by (simp add: write_block_def)
  have step: "receive_loop msg_size rcvd attempts buf c =
      (if ?r < msg_size \<and> attempts + 1 < READ_ATTEMPTS_MAX_COUNT
       then receive_loop msg_size ?r (attempts + 1) ?buf ?c else Inr (?r, ?buf, ?c))"
    using b(2) by (subst receive_loop.simps) (simp add: rd wr Let_def del: append_assoc)
  show ?case
  proof (cases bs)
    case Nil
    then have "?r = msg_size" using Cons.prems(2,3) by simp
    with Nil show ?thesis by (simp add: step)
  next
    case (Cons b' bs')
    with Cons.prems(1) have "0 < length b'" by simp
    with Cons.prems Cons have lt: "?r < msg_size" "attempts + 1 < READ_ATTEMPTS_MAX_COUNT"
      by (auto simp del: length_greater_0_conv)
    have "receive_loop msg_size ?r (attempts + 1) ?buf ?c =
      Inr (msg_size, take ?r ?buf @ concat bs @ drop msg_size ?buf, ?c\<lparr>incoming := evs\<rparr>)"
      using Cons.prems lt b by (intro Cons.IH) auto
    moreover have "take ?r ?buf = take rcvd buf @ b" and "drop msg_size ?buf = drop msg_size buf"
      using Cons.prems lt by (auto simp: min_def)
    ultimately show ?thesis using lt by (simp add: step)
  qed
qed

lemma receive_message_chunks:
  assumes "\<forall>b \<in> set bs. b \<noteq> []" and "length bs \<le> READ_ATTEMPTS_MAX_COUNT"
    and "concat bs = msg" and "msg \<noteq> []" and "length buf = length msg"
    and "incoming c = map Chunk bs @ evs"
  shows "receive_message c buf (length msg) = Inr (int (length msg), msg, c\<lparr>incoming := evs\<rparr>)"
  using receive_loop_chunks [of bs "length msg" 0 0 buf c evs] assms
  by (simp add: receive_message_def)

section \<open>Sending\<close>

lemma sys_write_spec:
  assumes "sys_write bytes c = (n, epipe, c')"
  shows "delivered c' = delivered c @ take (if n > 0 then nat n else 0) bytes"
    and "(if n > 0 then nat n else 0) \<le> length bytes" and "incoming c' = incoming c"
    and "n = -1 \<Longrightarrow> epipe \<Longrightarrow> EPipe \<in> set (write_evs c)"
    and "set (write_evs c') \<subseteq> set (write_evs c)"
  using assms
  by (auto simp: sys_write_def min_def split: list.splits write_ev.splits if_splits)

lemma send_loop_spec:
  assumes "length msg = msg_size" and "sent \<le> msg_size"
  shows "\<exists>r k c'. send_loop msg msg_size sent attempts c = (r, c') \<and> sent \<le> k \<and> k \<le> msg_size \<and>
    delivered c' = delivered c @ drop sent (take k msg) \<and> incoming c' = incoming c \<and>
    (r = int k \<or> r = WRITE_CONN_LOST_ERROR \<and> EPipe \<in> set (write_evs c))"
  using assms
proof (induction msg msg_size sent attempts c rule: send_loop.induct)
  case (1 msg msg_size sent attempts c)
  let ?bytes = "drop sent msg"
  have bytes: "take (msg_size - sent) ?bytes = ?bytes" using "1.prems" by simp
  obtain n epipe c1 where wr: "sys_write ?bytes c = (n, epipe, c1)"
    using prod_cases3 by blast
  note spec = sys_write_spec [OF wr]
  let ?k = "if n > 0 then nat n else 0"
  let ?s = "sent + ?k"
  have s: "(if n > 0 then sent + nat n else sent) = ?s" by simp
  have le: "?s \<le> msg_size" using spec(2) "1.prems" by auto
  have del: "delivered c1 = delivered c @ drop sent (take ?s msg)"
    using spec(1) by (simp add: drop_take)
  note step = send_loop.simps [of msg msg_size sent attempts c, unfolded bytes wr prod.case s Let_def]
  show ?case
  proof (cases "n = -1 \<and> epipe")
    case True
    with step spec show ?thesis using "1.prems"(2) by (auto intro!: exI [of _ sent])
  next
    case ok: False
    show ?thesis
    proof (cases "?s < msg_size \<and> attempts + 1 < WRITE_ATTEMPTS_MAX_COUNT")
      case False
      have "send_loop msg msg_size sent attempts c = (int ?s, c1)"
        unfolding step if_not_P [OF ok] if_not_P [OF False] ..
      with le del spec(3) show ?thesis by (intro exI [of _ "int ?s"] exI [of _ ?s] exI [of _ c1]) auto
    next
      case True
      have eq: "send_loop msg msg_size sent attempts c = send_loop msg msg_size ?s (attempts + 1) c1"
        unfolding step if_not_P [OF ok] if_P [OF True] ..
      from "1.IH" [OF _ _ ok s [symmetric] True] wr bytes le "1.prems"(1) obtain r k c' where
        IH: "send_loop msg msg_size ?s (attempts + 1) c1 = (r, c')" and k: "?s \<le> k" "k \<le> msg_size"
        and d: "delivered c' = delivered c1 @ drop ?s (take k msg)" and i: "incoming c' = incoming c1"
        and r: "r = int k \<or> r = WRITE_CONN_LOST_ERROR \<and> EPipe \<in> set (write_evs c1)"
        by (metis (no_types, lifting))
      have "drop sent (take k msg) = drop sent (take ?s msg) @ drop ?s (take k msg)"
      proof -
        have "take k msg = take ?s msg @ drop ?s (take k msg)"
          using k(1) by (metis append_take_drop_id min.absorb1 take_take)
        then have "drop sent (take k msg) = drop sent (take ?s msg @ drop ?s (take k msg))" by simp
        also have "\<dots> = drop sent (take ?s msg) @ drop ?s (take k msg)"
          using le "1.prems"(1) by (simp add: min_def)
        finally show ?thesis .
      qed
      with eq IH k d i r del spec(3,5) show ?thesis
        by (intro exI [of _ r] exI [of _ k] exI [of _ c']) auto
    qed
  qed
qed

lemma send_message_spec:
  assumes "length msg = msg_size"
  obtains k r c' where "send_message c msg msg_size = (r, c')" and "k \<le> msg_size"
    and "delivered c' = delivered c @ take k msg" and "incoming c' = incoming c"
    and "r = int msg_size \<and> k = msg_size \<or> r = WRITE_OTHER_ERROR \<and> k < msg_size
      \<or> r = WRITE_CONN_LOST_ERROR \<and> EPipe \<in> set (write_evs c)"
proof -
  from send_loop_spec [OF assms, of 0 0 c] obtain r k c' where
    loop: "send_loop msg msg_size 0 0 c = (r, c')" and k: "k \<le> msg_size"
    and d: "delivered c' = delivered c @ take k msg" "incoming c' = incoming c"
    and r: "r = int k \<or> r = WRITE_CONN_LOST_ERROR \<and> EPipe \<in> set (write_evs c)"
    by auto
  from r show thesis
  proof
    assume "r = int k"
    then have "send_message c msg msg_size = (if k = msg_size then int msg_size else WRITE_OTHER_ERROR, c')"
      by (simp add: send_message_def loop WRITE_CONN_LOST_ERROR_def)
    then show thesis using k d by (rule that) (use k in auto)
  next
    assume lost: "r = WRITE_CONN_LOST_ERROR \<and> EPipe \<in> set (write_evs c)"
    then have "send_message c msg msg_size = (WRITE_CONN_LOST_ERROR, c')"
      by (simp add: send_message_def loop)
    then show thesis using k d by (rule that) (use lost in simp)
  qed
qed

text \<open>Over a connection that takes every byte the message is sent.\<close>

lemma send_message_clean:
  assumes "write_evs c = []" and "length msg = msg_size"
  shows "send_message c msg msg_size = (int msg_size, c\<lparr>delivered := delivered c @ msg\<rparr>)"
  using assms
  by (simp add: send_message_def send_loop.simps [of msg msg_size 0 0 c] sys_write_def)

section \<open>Properties of message passing\<close>

definition demo_conn :: conn where
  "demo_conn = \<lparr>incoming = [Chunk ''he'', ReadErr, Chunk ''llo world''],
     write_evs = [Wrote 2, WriteErr], delivered = ''''\<rparr>"

text \<open>C32: Whatever the reads deliver, receiving writes inside the buffer only: the bytes taken
  from the connection are, in order, the first bytes of the buffer, the rest of it is
  unchanged, and the result is the message size exactly when the message is complete and
  the read error otherwise.\<close>

theorem receive_message_correct:
  assumes "msg_size \<le> length buf"
  shows "\<exists>k buf' c'. receive_message c buf msg_size =
      Inr (if k = msg_size then int msg_size else READ_ERROR, buf', c') \<and>
    k \<le> msg_size \<and> length buf' = length buf \<and> drop k buf' = drop k buf \<and>
    pending c = take k buf' @ pending c'"
  using receive_message_spec [OF assms, of c] by metis

theorem receive_message_correct_witness:
  "\<exists>k buf' c'. receive_message demo_conn ''xxxxxx'' 5 =
      Inr (if k = 5 then int 5 else READ_ERROR, buf', c') \<and>
    k \<le> 5 \<and> length buf' = length ''xxxxxx'' \<and> drop k buf' = drop k ''xxxxxx'' \<and>
    pending demo_conn = take k buf' @ pending c'"
  by (rule receive_message_correct) simp

text \<open>Whatever the writes take, sending delivers a prefix of the message and nothing else;
  the result is the message size exactly when the peer has all of it or else one of the two
  errors, the lost connection being reported only when a write met it.\<close>

theorem send_message_correct:
  assumes "length msg = msg_size"
  shows "\<exists>k r c'. send_message c msg msg_size = (r, c') \<and> k \<le> msg_size \<and>
    delivered c' = delivered c @ take k msg \<and>
    (r = int msg_size \<and> k = msg_size \<or> r = WRITE_OTHER_ERROR \<and> k < msg_size
      \<or> r = WRITE_CONN_LOST_ERROR \<and> EPipe \<in> set (write_evs c))"
  using send_message_spec [OF assms, of c] by metis

theorem send_message_correct_witness:
  "\<exists>k r c'. send_message demo_conn ''hello'' 5 = (r, c') \<and> k \<le> 5 \<and>
    delivered c' = delivered demo_conn @ take k ''hello'' \<and>
    (r = int 5 \<and> k = 5 \<or> r = WRITE_OTHER_ERROR \<and> k < 5
      \<or> r = WRITE_CONN_LOST_ERROR \<and> EPipe \<in> set (write_evs demo_conn))"
  by (rule send_message_correct) simp

text \<open>A message sent over a connection that takes every byte is received unchanged at the
  other end when it arrives in at most five parts.\<close>

theorem send_receive_roundtrip:
  assumes "write_evs c = []" and "delivered c = []" and "msg \<noteq> []"
    and "concat parts = delivered (snd (send_message c msg (length msg)))"
    and "\<forall>part \<in> set parts. part \<noteq> []" and "length parts \<le> READ_ATTEMPTS_MAX_COUNT"
    and "length buf = length msg" and "incoming d = map Chunk parts @ evs"
  shows "fst (send_message c msg (length msg)) = int (length msg) \<and>
    receive_message d buf (length msg) = Inr (int (length msg), msg, d\<lparr>incoming := evs\<rparr>)"
proof -
  have send: "send_message c msg (length msg) = (int (length msg), c\<lparr>delivered := delivered c @ msg\<rparr>)"
    using assms(1) by (rule send_message_clean) simp
  with assms(2,4) have "concat parts = msg" by simp
  from receive_message_chunks [OF assms(5,6) this assms(3,7,8)] send show ?thesis by simp
qed

theorem send_receive_roundtrip_witness:
  "receive_message \<lparr>incoming = map Chunk [''he'', ''llo''] @ [], write_evs = [], delivered = ''''\<rparr> ''.....'' (length ''hello'') =
     Inr (5, ''hello'', \<lparr>incoming = [], write_evs = [], delivered = ''''\<rparr>)"
proof -
  let ?c = "\<lparr>incoming = [], write_evs = [], delivered = ''''\<rparr>"
  let ?d = "\<lparr>incoming = map Chunk [''he'', ''llo''] @ [], write_evs = [], delivered = ''''\<rparr>"
  have sent: "snd (send_message ?c ''hello'' (length ''hello'')) = ?c\<lparr>delivered := ''hello''\<rparr>"
    by (subst send_message_clean) simp_all
  have "fst (send_message ?c ''hello'' (length ''hello'')) = int (length ''hello'') \<and>
    receive_message ?d ''.....'' (length ''hello'') = Inr (int (length ''hello''), ''hello'', ?d\<lparr>incoming := []\<rparr>)"
    by (rule send_receive_roundtrip [where parts = "[''he'', ''llo'']"]) (simp_all add: sent [simplified] READ_ATTEMPTS_MAX_COUNT_def)
  then show ?thesis by simp
qed

end
