(* ===== verification/Game_Server.thy ===== *)
theory Game_Server
  imports Secret_Code Message_Helpers
begin

text \<open>
  The game that a server thread plays with its client (\<open>send_gp_message\<close>,
  \<open>receive_raw_message\<close>, \<open>pthread_routine\<close> and the counters of \<open>project2/server.c\<close>, and
  \<open>game-protocol.h\<close>). The state holds the connection, the thread's buffer, the counters
  and the log; a step of the thread gives the next state, or the state in which it called
  \<open>pthread_exit\<close>. The loop that waits for a valid guess need not end, so it is a partial
  function: \<open>None\<close> is a thread that never returns. Time stamps, addresses and descriptors
  in the log, and the mutexes around it, are left out.
\<close>

section \<open>Data\<close>

definition GP_SIZE :: nat where "GP_SIZE = 192"
definition GP_HEADER_SIZE :: nat where "GP_HEADER_SIZE = 7"
definition GP_PAYLOAD_SIZE :: nat where "GP_PAYLOAD_SIZE = GP_SIZE - GP_HEADER_SIZE"
definition GP_SERV_FULL :: string where "GP_SERV_FULL = ''SERVFUL''"
definition GP_DISP_MSG :: string where "GP_DISP_MSG = ''DISPMSG''"
definition GP_GUESS_REQ :: string where "GP_GUESS_REQ = ''REQUEST''"
definition GP_GUESS_FBK :: string where "GP_GUESS_FBK = ''FEEDBAC''"
definition GP_GUESS_INV :: string where "GP_GUESS_INV = ''INVALID''"
definition GP_GAME_SUCC :: string where "GP_GAME_SUCC = ''SUCCESS''"
definition GP_GAME_FAIL :: string where "GP_GAME_FAIL = ''FAILURE''"

definition MAX_GUESSES_COUNT :: nat where "MAX_GUESSES_COUNT = 10"

datatype log_line =
    Client_connected
  | Servers_secret string
  | Clients_guess string
  | Servers_hint int int
  | Success_game_over
  | Failure_game_over
  | Client_disconnected
  | Connection_unexpectedly_closed
  | Failed_to_send
  | Failed_to_receive
  | Server_full
  | Failed_to_create_thread

record game_state =
  gs_conn :: conn
  gs_buffer :: string
  gs_log :: "log_line list"
  gs_now :: int
  gs_count :: int
  gs_win :: int
  gs_closed :: bool

text \<open>What a thread does after a call: it goes on, or it has called \<open>pthread_exit\<close>.\<close>

datatype thread_ctl = Running game_state | Exited game_state

section \<open>Operations\<close>

definition increment_clients_now_count :: "game_state \<Rightarrow> game_state" where
  "increment_clients_now_count s = s\<lparr>gs_now := gs_now s + 1\<rparr>"

definition decrement_clients_now_count :: "game_state \<Rightarrow> game_state" where
  "decrement_clients_now_count s = s\<lparr>gs_now := gs_now s - 1\<rparr>"

definition increment_clients_count :: "game_state \<Rightarrow> game_state" where
  "increment_clients_count s = s\<lparr>gs_count := gs_count s + 1\<rparr>"

definition increment_clients_win_count :: "game_state \<Rightarrow> game_state" where
  "increment_clients_win_count s = s\<lparr>gs_win := gs_win s + 1\<rparr>"

definition log_lines :: "log_line list \<Rightarrow> game_state \<Rightarrow> game_state" where
  "log_lines ls s = s\<lparr>gs_log := gs_log s @ ls\<rparr>"

definition close_socket :: "game_state \<Rightarrow> game_state" where
  "close_socket s = s\<lparr>gs_closed := True\<rparr>"

definition message_text :: "string \<Rightarrow> string option \<Rightarrow> string" where
  "message_text msg_type msg_payload =
     (case msg_payload of
        None \<Rightarrow> msg_type
      | Some payload \<Rightarrow>
          (if msg_type \<noteq> GP_DISP_MSG \<and> msg_type \<noteq> GP_GUESS_FBK then msg_type
           else msg_type @ payload))"

definition send_gp_message :: "game_state \<Rightarrow> string \<Rightarrow> string option \<Rightarrow> thread_ctl res" where
  "send_gp_message s msg_type msg_payload =
     res_bind (write_block (replicate GP_SIZE NUL) 0 (message_text msg_type msg_payload @ [NUL])) (\<lambda>buf.
       case send_message (gs_conn s) buf GP_SIZE of (sent_msg_size, c) \<Rightarrow>
         let s' = s\<lparr>gs_buffer := buf, gs_conn := c\<rparr> in
         if sent_msg_size = WRITE_CONN_LOST_ERROR
         then Inr (Exited (decrement_clients_now_count (close_socket
                (log_lines [Connection_unexpectedly_closed] s'))))
         else if sent_msg_size = WRITE_OTHER_ERROR
         then Inr (Exited (decrement_clients_now_count (log_lines [Client_disconnected]
                (close_socket (log_lines [Failed_to_send] s')))))
         else Inr (Running s'))"

definition receive_raw_message :: "game_state \<Rightarrow> thread_ctl res" where
  "receive_raw_message s =
     res_bind (receive_message (gs_conn s) (replicate GP_SIZE NUL) GP_SIZE) (\<lambda>(received_msg_size, buf, c).
       let s' = s\<lparr>gs_buffer := buf, gs_conn := c\<rparr> in
       if received_msg_size = READ_ERROR
       then Inr (Exited (decrement_clients_now_count (log_lines [Client_disconnected]
              (close_socket (log_lines [Failed_to_receive] s')))))
       else Inr (Running s'))"

text \<open>Going on after a call unless the thread has exited.\<close>

definition ctl_bind :: "thread_ctl res \<Rightarrow> (game_state \<Rightarrow> thread_ctl res) \<Rightarrow> thread_ctl res" where
  "ctl_bind m f =
     res_bind m (\<lambda>ctl. case ctl of Running s \<Rightarrow> f s | Exited s \<Rightarrow> Inr (Exited s))"

definition ctl_bind_opt ::
  "thread_ctl res \<Rightarrow> (game_state \<Rightarrow> thread_ctl res option) \<Rightarrow> thread_ctl res option" where
  "ctl_bind_opt m f =
     (case m of
        Inl e \<Rightarrow> Some (Inl e)
      | Inr (Exited s) \<Rightarrow> Some (Inr (Exited s))
      | Inr (Running s) \<Rightarrow> f s)"

text \<open>One round of the loop that waits for a valid guess, and the loop.\<close>

datatype guess_ctl = Valid game_state | Invalid game_state | Gone game_state

definition guess_round :: "game_state \<Rightarrow> guess_ctl res" where
  "guess_round s =
     res_bind (receive_message (gs_conn s) (gs_buffer s) GP_SIZE) (\<lambda>(r, buf, c).
       let s' = s\<lparr>gs_buffer := buf, gs_conn := c\<rparr> in
       res_bind (is_valid_secret_code buf) (\<lambda>valid.
         if valid then Inr (Valid s')
         else res_bind (send_gp_message s' GP_GUESS_INV None) (\<lambda>ctl.
                case ctl of Running s'' \<Rightarrow> Inr (Invalid s'') | Exited s'' \<Rightarrow> Inr (Gone s''))))"

partial_function (option) read_guess :: "game_state \<Rightarrow> thread_ctl res option" where
  "read_guess s =
     (case guess_round s of
        Inl e \<Rightarrow> Some (Inl e)
      | Inr g \<Rightarrow>
          (case g of
             Valid s' \<Rightarrow> Some (Inr (Running s'))
           | Invalid s' \<Rightarrow> read_guess s'
           | Gone s' \<Rightarrow> Some (Inr (Exited s'))))"

definition feedback_message :: "nat \<Rightarrow> int \<Rightarrow> int \<Rightarrow> string" where
  "feedback_message guess_no positions colors =
     ''Guess: '' @ show_int (int guess_no) @ '', Correct positions: '' @ show_int positions @
     '', Correct colours: '' @ show_int colors @ ''.'' @ [newline]"

text \<open>What a round does with a valid guess; the new count of correct positions is returned too.\<close>

definition answer_guess :: "string \<Rightarrow> nat \<Rightarrow> game_state \<Rightarrow> (int \<times> thread_ctl) res" where
  "answer_guess secret_code guesses_count s =
     res_bind (get_secret_code_guess_feedback secret_code (gs_buffer s)) (\<lambda>(r, positions, colors).
       let s' = log_lines [Clients_guess (c_string (gs_buffer s)), Servers_hint positions colors] s;
           msg = feedback_message (guesses_count + 1) positions colors
       in res_bind (write_block (replicate GP_PAYLOAD_SIZE NUL) 0 (msg @ [NUL])) (\<lambda>feedback_message.
          res_bind (send_gp_message s' GP_GUESS_FBK (Some (c_string feedback_message))) (\<lambda>ctl.
            Inr (positions, ctl))))"

definition end_game :: "int \<Rightarrow> game_state \<Rightarrow> thread_ctl res" where
  "end_game correct_positions_count s =
     ctl_bind
       (if correct_positions_count = int SECRET_CODE_LEN
        then send_gp_message (log_lines [Success_game_over] (increment_clients_win_count s)) GP_GAME_SUCC None
        else send_gp_message (log_lines [Failure_game_over] s) GP_GAME_FAIL None)
       (\<lambda>s'. Inr (Running (decrement_clients_now_count (log_lines [Client_disconnected] (close_socket s')))))"

function game_loop :: "string \<Rightarrow> nat \<Rightarrow> int \<Rightarrow> game_state \<Rightarrow> thread_ctl res option" where
  "game_loop secret_code guesses_count correct_positions_count s =
     (if guesses_count < MAX_GUESSES_COUNT \<and> correct_positions_count < int SECRET_CODE_LEN
      then ctl_bind_opt (send_gp_message s GP_GUESS_REQ None) (\<lambda>s1.
             case read_guess s1 of
               None \<Rightarrow> None
             | Some r \<Rightarrow> ctl_bind_opt r (\<lambda>s2.
                 case answer_guess secret_code guesses_count s2 of
                   Inl e \<Rightarrow> Some (Inl e)
                 | Inr (positions, ctl) \<Rightarrow> ctl_bind_opt (Inr ctl) (\<lambda>s3.
                     game_loop secret_code (guesses_count + 1) positions s3)))
      else Some (end_game correct_positions_count s))"
  by pat_completeness auto
termination
  by (relation "measure (\<lambda>(code, n, p, s). MAX_GUESSES_COUNT - n)") auto

declare game_loop.simps [simp del]

definition WELCOME_MESSAGE :: string where
  "WELCOME_MESSAGE = [newline] @ ''Welcome to online Mastermind game.'' @ [newline, newline]"

definition INSTRUCTIONS_1_MESSAGE :: string where
  "INSTRUCTIONS_1_MESSAGE =
     ''Instructions: Win the game by correctly guessing the secret code within ten'' @ [newline] @
     ''guesses. The code consists of four uppercase characters A, B, C, D, E and F.'' @ [newline]"

definition INSTRUCTIONS_2_MESSAGE :: string where
  "INSTRUCTIONS_2_MESSAGE =
     ''Enter the guess when prompted with '' @ [CHR 0x22] @ ''>'' @ [CHR 0x22] @
     ''. Do not include any spaces, lowercase'' @ [newline] @
     ''letters or any other characters.'' @ [newline, newline]"

text \<open>\<open>strncpy (dst, src, n)\<close>: at most \<open>n\<close> characters, filled up with null bytes.\<close>

definition strncpy :: "nat \<Rightarrow> string \<Rightarrow> string" where
  "strncpy n src = take n (c_string src @ replicate n NUL)"

definition choose_secret :: "(nat \<Rightarrow> int) \<Rightarrow> string \<Rightarrow> string res" where
  "choose_secret rand secret_code =
     res_bind (is_valid_secret_code secret_code) (\<lambda>valid.
       if \<not> valid then get_random_secret_code rand secret_code else Inr secret_code)"

definition pthread_routine ::
  "(nat \<Rightarrow> int) \<Rightarrow> string \<Rightarrow> game_state \<Rightarrow> thread_ctl res option" where
  "pthread_routine rand param_secret_code s =
     (let s1 = increment_clients_count (increment_clients_now_count (log_lines [Client_connected] s)) in
      case choose_secret rand (strncpy (SECRET_CODE_LEN + 1) param_secret_code) of
        Inl e \<Rightarrow> Some (Inl e)
      | Inr secret_code \<Rightarrow>
          let s2 = log_lines [Servers_secret (c_string secret_code)] s1 in
          ctl_bind_opt (send_gp_message s2 GP_DISP_MSG (Some WELCOME_MESSAGE)) (\<lambda>s3.
          ctl_bind_opt (send_gp_message s3 GP_DISP_MSG (Some INSTRUCTIONS_1_MESSAGE)) (\<lambda>s4.
          ctl_bind_opt (send_gp_message s4 GP_DISP_MSG (Some INSTRUCTIONS_2_MESSAGE)) (\<lambda>s5.
            game_loop secret_code 0 0 s5))))"

end
