(* ===== verification/Game_Play.thy ===== *)
theory Game_Play
  imports Game_Server
begin

text \<open>
  What a server thread does, whatever its connection does: no access outside a buffer, the
  counters are balanced on every way out, and the wins counted are the wins logged. Over a
  connection that delivers the client's messages the thread plays the game of the
  reference \<open>ref_play\<close>; over one whose peer sends nothing but takes every message it never
  returns.
\<close>

section \<open>Messages\<close>

definition gp_msg :: "string \<Rightarrow> string" where
  "gp_msg text = text @ replicate (GP_SIZE - length text) NUL"

lemma length_gp_msg: "length text \<le> GP_SIZE \<Longrightarrow> length (gp_msg text) = GP_SIZE"
  by (simp add: gp_msg_def)

lemma compose_message:
  assumes "length text < n"
  shows "write_block (replicate n NUL) 0 (text @ [NUL]) = Inr (text @ replicate (n - length text) NUL)"
proof -
  obtain k where "n - length text = Suc k" using assms by (cases "n - length text") auto
  with assms show ?thesis by (simp add: write_block_def)
qed

lemma c_string_padded: "NUL \<notin> set str \<Longrightarrow> c_string (str @ replicate n NUL) = str"
  by (induction str) (auto simp: c_string_def takeWhile_replicate)

lemma gp_texts_fit:
  "length GP_GUESS_REQ < GP_SIZE" "length GP_GUESS_INV < GP_SIZE"
  "length GP_GAME_SUCC < GP_SIZE" "length GP_GAME_FAIL < GP_SIZE"
  "length (GP_DISP_MSG @ WELCOME_MESSAGE) < GP_SIZE"
  "length (GP_DISP_MSG @ INSTRUCTIONS_1_MESSAGE) < GP_SIZE"
  "length (GP_DISP_MSG @ INSTRUCTIONS_2_MESSAGE) < GP_SIZE"
  by (simp_all add: GP_SIZE_def GP_GUESS_REQ_def GP_GUESS_INV_def GP_GAME_SUCC_def GP_GAME_FAIL_def
      GP_DISP_MSG_def WELCOME_MESSAGE_def INSTRUCTIONS_1_MESSAGE_def INSTRUCTIONS_2_MESSAGE_def)

lemma message_text_simps [simp]:
  "message_text ty None = ty"
  "message_text GP_DISP_MSG (Some p) = GP_DISP_MSG @ p"
  "message_text GP_GUESS_FBK (Some p) = GP_GUESS_FBK @ p"
  by (simp_all add: message_text_def)

lemma feedback_message_fits:
  assumes "n \<le> 10" and "0 \<le> p" and "p \<le> 4" and "0 \<le> c" and "c \<le> 4"
  shows "length (feedback_message n p c) < GP_PAYLOAD_SIZE"
    and "length (GP_GUESS_FBK @ feedback_message n p c) < GP_SIZE"
    and "NUL \<notin> set (feedback_message n p c)"
proof -
  have r: "int_range (int n)" "int_range p" "int_range c"
    using assms by (auto intro!: int_rangeI simp: INT_MAX_def)
  have len: "length (feedback_message n p c) \<le> 85"
    using r [THEN length_show_int] by (simp add: feedback_message_def)
  then show "length (feedback_message n p c) < GP_PAYLOAD_SIZE"
    and "length (GP_GUESS_FBK @ feedback_message n p c) < GP_SIZE"
    by (simp_all add: GP_PAYLOAD_SIZE_def GP_SIZE_def GP_HEADER_SIZE_def GP_GUESS_FBK_def)
  have "NUL \<notin> set (show_int x)" for x
    using show_int_chars [of NUL x] isdigit_not_separator [of NUL] by blast
  then show "NUL \<notin> set (feedback_message n p c)"
    by (simp add: feedback_message_def NUL_def newline_def)
qed

section \<open>Validity of a guess in the buffer\<close>

lemma valid_loop_append:
  "SECRET_CODE_LEN < length buf \<Longrightarrow> valid_loop (buf @ xs) i = valid_loop buf i"
proof (induction "SECRET_CODE_LEN - i" arbitrary: i)
  case 0
  then show ?case by (simp add: valid_loop.simps)
next
  case (Suc n)
  then have "i < SECRET_CODE_LEN" and "n = SECRET_CODE_LEN - (i + 1)" by simp_all
  with Suc show ?case
    by (subst (1 2) valid_loop.simps) (simp add: nth_append)
qed

lemma is_valid_secret_code_long:
  assumes "SECRET_CODE_LEN < length buf"
  shows "is_valid_secret_code buf = Inr (c_string buf \<in> secret_codes)"
proof -
  have "read_at (buf @ [NUL]) SECRET_CODE_LEN = read_at buf SECRET_CODE_LEN"
    using assms by (simp add: read_at_def nth_append)
  then have "is_valid_secret_code buf = is_valid_secret_code (buf @ [NUL])"
    unfolding is_valid_secret_code_def valid_loop_append [OF assms] by (simp only:)
  also have "\<dots> = Inr (c_string (buf @ [NUL]) \<in> secret_codes)"
    by (simp add: is_valid_secret_code_buffer)
  also have "c_string (buf @ [NUL]) = c_string buf"
    by (simp add: c_string_def takeWhile_tail)
  finally show ?thesis .
qed

lemma secret_codes_length: "s \<in> secret_codes \<Longrightarrow> length s = SECRET_CODE_LEN"
  by (simp add: secret_codes_def)

lemma secret_codes_no_NUL: "s \<in> secret_codes \<Longrightarrow> NUL \<notin> set s"
  by (auto simp: secret_codes_def SECRET_CODE_COLORS_def NUL_def)

lemma take_c_string:
  assumes "c_string buf \<in> secret_codes"
  shows "take SECRET_CODE_LEN buf = c_string buf"
  using assms
  by (metis append_eq_conv_conj c_string_def secret_codes_length takeWhile_dropWhile_id)

section \<open>Every outcome\<close>

text \<open>What a thread that goes on leaves unchanged, and what one that exits has done.\<close>

definition wins_logged :: "game_state \<Rightarrow> int" where
  "wins_logged s = int (length (filter (\<lambda>l. l = Success_game_over) (gs_log s)))"

definition frame :: "game_state \<Rightarrow> game_state \<Rightarrow> bool" where
  "frame s s' \<longleftrightarrow> gs_now s' = gs_now s \<and> gs_count s' = gs_count s \<and>
     gs_win s' = gs_win s \<and> wins_logged s' = wins_logged s \<and> length (gs_buffer s') = GP_SIZE"

definition gone :: "game_state \<Rightarrow> game_state \<Rightarrow> bool" where
  "gone s s' \<longleftrightarrow> gs_now s' = gs_now s - 1 \<and> gs_count s' = gs_count s \<and>
     gs_win s' - wins_logged s' = gs_win s - wins_logged s \<and> gs_win s \<le> gs_win s' \<and> gs_win s' \<le> gs_win s + 1 \<and> gs_closed s'"

lemma frame_trans: "frame s t \<Longrightarrow> frame t u \<Longrightarrow> frame s u"
  by (auto simp: frame_def)

lemma frame_gone: "frame s t \<Longrightarrow> gone t u \<Longrightarrow> gone s u"
  by (auto simp: frame_def gone_def)

lemmas game_updates = decrement_clients_now_count_def increment_clients_now_count_def
  increment_clients_count_def increment_clients_win_count_def log_lines_def close_socket_def
  wins_logged_def

lemma send_gp_message_cases:
  assumes "length (message_text ty p) < GP_SIZE"
  obtains (sent) s' where "send_gp_message s ty p = Inr (Running s')" and "frame s s'"
  | (lost) s' where "send_gp_message s ty p = Inr (Exited s')" and "gone s s'" and "gs_win s' = gs_win s"
proof -
  let ?buf = "gp_msg (message_text ty p)"
  have buf: "write_block (replicate GP_SIZE NUL) 0 (message_text ty p @ [NUL]) = Inr ?buf"
    using compose_message [OF assms] by (simp add: gp_msg_def)
  have len: "length ?buf = GP_SIZE" using assms by (simp add: length_gp_msg)
  obtain r c where send: "send_message (gs_conn s) ?buf GP_SIZE = (r, c)" by fastforce
  let ?s = "s\<lparr>gs_buffer := ?buf, gs_conn := c\<rparr>"
  consider "r = WRITE_CONN_LOST_ERROR" | "r \<noteq> WRITE_CONN_LOST_ERROR" "r = WRITE_OTHER_ERROR"
    | "r \<noteq> WRITE_CONN_LOST_ERROR" "r \<noteq> WRITE_OTHER_ERROR"
    by blast
  then show thesis
  proof cases
    case 1
    show thesis
      by (rule lost [of "decrement_clients_now_count (close_socket
          (log_lines [Connection_unexpectedly_closed] ?s))"])
        (simp_all add: 1 send_gp_message_def buf send gone_def game_updates)
  next
    case 2
    show thesis
      by (rule lost [of "decrement_clients_now_count (log_lines [Client_disconnected]
          (close_socket (log_lines [Failed_to_send] ?s)))"])
        (use 2 in \<open>simp_all add: send_gp_message_def buf send gone_def game_updates\<close>)
  next
    case 3
    show thesis
      by (rule sent [of ?s])
        (use 3 len in \<open>simp_all add: send_gp_message_def buf send frame_def wins_logged_def\<close>)
  qed
qed

lemma receive_keeps_length:
  assumes "length (gs_buffer s) = GP_SIZE"
  obtains r buf c where "receive_message (gs_conn s) (gs_buffer s) GP_SIZE = Inr (r, buf, c)"
    and "length buf = GP_SIZE"
  using receive_message_spec [of GP_SIZE "gs_buffer s" "gs_conn s"] assms that by (metis order_refl)

lemma guess_round_cases:
  assumes "length (gs_buffer s) = GP_SIZE"
  obtains (valid) s' where "guess_round s = Inr (Valid s')" and "frame s s'"
      and "c_string (gs_buffer s') \<in> secret_codes"
  | (invalid) s' where "guess_round s = Inr (Invalid s')" and "frame s s'"
  | (lost) s' where "guess_round s = Inr (Gone s')" and "gone s s'"
proof -
  from receive_keeps_length [OF assms] obtain r buf c where
    recv: "receive_message (gs_conn s) (gs_buffer s) GP_SIZE = Inr (r, buf, c)"
    and len: "length buf = GP_SIZE" .
  let ?s = "s\<lparr>gs_buffer := buf, gs_conn := c\<rparr>"
  have fr: "frame s ?s" using len by (simp add: frame_def wins_logged_def)
  have val: "is_valid_secret_code buf = Inr (c_string buf \<in> secret_codes)"
    by (rule is_valid_secret_code_long) (simp add: len SECRET_CODE_LEN_def GP_SIZE_def)
  show thesis
  proof (cases "c_string buf \<in> secret_codes")
    case True
    then show thesis using fr by (intro valid [of ?s]) (simp_all add: guess_round_def recv val Let_def)
  next
    case False
    have "length (message_text GP_GUESS_INV None) < GP_SIZE" by (simp add: gp_texts_fit)
    then show thesis
    proof (cases rule: send_gp_message_cases [of GP_GUESS_INV None ?s, case_names sent lost])
      case (sent s')
      with False frame_trans [OF fr] show thesis
        by (intro invalid [of s']) (simp_all add: guess_round_def recv val Let_def)
    next
      case (lost s')
      with False frame_gone [OF fr] show thesis
        by (intro that(3) [of s']) (simp_all add: guess_round_def recv val Let_def)
    qed
  qed
qed

text \<open>A thread that is done with a part of its work: it goes on or has exited.\<close>

definition ctl_ok :: "game_state \<Rightarrow> thread_ctl res \<Rightarrow> bool" where
  "ctl_ok s r \<longleftrightarrow> (\<exists>s'. r = Inr (Running s') \<and> frame s s') \<or> (\<exists>s'. r = Inr (Exited s') \<and> gone s s')"

lemma read_guess_ok:
  assumes "read_guess s = Some r" and "length (gs_buffer s) = GP_SIZE"
  shows "ctl_ok s r \<and> (\<forall>s'. r = Inr (Running s') \<longrightarrow> c_string (gs_buffer s') \<in> secret_codes)"
proof -
  have "length (gs_buffer s) = GP_SIZE \<longrightarrow>
    ctl_ok s r \<and> (\<forall>s'. r = Inr (Running s') \<longrightarrow> c_string (gs_buffer s') \<in> secret_codes)"
  proof (rule read_guess.raw_induct [OF _ assms(1)], rule impI)
    fix rec s r
    assume IH: "\<And>s r. rec s = Some r \<Longrightarrow> length (gs_buffer s) = GP_SIZE \<longrightarrow>
        ctl_ok s r \<and> (\<forall>s'. r = Inr (Running s') \<longrightarrow> c_string (gs_buffer s') \<in> secret_codes)"
      and body: "(case guess_round s of Inl e \<Rightarrow> Some (Inl e) | Inr g \<Rightarrow>
          (case g of Valid s' \<Rightarrow> Some (Inr (Running s')) | Invalid s' \<Rightarrow> rec s'
           | Gone s' \<Rightarrow> Some (Inr (Exited s')))) = Some r"
      and len: "length (gs_buffer s) = GP_SIZE"
    from len show "ctl_ok s r \<and> (\<forall>s'. r = Inr (Running s') \<longrightarrow> c_string (gs_buffer s') \<in> secret_codes)"
    proof (cases rule: guess_round_cases [case_names valid invalid lost])
      case (valid s')
      with body show ?thesis by (auto simp: ctl_ok_def)
    next
      case (invalid s')
      with body have "rec s' = Some r" by simp
      with IH [of s' r] invalid have "ctl_ok s' r \<and>
          (\<forall>s'. r = Inr (Running s') \<longrightarrow> c_string (gs_buffer s') \<in> secret_codes)"
        by (simp add: frame_def)
      with invalid(2) show ?thesis
        by (auto simp: ctl_ok_def intro: frame_trans frame_gone)
    next
      case (lost s')
      with body show ?thesis by (auto simp: ctl_ok_def)
    qed
  qed
  with assms(2) show ?thesis by blast
qed

lemma feedback_of_valid:
  assumes "secret \<in> secret_codes" and "c_string buf \<in> secret_codes"
  shows "get_secret_code_guess_feedback (secret @ [NUL]) buf =
    Inr (c_string buf = secret, int (card (hits secret (c_string buf))),
      int (color_hits secret (c_string buf)) - int (card (hits secret (c_string buf))))"
    and "card (hits secret (c_string buf)) \<le> color_hits secret (c_string buf)"
    and "color_hits secret (c_string buf) \<le> 4"
    and "card (hits secret (c_string buf)) = SECRET_CODE_LEN \<longleftrightarrow> c_string buf = secret"
proof -
  let ?g = "c_string buf"
  have len: "length secret = SECRET_CODE_LEN" "length ?g = SECRET_CODE_LEN"
    using assms by (simp_all add: secret_codes_length)
  have tk: "take SECRET_CODE_LEN buf = ?g" using assms(2) by (rule take_c_string)
  have lb: "SECRET_CODE_LEN \<le> length buf" using arg_cong [OF tk, of length] len by simp
  have nth: "buf ! i = ?g ! i" if "i < SECRET_CODE_LEN" for i
    using that tk by (metis nth_take)
  have h: "hits (secret @ [NUL]) buf = hits secret ?g"
    using len nth by (auto simp: hits_def nth_append)
  have c: "color_hits (secret @ [NUL]) buf = color_hits secret ?g"
    using len tk by (simp add: color_hits_def)
  show "get_secret_code_guess_feedback (secret @ [NUL]) buf =
    Inr (?g = secret, int (card (hits secret ?g)), int (color_hits secret ?g) - int (card (hits secret ?g)))"
    using get_secret_code_guess_feedback_eq [of "secret @ [NUL]" buf] len lb tk h c by simp
  show "card (hits secret ?g) \<le> color_hits secret ?g"
    using color_hits_split [of secret ?g] len by simp
  have "color_hits secret ?g \<le> size (mset ?g)"
    unfolding color_hits_def using len by (intro size_mset_mono) simp
  then show "color_hits secret ?g \<le> 4" using len by (simp add: SECRET_CODE_LEN_def)
  have "card (hits secret ?g) = SECRET_CODE_LEN \<longleftrightarrow> hits secret ?g = {..<SECRET_CODE_LEN}"
    using card_subset_eq [OF _ hits_sub] by auto
  then show "card (hits secret ?g) = SECRET_CODE_LEN \<longleftrightarrow> ?g = secret"
    using len by (auto simp: hits_def list_eq_iff_nth_eq)
qed

lemma answer_guess_ok:
  assumes "secret \<in> secret_codes" and "c_string (gs_buffer s) \<in> secret_codes" and "n < MAX_GUESSES_COUNT"
  obtains ctl where "answer_guess (secret @ [NUL]) n s =
      Inr (int (card (hits secret (c_string (gs_buffer s)))), ctl)" and "ctl_ok s (Inr ctl)"
proof -
  let ?g = "c_string (gs_buffer s)"
  let ?p = "int (card (hits secret ?g))"
  let ?c = "int (color_hits secret ?g) - ?p"
  note fb = feedback_of_valid [OF assms(1,2)]
  have bounds: "Suc n \<le> 10" "0 \<le> ?p" "?p \<le> 4" "0 \<le> ?c" "?c \<le> 4"
    using assms(3) fb(2,3) by (auto simp: MAX_GUESSES_COUNT_def)
  note fits = feedback_message_fits [OF bounds]
  let ?msg = "feedback_message (Suc n) ?p ?c"
  let ?s = "log_lines [Clients_guess ?g, Servers_hint ?p ?c] s"
  have eq: "answer_guess (secret @ [NUL]) n s =
      res_bind (send_gp_message ?s GP_GUESS_FBK (Some ?msg)) (\<lambda>ctl. Inr (?p, ctl))"
    unfolding answer_guess_def fb(1)
    by (simp add: compose_message [OF fits(1)] c_string_padded [OF fits(3)])
  have "length (message_text GP_GUESS_FBK (Some ?msg)) < GP_SIZE" using fits(2) by simp
  then show thesis
  proof (cases rule: send_gp_message_cases [of GP_GUESS_FBK "Some ?msg" ?s, case_names sent lost])
    case (sent s')
    then have "frame s s'" by (auto simp: frame_def game_updates)
    with sent show thesis by (intro that [of "Running s'"]) (simp_all add: eq ctl_ok_def)
  next
    case (lost s')
    then have "gone s s'" by (auto simp: gone_def game_updates)
    with lost show thesis by (intro that [of "Exited s'"]) (simp_all add: eq ctl_ok_def)
  qed
qed

text \<open>A thread that has returned or exited.\<close>

definition thread_over :: "game_state \<Rightarrow> thread_ctl res \<Rightarrow> bool" where
  "thread_over s r \<longleftrightarrow> (\<exists>s'. (r = Inr (Running s') \<or> r = Inr (Exited s')) \<and> gone s s')"

lemma end_game_over:
  assumes "length (gs_buffer s) = GP_SIZE"
  shows "thread_over s (end_game p s)"
proof -
  let ?won = "p = int SECRET_CODE_LEN"
  let ?s = "if ?won then log_lines [Success_game_over] (increment_clients_win_count s)
    else log_lines [Failure_game_over] s"
  let ?ty = "if ?won then GP_GAME_SUCC else GP_GAME_FAIL"
  have eq: "end_game p s = ctl_bind (send_gp_message ?s ?ty None)
      (\<lambda>s'. Inr (Running (decrement_clients_now_count (log_lines [Client_disconnected] (close_socket s')))))"
    by (simp add: end_game_def)
  have "length (message_text ?ty None) < GP_SIZE" by (simp add: gp_texts_fit)
  then show ?thesis
  proof (cases rule: send_gp_message_cases [of ?ty None ?s, case_names sent lost])
    case (sent s')
    from sent(2)
    have "gone s (decrement_clients_now_count (log_lines [Client_disconnected] (close_socket s')))"
      by (simp add: frame_def gone_def game_updates)
    then show ?thesis unfolding eq sent(1) by (simp add: ctl_bind_def thread_over_def)
  next
    case (lost s')
    from lost(2,3) have "gone s s'" by (auto simp: gone_def game_updates split: if_splits)
    then show ?thesis unfolding eq lost(1) by (simp add: ctl_bind_def thread_over_def)
  qed
qed

lemma ctl_bind_opt_over:
  assumes "ctl_ok s m" and "ctl_bind_opt m f = Some r"
    and "\<And>s'. m = Inr (Running s') \<Longrightarrow> frame s s' \<Longrightarrow> f s' = Some r \<Longrightarrow> thread_over s' r"
  shows "thread_over s r"
proof -
  from assms(1) consider s' where "m = Inr (Running s')" "frame s s'" | s' where "m = Inr (Exited s')" "gone s s'"
    by (auto simp: ctl_ok_def)
  then show ?thesis
  proof cases
    case 1
    with assms(2) have "f s' = Some r" by (simp add: ctl_bind_opt_def)
    from assms(3) [OF 1 this] 1(2) show ?thesis by (auto simp: thread_over_def intro: frame_gone)
  next
    case 2
    with assms(2) show ?thesis by (auto simp: ctl_bind_opt_def thread_over_def)
  qed
qed

lemma send_gp_message_ok:
  "length (message_text ty p) < GP_SIZE \<Longrightarrow> ctl_ok s (send_gp_message s ty p)"
  by (rule send_gp_message_cases [of ty p s]) (auto simp: ctl_ok_def)

lemma game_loop_over:
  assumes "secret \<in> secret_codes" and "length (gs_buffer s) = GP_SIZE"
    and "game_loop (secret @ [NUL]) n p s = Some r"
  shows "thread_over s r"
  using assms(2,3)
proof (induction "MAX_GUESSES_COUNT - n" arbitrary: n p s)
  case 0
  then have "r = end_game p s" by (simp add: game_loop.simps [of _ n p s])
  with 0 end_game_over show ?case by simp
next
  case (Suc k)
  show ?case
  proof (cases "n < MAX_GUESSES_COUNT \<and> p < int SECRET_CODE_LEN")
    case False
    with Suc.prems(2) have "r = end_game p s" by (simp add: game_loop.simps [of _ n p s])
    with Suc.prems(1) end_game_over show ?thesis by simp
  next
    case True
    have k: "k = MAX_GUESSES_COUNT - (n + 1)" using Suc.hyps(2) by simp
    note loop = Suc.prems(2) [unfolded game_loop.simps [of _ n p s] if_P [OF True]]
    show ?thesis
    proof (rule ctl_bind_opt_over [OF _ loop])
      show "ctl_ok s (send_gp_message s GP_GUESS_REQ None)"
        by (rule send_gp_message_ok) (simp add: gp_texts_fit)
      fix s1
      assume "frame s s1" and run: "(case read_guess s1 of None \<Rightarrow> None | Some r \<Rightarrow> ctl_bind_opt r (\<lambda>s2.
          case answer_guess (secret @ [NUL]) n s2 of Inl e \<Rightarrow> Some (Inl e) | Inr (positions, ctl) \<Rightarrow>
            ctl_bind_opt (Inr ctl) (\<lambda>s3. game_loop (secret @ [NUL]) (n + 1) positions s3))) = Some r"
      then have len: "length (gs_buffer s1) = GP_SIZE" by (simp add: frame_def)
      from run obtain g where g: "read_guess s1 = Some g" by (cases "read_guess s1") auto
      note g_ok = read_guess_ok [OF g len]
      note run = run [unfolded g option.case]
      show "thread_over s1 r"
      proof (rule ctl_bind_opt_over [OF _ run])
        show "ctl_ok s1 g" using g_ok by blast
        fix s2
        assume s2: "g = Inr (Running s2)" and run: "(case answer_guess (secret @ [NUL]) n s2 of
            Inl e \<Rightarrow> Some (Inl e) | Inr (positions, ctl) \<Rightarrow>
              ctl_bind_opt (Inr ctl) (\<lambda>s3. game_loop (secret @ [NUL]) (n + 1) positions s3)) = Some r"
        from s2 g_ok have "c_string (gs_buffer s2) \<in> secret_codes" by simp
        from answer_guess_ok [OF assms(1) this] True obtain ctl where
          a: "answer_guess (secret @ [NUL]) n s2 =
            Inr (int (card (hits secret (c_string (gs_buffer s2)))), ctl)" and ok: "ctl_ok s2 (Inr ctl)"
          by blast
        note run = run [unfolded a sum.case prod.case]
        show "thread_over s2 r"
          by (rule ctl_bind_opt_over [OF ok run]) (rule Suc.hyps(1) [OF k], simp_all add: frame_def)
      qed
    qed
  qed
qed

lemma strncpy_length: "length (strncpy n src) = n"
  by (simp add: strncpy_def)

lemma choose_secret_ok:
  assumes "length code = SECRET_CODE_LEN + 1"
  obtains secret where "choose_secret rand code = Inr (secret @ [NUL])" and "secret \<in> secret_codes"
    and "c_string code \<in> secret_codes \<Longrightarrow> secret = c_string code"
proof -
  have val: "is_valid_secret_code code = Inr (c_string code \<in> secret_codes)"
    by (rule is_valid_secret_code_long) (simp add: assms)
  show thesis
  proof (cases "c_string code \<in> secret_codes")
    case True
    have tk: "take SECRET_CODE_LEN code = c_string code" using True by (rule take_c_string)
    have "NUL \<in> set code"
    proof (rule ccontr)
      assume "NUL \<notin> set code"
      then have "c_string code = code" by (auto simp: c_string_def)
      with True assms show False by (simp add: secret_codes_length)
    qed
    from c_string_split [OF this] obtain rest where "code = c_string code @ NUL # rest" by blast
    moreover from this have "rest = []"
      using assms secret_codes_length [OF True] by (metis One_nat_def add_diff_cancel_left'
          length_0_conv length_Cons length_append nat.inject)
    ultimately have "code = c_string code @ [NUL]" by simp
    with val True show thesis by (intro that [of "c_string code"]) (simp_all add: choose_secret_def)
  next
    case False
    from get_random_secret_code_ok [OF assms] obtain s where
      "get_random_secret_code rand code = Inr (s @ [NUL])" "s \<in> secret_codes" by blast
    with val False show thesis by (intro that [of s]) (simp_all add: choose_secret_def)
  qed
qed

lemma pthread_routine_over:
  assumes "pthread_routine rand param s = Some r"
  shows "\<exists>s'. (r = Inr (Running s') \<or> r = Inr (Exited s')) \<and>
    gs_now s' = gs_now s \<and> gs_count s' = gs_count s + 1 \<and>
    gs_win s' - wins_logged s' = gs_win s - wins_logged s \<and> gs_win s \<le> gs_win s' \<and> gs_win s' \<le> gs_win s + 1 \<and> gs_closed s'"
proof -
  from choose_secret_ok [OF strncpy_length] obtain secret where
    sec: "choose_secret rand (strncpy (SECRET_CODE_LEN + 1) param) = Inr (secret @ [NUL])"
    and codes: "secret \<in> secret_codes" by metis
  let ?s = "log_lines [Servers_secret (c_string (secret @ [NUL]))]
    (increment_clients_count (increment_clients_now_count (log_lines [Client_connected] s)))"
  note run = assms [unfolded pthread_routine_def Let_def sec sum.case]
  have "thread_over ?s r"
  proof (rule ctl_bind_opt_over [OF _ run], goal_cases)
    case 1
    show ?case by (rule send_gp_message_ok) (use gp_texts_fit in simp)
  next
    case (2 s1)
    show ?case
    proof (rule ctl_bind_opt_over [OF _ 2(3)], goal_cases)
      case 1
      show ?case by (rule send_gp_message_ok) (use gp_texts_fit in simp)
    next
      case (2 s2)
      show ?case
      proof (rule ctl_bind_opt_over [OF _ 2(3)], goal_cases)
        case 1
        show ?case by (rule send_gp_message_ok) (use gp_texts_fit in simp)
      next
        case (2 s3)
        then show ?case using game_loop_over [OF codes] by (simp add: frame_def)
      qed
    qed
  qed
  then obtain s' where "r = Inr (Running s') \<or> r = Inr (Exited s')" and "gone ?s s'"
    by (auto simp: thread_over_def)
  then show ?thesis
    by (intro exI [of _ s']) (auto simp: gone_def game_updates)
qed

section \<open>A client that sends nothing\<close>

text \<open>
  The peer has closed its sending side but takes what it is sent: each \<open>read\<close> returns zero,
  the buffer keeps the request, which is no valid guess, and the thread answers forever.
\<close>

definition silent :: "game_state \<Rightarrow> bool" where
  "silent s \<longleftrightarrow> incoming (gs_conn s) = [] \<and> write_evs (gs_conn s) = [] \<and>
     length (gs_buffer s) = GP_SIZE \<and> c_string (gs_buffer s) \<notin> secret_codes"

lemma receive_loop_silent:
  "incoming c = [] \<Longrightarrow> rcvd \<le> length buf \<Longrightarrow>
   receive_loop msg_size rcvd attempts buf c = Inr (rcvd, buf, c)"
proof (induction "READ_ATTEMPTS_MAX_COUNT - attempts" arbitrary: attempts)
  case 0
  then show ?case
    by (subst receive_loop.simps) (simp add: sys_read_def write_block_def)
next
  case (Suc k)
  then have "k = READ_ATTEMPTS_MAX_COUNT - (attempts + 1)" by simp
  with Suc show ?case
    by (subst receive_loop.simps) (simp add: sys_read_def write_block_def)
qed

lemma c_string_gp_msg: "NUL \<notin> set str \<Longrightarrow> c_string (gp_msg str) = str"
  by (simp add: gp_msg_def c_string_padded)

lemma send_gp_message_clean:
  assumes "write_evs (gs_conn s) = []" and "length (message_text ty p) < GP_SIZE"
  shows "send_gp_message s ty p = Inr (Running (s\<lparr>gs_buffer := gp_msg (message_text ty p),
    gs_conn := (gs_conn s)\<lparr>delivered := delivered (gs_conn s) @ gp_msg (message_text ty p)\<rparr>\<rparr>))"
proof -
  let ?m = "gp_msg (message_text ty p)"
  have buf: "write_block (replicate GP_SIZE NUL) 0 (message_text ty p @ [NUL]) = Inr ?m"
    using compose_message [OF assms(2)] by (simp add: gp_msg_def)
  have "length ?m = GP_SIZE" using assms(2) by (simp add: length_gp_msg)
  then have "send_message (gs_conn s) ?m GP_SIZE =
      (int GP_SIZE, (gs_conn s)\<lparr>delivered := delivered (gs_conn s) @ ?m\<rparr>)"
    using assms(1) by (intro send_message_clean)
  then show ?thesis
    by (simp add: send_gp_message_def buf WRITE_CONN_LOST_ERROR_def WRITE_OTHER_ERROR_def)
qed

lemma header_not_code: "length str \<noteq> SECRET_CODE_LEN \<Longrightarrow> str \<notin> secret_codes"
  by (auto simp: secret_codes_def)

lemma guess_round_silent:
  assumes "silent s"
  shows "\<exists>s'. guess_round s = Inr (Invalid s') \<and> silent s'"
proof -
  have recv: "receive_message (gs_conn s) (gs_buffer s) GP_SIZE = Inr (READ_ERROR, gs_buffer s, gs_conn s)"
    using assms receive_loop_silent [of "gs_conn s" 0 "gs_buffer s" GP_SIZE 0]
    by (simp add: receive_message_def silent_def GP_SIZE_def)
  have val: "is_valid_secret_code (gs_buffer s) = Inr False"
    using assms is_valid_secret_code_long [of "gs_buffer s"]
    by (simp add: silent_def SECRET_CODE_LEN_def GP_SIZE_def)
  have "c_string (gp_msg GP_GUESS_INV) \<notin> secret_codes"
    by (subst c_string_gp_msg)
      (auto intro!: header_not_code simp: GP_GUESS_INV_def NUL_def SECRET_CODE_LEN_def)
  then show ?thesis
    using assms send_gp_message_clean [of s GP_GUESS_INV None] length_gp_msg [of GP_GUESS_INV] gp_texts_fit(2)
    by (simp add: guess_round_def recv val silent_def)
qed

lemma read_guess_silent: "silent s \<Longrightarrow> read_guess s = None"
proof (rule ccontr)
  assume "silent s" and "read_guess s \<noteq> None"
  then obtain r where r: "read_guess s = Some r" by auto
  have "\<not> silent s"
  proof (rule read_guess.raw_induct [OF _ r], rule notI)
    fix rec s r
    assume IH: "\<And>s r. rec s = Some r \<Longrightarrow> \<not> silent s" and sil: "silent s"
      and body: "(case guess_round s of Inl e \<Rightarrow> Some (Inl e) | Inr g \<Rightarrow>
          (case g of Valid s' \<Rightarrow> Some (Inr (Running s')) | Invalid s' \<Rightarrow> rec s'
           | Gone s' \<Rightarrow> Some (Inr (Exited s')))) = Some r"
    from guess_round_silent [OF sil] obtain s' where "guess_round s = Inr (Invalid s')" "silent s'" by blast
    with body IH show False by auto
  qed
  with \<open>silent s\<close> show False by simp
qed

section \<open>A client that plays\<close>

text \<open>
  The reference: the messages that the client sends, each of full size, and the game that
  follows from them while the thread waits for guess \<open>n + 1\<close>: what is logged, what is sent,
  and whether the client wins. \<open>None\<close>: the messages do not end the game.
\<close>

definition hint :: "string \<Rightarrow> string \<Rightarrow> int \<times> int" where
  "hint secret guess = (int (card (hits secret guess)),
     int (color_hits secret guess) - int (card (hits secret guess)))"

definition feedback_text :: "nat \<Rightarrow> string \<Rightarrow> string \<Rightarrow> string" where
  "feedback_text n secret guess =
     GP_GUESS_FBK @ (case hint secret guess of (p, c) \<Rightarrow> feedback_message n p c)"

definition guess_log :: "string \<Rightarrow> string \<Rightarrow> log_line list" where
  "guess_log secret guess =
     [Clients_guess guess, case hint secret guess of (p, c) \<Rightarrow> Servers_hint p c]"

fun ref_play :: "string \<Rightarrow> nat \<Rightarrow> string list \<Rightarrow> (log_line list \<times> string list \<times> bool) option" where
  "ref_play secret n [] = None"
| "ref_play secret n (m # ms) =
     (let guess = c_string m in
      if guess \<notin> secret_codes
      then map_option (\<lambda>(l, t, won). (l, GP_GUESS_INV # t, won)) (ref_play secret n ms)
      else if guess = secret
      then Some (guess_log secret guess, [feedback_text (n + 1) secret guess], True)
      else if n + 1 = MAX_GUESSES_COUNT
      then Some (guess_log secret guess, [feedback_text (n + 1) secret guess], False)
      else map_option (\<lambda>(l, t, won). (guess_log secret guess @ l,
               feedback_text (n + 1) secret guess # GP_GUESS_REQ # t, won))
             (ref_play secret (n + 1) ms))"

text \<open>The state after more was logged and sent, and messages were taken from the input.\<close>

definition after :: "log_line list \<Rightarrow> string list \<Rightarrow> string list \<Rightarrow> string \<Rightarrow> game_state \<Rightarrow> game_state" where
  "after l t ms buf s = s\<lparr>gs_log := gs_log s @ l, gs_buffer := buf,
     gs_conn := (gs_conn s)\<lparr>incoming := map Chunk ms,
       delivered := delivered (gs_conn s) @ concat (map gp_msg t)\<rparr>\<rparr>"

definition waits :: "string list \<Rightarrow> game_state \<Rightarrow> bool" where
  "waits ms s \<longleftrightarrow> incoming (gs_conn s) = map Chunk ms \<and> write_evs (gs_conn s) = [] \<and>
     length (gs_buffer s) = GP_SIZE"

lemma after_after [simp]:
  "after l' t' ms' buf' (after l t ms buf s) = after (l @ l') (t @ t') ms' buf' s"
  by (simp add: after_def)

lemma after_simps [simp]:
  "gs_buffer (after l t ms buf s) = buf"
  "write_evs (gs_conn (after l t ms buf s)) = write_evs (gs_conn s)"
  "incoming (gs_conn (after l t ms buf s)) = map Chunk ms"
  "gs_log (after l t ms buf s) = gs_log s @ l"
  "delivered (gs_conn (after l t ms buf s)) = delivered (gs_conn s) @ concat (map gp_msg t)"
  by (simp_all add: after_def)

lemma log_lines_after: "log_lines ls (after l t ms buf s) = after (l @ ls) t ms buf s"
  by (simp add: after_def log_lines_def)

lemma waits_after: "waits ms' s \<Longrightarrow> length buf = GP_SIZE \<Longrightarrow> waits ms (after l t ms buf s)"
  by (simp add: waits_def)

lemma send_gp_message_after:
  assumes "waits ms s" and "length (message_text ty p) < GP_SIZE"
  shows "send_gp_message s ty p =
    Inr (Running (after [] [message_text ty p] ms (gp_msg (message_text ty p)) s))"
  using assms send_gp_message_clean [of s ty p]
  by (simp add: after_def waits_def)

lemma receive_next:
  assumes "waits (m # ms) s" and "length m = GP_SIZE"
  shows "receive_message (gs_conn s) (gs_buffer s) GP_SIZE =
    Inr (int GP_SIZE, m, (gs_conn s)\<lparr>incoming := map Chunk ms\<rparr>)"
proof -
  have "m \<noteq> []" using assms(2) by (auto simp: GP_SIZE_def)
  with receive_message_chunks [of "[m]" m "gs_buffer s" "gs_conn s" "map Chunk ms"] assms show ?thesis
    by (simp add: waits_def READ_ATTEMPTS_MAX_COUNT_def)
qed

lemma guess_round_next:
  assumes "waits (m # ms) s" and "length m = GP_SIZE"
  shows "guess_round s = (if c_string m \<in> secret_codes then Inr (Valid (after [] [] ms m s))
    else Inr (Invalid (after [] [GP_GUESS_INV] ms (gp_msg GP_GUESS_INV) s)))"
proof -
  have val: "is_valid_secret_code m = Inr (c_string m \<in> secret_codes)"
    by (rule is_valid_secret_code_long) (simp add: assms(2) SECRET_CODE_LEN_def GP_SIZE_def)
  have s: "s\<lparr>gs_buffer := m, gs_conn := (gs_conn s)\<lparr>incoming := map Chunk ms\<rparr>\<rparr> = after [] [] ms m s"
    by (simp add: after_def)
  have "waits ms (after [] [] ms m s)" using waits_after [OF assms(1)] assms(2) by simp
  from send_gp_message_after [OF this, of GP_GUESS_INV None] gp_texts_fit(2) show ?thesis
    by (simp add: guess_round_def receive_next [OF assms] val s)
qed

text \<open>The messages up to the first valid guess.\<close>

fun skip_invalid :: "string list \<Rightarrow> (nat \<times> string \<times> string list) option" where
  "skip_invalid [] = None"
| "skip_invalid (m # ms) =
     (if c_string m \<in> secret_codes then Some (0, m, ms)
      else map_option (\<lambda>(k, g, r). (Suc k, g, r)) (skip_invalid ms))"

lemma read_guess_skip:
  assumes "waits ms s" and "\<forall>m \<in> set ms. length m = GP_SIZE" and "skip_invalid ms = Some (k, m, rest)"
  shows "read_guess s = Some (Inr (Running (after [] (replicate k GP_GUESS_INV) rest m s)))"
  using assms
proof (induction ms arbitrary: s k)
  case Nil
  then show ?case by simp
next
  case (Cons x xs)
  have len: "length x = GP_SIZE" using Cons.prems(2) by simp
  note round = guess_round_next [OF Cons.prems(1) len]
  show ?case
  proof (cases "c_string x \<in> secret_codes")
    case True
    with Cons.prems(3) round show ?thesis by (subst read_guess.simps) simp
  next
    case False
    with Cons.prems(3) obtain j where j: "skip_invalid xs = Some (j, m, rest)" and k: "k = Suc j" by auto
    let ?s = "after [] [GP_GUESS_INV] xs (gp_msg GP_GUESS_INV) s"
    have "waits xs ?s"
      using Cons.prems(1) by (rule waits_after) (use gp_texts_fit(2) in \<open>simp add: length_gp_msg\<close>)
    from Cons.IH [OF this _ j] Cons.prems(2) False round show ?thesis
      by (subst read_guess.simps) (simp add: k)
  qed
qed

lemma ref_play_skip:
  "ref_play secret n ms =
    (case skip_invalid ms of
       None \<Rightarrow> None
     | Some (k, m, rest) \<Rightarrow>
         map_option (\<lambda>(l, t, won). (l, replicate k GP_GUESS_INV @ t, won)) (ref_play secret n (m # rest)))"
proof (induction ms)
  case Nil
  then show ?case by simp
next
  case (Cons m ms)
  show ?case
  proof (cases "c_string m \<in> secret_codes")
    case True
    then have skip: "skip_invalid (m # ms) = Some (0, m, ms)" by simp
    show ?thesis unfolding skip option.case prod.case
      by (cases "ref_play secret n (m # ms)") (simp_all del: ref_play.simps)
  next
    case False
    then have head: "ref_play secret n (m # ms) =
        map_option (\<lambda>(l, t, won). (l, GP_GUESS_INV # t, won)) (ref_play secret n ms)"
      by (simp add: Let_def)
    show ?thesis
    proof (cases "skip_invalid ms")
      case None
      with Cons have "ref_play secret n ms = None" by simp
      with None False head show ?thesis by simp
    next
      case (Some a)
      obtain k x rest where a: "a = (k, x, rest)" using prod_cases3 by blast
      have skip: "skip_invalid (m # ms) = Some (Suc k, x, rest)" using False Some a by simp
      from Cons Some a have IH: "ref_play secret n ms = map_option
          (\<lambda>(l, t, won). (l, replicate k GP_GUESS_INV @ t, won)) (ref_play secret n (x # rest))"
        by (simp del: ref_play.simps)
      show ?thesis unfolding head IH skip option.case prod.case
        by (cases "ref_play secret n (x # rest)") (auto simp del: ref_play.simps)
    qed
  qed
qed

lemma skip_invalid_valid:
  "skip_invalid ms = Some (k, m, rest) \<Longrightarrow>
   c_string m \<in> secret_codes \<and> m \<in> set ms \<and> set rest \<subseteq> set ms"
  by (induction ms arbitrary: k) (auto split: if_splits)

lemma answer_guess_clean:
  assumes "secret \<in> secret_codes" and "c_string m \<in> secret_codes" and "n < MAX_GUESSES_COUNT"
    and "waits ms s" and "gs_buffer s = m"
  shows "answer_guess (secret @ [NUL]) n s = Inr (fst (hint secret (c_string m)),
    Running (after (guess_log secret (c_string m)) [feedback_text (n + 1) secret (c_string m)] ms
      (gp_msg (feedback_text (n + 1) secret (c_string m))) s))"
proof -
  let ?g = "c_string m"
  let ?p = "int (card (hits secret ?g))"
  let ?c = "int (color_hits secret ?g) - ?p"
  note fb = feedback_of_valid [OF assms(1,2)]
  have bounds: "Suc n \<le> 10" "0 \<le> ?p" "?p \<le> 4" "0 \<le> ?c" "?c \<le> 4"
    using assms(3) fb(2,3) by (auto simp: MAX_GUESSES_COUNT_def)
  note fits = feedback_message_fits [OF bounds]
  let ?msg = "feedback_message (Suc n) ?p ?c"
  let ?s = "log_lines (guess_log secret ?g) s"
  have "answer_guess (secret @ [NUL]) n s =
      res_bind (send_gp_message ?s GP_GUESS_FBK (Some ?msg)) (\<lambda>ctl. Inr (?p, ctl))"
    unfolding answer_guess_def assms(5) fb(1)
    by (simp add: compose_message [OF fits(1)] c_string_padded [OF fits(3)] guess_log_def hint_def)
  moreover have "waits ms ?s" using assms(4) by (simp add: waits_def log_lines_def)
  from send_gp_message_after [OF this, of GP_GUESS_FBK "Some ?msg"] fits(2)
  have "send_gp_message ?s GP_GUESS_FBK (Some ?msg) = Inr (Running (after []
      [GP_GUESS_FBK @ ?msg] ms (gp_msg (GP_GUESS_FBK @ ?msg)) ?s))"
    by simp
  ultimately show ?thesis
    by (simp add: feedback_text_def hint_def after_def log_lines_def)
qed

text \<open>The end of the game in a state that waits for nothing.\<close>

definition finished :: "bool \<Rightarrow> game_state \<Rightarrow> game_state" where
  "finished won s =
     (let s' = (if won then increment_clients_win_count s else s) in
      decrement_clients_now_count (close_socket
        (after [if won then Success_game_over else Failure_game_over, Client_disconnected]
          [if won then GP_GAME_SUCC else GP_GAME_FAIL]
          (map ev_bytes (incoming (gs_conn s)))
          (gp_msg (if won then GP_GAME_SUCC else GP_GAME_FAIL)) s')))"

lemma end_game_clean:
  assumes "waits ms s"
  shows "end_game p s = Inr (Running (finished (p = int SECRET_CODE_LEN) s))"
proof -
  let ?won = "p = int SECRET_CODE_LEN"
  let ?s = "if ?won then log_lines [Success_game_over] (increment_clients_win_count s)
    else log_lines [Failure_game_over] s"
  let ?ty = "if ?won then GP_GAME_SUCC else GP_GAME_FAIL"
  have "end_game p s = ctl_bind (send_gp_message ?s ?ty None)
      (\<lambda>s'. Inr (Running (decrement_clients_now_count (log_lines [Client_disconnected] (close_socket s')))))"
    by (simp add: end_game_def)
  moreover have "waits ms ?s"
    using assms by (simp add: waits_def log_lines_def increment_clients_win_count_def)
  from send_gp_message_after [OF this, of ?ty None]
  have "send_gp_message ?s ?ty None = Inr (Running (after [] [?ty] ms (gp_msg ?ty) ?s))"
    by (simp add: gp_texts_fit)
  ultimately show ?thesis
    using assms by (simp add: finished_def ctl_bind_def after_def game_updates waits_def comp_def)
qed

lemma hint_position:
  assumes "secret \<in> secret_codes" and "c_string m \<in> secret_codes"
  shows "fst (hint secret (c_string m)) = int SECRET_CODE_LEN \<longleftrightarrow> c_string m = secret"
    and "fst (hint secret (c_string m)) \<le> int SECRET_CODE_LEN"
  using feedback_of_valid(4) [OF assms] card_hits_le [of secret "c_string m"] by (simp_all add: hint_def)

lemma length_feedback_text:
  assumes "secret \<in> secret_codes" and "c_string m \<in> secret_codes" and "n \<le> MAX_GUESSES_COUNT"
  shows "length (gp_msg (feedback_text n secret (c_string m))) = GP_SIZE"
proof -
  let ?p = "int (card (hits secret (c_string m)))"
  have "length (GP_GUESS_FBK @ feedback_message n ?p (int (color_hits secret (c_string m)) - ?p)) < GP_SIZE"
    using feedback_of_valid(2,3) [OF assms(1,2)] assms(3)
    by (intro feedback_message_fits(2)) (auto simp: MAX_GUESSES_COUNT_def)
  then show ?thesis by (intro length_gp_msg) (simp add: feedback_text_def hint_def)
qed

text \<open>One round of the game loop: request, guess, feedback.\<close>

lemma game_loop_round:
  assumes "secret \<in> secret_codes" and "waits ms s" and "\<forall>m \<in> set ms. length m = GP_SIZE"
    and "n < MAX_GUESSES_COUNT" and "p < int SECRET_CODE_LEN" and "skip_invalid ms = Some (k, m, rest)"
  defines "s3 \<equiv> after (guess_log secret (c_string m))
      (GP_GUESS_REQ # replicate k GP_GUESS_INV @ [feedback_text (n + 1) secret (c_string m)]) rest
      (gp_msg (feedback_text (n + 1) secret (c_string m))) s"
  shows "game_loop (secret @ [NUL]) n p s =
      game_loop (secret @ [NUL]) (n + 1) (fst (hint secret (c_string m))) s3"
    and "waits rest s3"
proof -
  have m: "c_string m \<in> secret_codes" "m \<in> set ms" using skip_invalid_valid [OF assms(6)] by auto
  let ?s1 = "after [] [GP_GUESS_REQ] ms (gp_msg GP_GUESS_REQ) s"
  have req: "send_gp_message s GP_GUESS_REQ None = Inr (Running ?s1)"
    using send_gp_message_after [OF assms(2), of GP_GUESS_REQ None] gp_texts_fit(1) by simp
  have "waits ms ?s1"
    using assms(2) by (rule waits_after) (use gp_texts_fit(1) in \<open>simp add: length_gp_msg\<close>)
  note rd = read_guess_skip [OF this assms(3,6)]
  let ?s2 = "after [] (replicate k GP_GUESS_INV) rest m ?s1"
  have w2: "waits rest ?s2" using \<open>waits ms ?s1\<close> assms(3) m(2) by (intro waits_after) auto
  note ans = answer_guess_clean [OF assms(1) m(1) assms(4) w2 after_simps(1)]
  show "game_loop (secret @ [NUL]) n p s =
      game_loop (secret @ [NUL]) (n + 1) (fst (hint secret (c_string m))) s3"
    unfolding s3_def using assms(4,5)
    by (subst game_loop.simps) (simp add: req rd ctl_bind_opt_def ans [simplified])
  show "waits rest s3"
    unfolding s3_def using assms(2)
    by (rule waits_after) (use length_feedback_text [OF assms(1) m(1)] assms(4) in simp)
qed

lemma game_loop_play:
  assumes "secret \<in> secret_codes" and "waits ms s" and "\<forall>m \<in> set ms. length m = GP_SIZE"
    and "n < MAX_GUESSES_COUNT" and "p < int SECRET_CODE_LEN"
    and "ref_play secret n ms = Some (l, t, won)"
  shows "\<exists>rest buf. game_loop (secret @ [NUL]) n p s =
    Some (Inr (Running (finished won (after l (GP_GUESS_REQ # t) rest buf s))))"
  using assms(2-)
proof (induction "MAX_GUESSES_COUNT - n" arbitrary: n p s ms l t)
  case 0
  then show ?case by simp
next
  case (Suc j)
  from Suc.prems(5) obtain k m rest t' where skip: "skip_invalid ms = Some (k, m, rest)"
    and play: "ref_play secret n (m # rest) = Some (l, t', won)"
    and t: "t = replicate k GP_GUESS_INV @ t'"
    by (subst (asm) ref_play_skip) (auto split: option.splits simp del: ref_play.simps)
  let ?g = "c_string m"
  let ?fb = "feedback_text (n + 1) secret ?g"
  let ?s3 = "after (guess_log secret ?g) (GP_GUESS_REQ # replicate k GP_GUESS_INV @ [?fb]) rest (gp_msg ?fb) s"
  have m: "?g \<in> secret_codes" "set rest \<subseteq> set ms" using skip_invalid_valid [OF skip] by auto
  note round = game_loop_round [OF assms(1) Suc.prems(1-4) skip]
  note pos = hint_position [OF assms(1) m(1)]
  note last = end_game_clean [OF round(2), of "fst (hint secret ?g)"]
  show ?case
  proof (cases "?g = secret \<or> n + 1 = MAX_GUESSES_COUNT")
    case True
    with pos have "game_loop (secret @ [NUL]) (n + 1) (fst (hint secret ?g)) ?s3 =
        Some (end_game (fst (hint secret ?g)) ?s3)"
      by (subst game_loop.simps) auto
    moreover have "l = guess_log secret ?g" "t' = [?fb]" "won = (?g = secret)"
      using play m(1) True by (auto simp: Let_def split: if_splits)
    ultimately show ?thesis using round(1) last pos(1) t by auto
  next
    case False
    then obtain l' t'' where IHp: "ref_play secret (n + 1) rest = Some (l', t'', won)"
      and l: "l = guess_log secret ?g @ l'" and t': "t' = ?fb # GP_GUESS_REQ # t''"
      using play m(1) by (auto simp: Let_def split: if_splits)
    have "n + 1 < MAX_GUESSES_COUNT" using False Suc.prems(3) by simp
    moreover have "fst (hint secret ?g) < int SECRET_CODE_LEN" using pos False by linarith
    moreover have "\<forall>m \<in> set rest. length m = GP_SIZE" using m(2) Suc.prems(2) by blast
    moreover have "j = MAX_GUESSES_COUNT - (n + 1)" using Suc.hyps(2) by simp
    ultimately have "\<exists>rest' buf. game_loop (secret @ [NUL]) (n + 1) (fst (hint secret ?g)) ?s3 =
        Some (Inr (Running (finished won (after l' (GP_GUESS_REQ # t'') rest' buf ?s3))))"
      using Suc.hyps(1) round(2) IHp by blast
    then show ?thesis unfolding round(1) by (auto simp: l t t')
  qed
qed

text \<open>The whole thread.\<close>

definition greeting :: "string list" where
  "greeting = [GP_DISP_MSG @ WELCOME_MESSAGE, GP_DISP_MSG @ INSTRUCTIONS_1_MESSAGE,
     GP_DISP_MSG @ INSTRUCTIONS_2_MESSAGE]"

lemma strncpy_code:
  assumes "secret \<in> secret_codes"
  shows "strncpy (SECRET_CODE_LEN + 1) (secret @ NUL # rest) = secret @ [NUL]"
proof -
  have "\<forall>c \<in> set secret. c \<noteq> NUL" using secret_codes_no_NUL [OF assms] by blast
  then have "c_string (secret @ NUL # rest) = secret"
    by (simp add: c_string_def takeWhile_append2)
  with secret_codes_length [OF assms] show ?thesis by (simp add: strncpy_def)
qed

lemma choose_secret_given:
  assumes "secret \<in> secret_codes"
  shows "choose_secret rand (secret @ [NUL]) = Inr (secret @ [NUL])"
  using assms is_valid_secret_code_string [OF secret_codes_no_NUL [OF assms], of "[]"]
  by (simp add: choose_secret_def)

lemma pthread_routine_play:
  assumes secret: "secret \<in> secret_codes" and w: "waits ms s"
    and len: "\<forall>m \<in> set ms. length m = GP_SIZE" and play: "ref_play secret 0 ms = Some (l, t, won)"
  shows "\<exists>rest buf. pthread_routine rand (secret @ [NUL]) s = Some (Inr (Running (finished won
    (after ([Client_connected, Servers_secret secret] @ l) (greeting @ GP_GUESS_REQ # t) rest buf
      (increment_clients_count (increment_clients_now_count s))))))"
proof -
  let ?s2 = "log_lines [Servers_secret (c_string (secret @ [NUL]))]
    (increment_clients_count (increment_clients_now_count (log_lines [Client_connected] s)))"
  have cs: "c_string (secret @ [NUL]) = secret"
    using c_string_padded [OF secret_codes_no_NUL [OF secret], of 1] by simp
  have w2: "waits ms ?s2" using w by (simp add: waits_def game_updates)
  let ?m = "\<lambda>p. GP_DISP_MSG @ p"
  have fit: "length (gp_msg (?m p)) = GP_SIZE" if "length (?m p) < GP_SIZE" for p
    using that by (simp add: length_gp_msg)
  let ?s5 = "after [] greeting ms (gp_msg (?m INSTRUCTIONS_2_MESSAGE)) ?s2"
  have w5: "waits ms ?s5" using w2 by (rule waits_after) (rule fit [OF gp_texts_fit(7)])
  have send: "send_gp_message (after [] ts ms (gp_msg b) ?s2) GP_DISP_MSG (Some p) =
      Inr (Running (after [] (ts @ [?m p]) ms (gp_msg (?m p)) ?s2))"
    if "length (?m p) < GP_SIZE" and "length (gp_msg b) = GP_SIZE" for ts b p
    using send_gp_message_after [OF waits_after [OF w2 that(2)], of GP_DISP_MSG "Some p"] that(1) by simp
  note greet = send_gp_message_after [OF w2, of GP_DISP_MSG "Some WELCOME_MESSAGE", simplified]
  have run: "pthread_routine rand (secret @ [NUL]) s = game_loop (secret @ [NUL]) 0 0 ?s5"
    unfolding pthread_routine_def Let_def strncpy_code [OF secret]
      choose_secret_given [OF secret] sum.case
    using gp_texts_fit(5,6,7) fit
    by (simp add: ctl_bind_opt_def greet send greeting_def)
  from game_loop_play [OF secret w5 len _ _ play, of 0] obtain rest buf where
    "game_loop (secret @ [NUL]) 0 0 ?s5 =
      Some (Inr (Running (finished won (after l (GP_GUESS_REQ # t) rest buf ?s5))))"
    by (auto simp: MAX_GUESSES_COUNT_def SECRET_CODE_LEN_def)
  moreover have "after l (GP_GUESS_REQ # t) rest buf ?s5 =
      after ([Client_connected, Servers_secret secret] @ l) (greeting @ GP_GUESS_REQ # t) rest buf
        (increment_clients_count (increment_clients_now_count s))"
    by (simp add: cs after_def game_updates)
  ultimately show ?thesis unfolding run by metis
qed

section \<open>Who wins\<close>

definition valid_guesses :: "string list \<Rightarrow> string list" where
  "valid_guesses ms = filter (\<lambda>g. g \<in> secret_codes) (map c_string ms)"

lemma ref_play_won:
  "n < MAX_GUESSES_COUNT \<Longrightarrow> secret \<in> secret_codes \<Longrightarrow> ref_play secret n ms = Some (l, t, won) \<Longrightarrow>
   won \<longleftrightarrow> secret \<in> set (take (MAX_GUESSES_COUNT - n) (valid_guesses ms))"
proof (induction ms arbitrary: n l t)
  case Nil
  then show ?case by simp
next
  case (Cons m ms)
  obtain k where k: "MAX_GUESSES_COUNT - n = Suc k" using Cons.prems(1) by (metis Suc_diff_Suc)
  show ?case
  proof (cases "c_string m \<in> secret_codes")
    case False
    with Cons.prems(3) obtain t' where "ref_play secret n ms = Some (l, t', won)" by (auto simp: Let_def)
    from Cons.IH [OF Cons.prems(1,2) this] False show ?thesis by (simp add: valid_guesses_def)
  next
    case True
    consider "c_string m = secret" | "c_string m \<noteq> secret" "n + 1 = MAX_GUESSES_COUNT"
      | "c_string m \<noteq> secret" "n + 1 < MAX_GUESSES_COUNT"
      using Cons.prems(1) by linarith
    then show ?thesis
    proof cases
      case 1
      with True Cons.prems(3) k show ?thesis by (simp add: valid_guesses_def)
    next
      case 2
      then have "k = 0" using k by simp
      with 2 True Cons.prems(3) k show ?thesis by (simp add: valid_guesses_def Let_def)
    next
      case 3
      with True Cons.prems(3) obtain l' t' where "ref_play secret (n + 1) ms = Some (l', t', won)"
        by (auto simp: Let_def)
      moreover have "k = MAX_GUESSES_COUNT - (n + 1)" using k by simp
      ultimately show ?thesis
        using Cons.IH [OF 3(2) Cons.prems(2)] True 3(1) k by (simp add: valid_guesses_def)
    qed
  qed
qed

lemma ref_play_ends:
  "n < MAX_GUESSES_COUNT \<Longrightarrow> secret \<in> secret_codes \<Longrightarrow>
   ref_play secret n ms \<noteq> None \<longleftrightarrow>
     secret \<in> set (valid_guesses ms) \<or> MAX_GUESSES_COUNT \<le> n + length (valid_guesses ms)"
proof (induction ms arbitrary: n)
  case Nil
  then show ?case by (simp add: valid_guesses_def)
next
  case (Cons m ms)
  show ?case
  proof (cases "c_string m \<in> secret_codes \<and> c_string m \<noteq> secret \<and> n + 1 < MAX_GUESSES_COUNT")
    case True
    with Cons.IH [of "n + 1"] Cons.prems show ?thesis by (auto simp: valid_guesses_def Let_def)
  next
    case False
    with Cons.IH [OF Cons.prems] Cons.prems show ?thesis by (auto simp: valid_guesses_def Let_def)
  qed
qed

section \<open>Properties of a server thread\<close>

definition demo_game :: "string list \<Rightarrow> game_state" where
  "demo_game ms = \<lparr>gs_conn = \<lparr>incoming = map Chunk ms, write_evs = [], delivered = ''''\<rparr>,
     gs_buffer = replicate GP_SIZE NUL, gs_log = [], gs_now = 0, gs_count = 0, gs_win = 0,
     gs_closed = False\<rparr>"

lemma demo_code: "''ABCD'' \<in> secret_codes"
  by (simp add: secret_codes_def SECRET_CODE_LEN_def SECRET_CODE_COLORS_def)

lemma c_string_short: "NUL \<notin> set s \<Longrightarrow> c_string (s @ [NUL] @ r) = s"
  by (induction s) (auto simp: c_string_def)

lemma demo_message: "length (gp_msg ''ABCD'') = GP_SIZE" "c_string (gp_msg ''ABCD'') = ''ABCD''"
  by (simp_all add: length_gp_msg GP_SIZE_def c_string_gp_msg NUL_def)

text \<open>A connection that is lost at the first write.\<close>

definition lost_game :: game_state where
  "lost_game = (demo_game [])\<lparr>gs_conn := \<lparr>incoming = [], write_evs = [EPipe], delivered = []\<rparr>\<rparr>"

lemma lost_game_exits: "\<exists>r. pthread_routine (\<lambda>_. 0) (''ABCD'' @ [NUL]) lost_game = Some r"
proof -
  have exits: "\<exists>s'. send_gp_message s GP_DISP_MSG (Some WELCOME_MESSAGE) = Inr (Exited s')"
    if "write_evs (gs_conn s) = [EPipe]" for s
    using that compose_message [OF gp_texts_fit(5)]
    by (simp add: send_gp_message_def send_message_def send_loop.simps [of _ _ 0 0] sys_write_def)
  let ?s = "log_lines [Servers_secret (c_string (''ABCD'' @ [NUL]))] (increment_clients_count
    (increment_clients_now_count (log_lines [Client_connected] lost_game)))"
  have "write_evs (gs_conn ?s) = [EPipe]" by (simp add: game_updates lost_game_def)
  from exits [OF this] obtain s' where
    s': "send_gp_message ?s GP_DISP_MSG (Some WELCOME_MESSAGE) = Inr (Exited s')" by blast
  show ?thesis
    unfolding pthread_routine_def Let_def strncpy_code [OF demo_code] choose_secret_given [OF demo_code]
      sum.case s' ctl_bind_opt_def by simp
qed

text \<open>C17: A server thread that returns or exits, whatever its connection does and whatever its
  buffer held, has made no access outside a buffer, has closed its socket, has decremented the
  number of current clients as often as it incremented it and counted its client once, and
  has counted at most one win, exactly when it logged one.\<close>

theorem pthread_routine_balanced:
  assumes "pthread_routine rand param s = Some r"
  shows "\<exists>s'. (r = Inr (Running s') \<or> r = Inr (Exited s')) \<and>
    gs_now s' = gs_now s \<and> gs_count s' = gs_count s + 1 \<and>
    gs_win s' - wins_logged s' = gs_win s - wins_logged s \<and> gs_win s \<le> gs_win s' \<and> gs_win s' \<le> gs_win s + 1 \<and> gs_closed s'"
  using assms by (rule pthread_routine_over)

theorem pthread_routine_balanced_witness:
  "\<exists>s'. (pthread_routine (\<lambda>_. 0) (''ABCD'' @ [NUL]) lost_game = Some (Inr (Running s')) \<or>
     pthread_routine (\<lambda>_. 0) (''ABCD'' @ [NUL]) lost_game = Some (Inr (Exited s'))) \<and>
    gs_now s' = gs_now lost_game \<and> gs_count s' = gs_count lost_game + 1 \<and> gs_closed s'"
proof -
  from lost_game_exits obtain r where r: "pthread_routine (\<lambda>_. 0) (''ABCD'' @ [NUL]) lost_game = Some r"
    by blast
  from pthread_routine_balanced [OF this] show ?thesis unfolding r by auto
qed

text \<open>C5: Over a connection that delivers the client's messages, a thread with a valid secret
  plays the game of the reference: it answers an invalid guess with the request to try
  again, a valid one with its feedback, logs every guess with its hint, and ends with
  success or failure; the counters show the client and the win.\<close>

theorem pthread_routine_plays:
  assumes "secret \<in> secret_codes" and "waits ms s" and "\<forall>m \<in> set ms. length m = GP_SIZE"
    and "ref_play secret 0 ms = Some (l, t, won)"
  shows "\<exists>s'. pthread_routine rand (secret @ [NUL]) s = Some (Inr (Running s')) \<and>
    gs_log s' = gs_log s @ [Client_connected, Servers_secret secret] @ l @
      [if won then Success_game_over else Failure_game_over, Client_disconnected] \<and>
    delivered (gs_conn s') = delivered (gs_conn s) @ concat (map gp_msg (greeting @ GP_GUESS_REQ # t @
      [if won then GP_GAME_SUCC else GP_GAME_FAIL])) \<and>
    gs_win s' = gs_win s + (if won then 1 else 0) \<and> gs_now s' = gs_now s \<and> gs_count s' = gs_count s + 1"
proof -
  from pthread_routine_play [OF assms, of rand] obtain rest buf where
    run: "pthread_routine rand (secret @ [NUL]) s = Some (Inr (Running (finished won
      (after ([Client_connected, Servers_secret secret] @ l) (greeting @ GP_GUESS_REQ # t) rest buf
        (increment_clients_count (increment_clients_now_count s))))))"
    by blast
  show ?thesis by (simp add: run finished_def after_def game_updates)
qed

theorem pthread_routine_plays_witness:
  "\<exists>s'. pthread_routine (\<lambda>_. 0) (''ABCD'' @ [NUL]) (demo_game [gp_msg ''ABCD'']) = Some (Inr (Running s')) \<and>
    gs_win s' = 1 \<and> gs_now s' = 0 \<and> gs_count s' = 1"
proof -
  let ?s = "demo_game [gp_msg ''ABCD'']"
  have w: "waits [gp_msg ''ABCD''] ?s" by (simp add: waits_def demo_game_def)
  have play: "ref_play ''ABCD'' 0 [gp_msg ''ABCD''] =
      Some (guess_log ''ABCD'' ''ABCD'', [feedback_text 1 ''ABCD'' ''ABCD''], True)"
    by (simp add: demo_message demo_code Let_def)
  have l: "\<forall>m \<in> set [gp_msg ''ABCD'']. length m = GP_SIZE" by (simp add: demo_message)
  from pthread_routine_plays [OF demo_code w l play, of "\<lambda>_. 0"] show ?thesis
    by (auto simp: demo_game_def)
qed

text \<open>The game of the reference ends when the secret has been guessed or ten valid guesses
  have been made, and the client wins exactly when the secret is among the first ten valid
  guesses; invalid guesses do not count.\<close>

theorem ref_play_winner:
  assumes "secret \<in> secret_codes"
  shows "(ref_play secret 0 ms \<noteq> None \<longleftrightarrow>
      secret \<in> set (valid_guesses ms) \<or> MAX_GUESSES_COUNT \<le> length (valid_guesses ms)) \<and>
    (\<forall>l t won. ref_play secret 0 ms = Some (l, t, won) \<longrightarrow>
       (won \<longleftrightarrow> secret \<in> set (take MAX_GUESSES_COUNT (valid_guesses ms))))"
  using ref_play_ends [of 0 secret ms] ref_play_won [of 0 secret ms] assms
  by (simp add: MAX_GUESSES_COUNT_def)

theorem ref_play_winner_witness:
  "(ref_play ''ABCD'' 0 [] \<noteq> None \<longleftrightarrow>
      ''ABCD'' \<in> set (valid_guesses []) \<or> MAX_GUESSES_COUNT \<le> length (valid_guesses []))"
  using ref_play_winner [OF demo_code, of "[]"] by blast

text \<open>A thread whose client has shut down its sending side but still takes messages never
  returns: it waits for a valid guess, reads nothing, and tells the client that the guess
  is invalid, forever.\<close>

theorem silent_client_blocks_thread:
  assumes "incoming (gs_conn s) = []" and "write_evs (gs_conn s) = []" and "length (gs_buffer s) = GP_SIZE"
    and "c_string (gs_buffer s) \<notin> secret_codes"
  shows "read_guess s = None"
  using assms by (intro read_guess_silent) (simp add: silent_def)

theorem silent_client_blocks_thread_witness: "read_guess (demo_game []) = None"
proof (rule silent_client_blocks_thread)
  show "c_string (gs_buffer (demo_game [])) \<notin> secret_codes"
    by (simp add: demo_game_def GP_SIZE_def numeral_eq_Suc c_string_def secret_codes_def SECRET_CODE_LEN_def)
qed (simp_all add: demo_game_def)

end
