(* ===== verification/Log_Helpers.thy ===== *)
theory Log_Helpers
  imports C_Library "HOL-Library.Word"
begin

unbundle bit_operations_syntax

text \<open>
  What the server writes into its log besides the game (\<open>project2/print-helpers.c\<close>,
  \<open>project2/resource-usage.c\<close>): time stamps, addresses, and figures read from
  \<open>/proc/self/status\<close>. Addresses are machine words; the line that is read from the status
  file is a buffer of fixed size, in which a pointer is moved and a byte is written.
\<close>

section \<open>Time stamps and addresses\<close>

text \<open>The conversion \<open>%.kd\<close>: at least \<open>k\<close> digits.\<close>

definition pad_nat :: "nat \<Rightarrow> nat \<Rightarrow> string" where
  "pad_nat k n = replicate (k - length (show_nat n)) (CHR ''0'') @ show_nat n"

definition pad_int :: "nat \<Rightarrow> int \<Rightarrow> string" where
  "pad_int k x = (if x < 0 then CHR ''-'' # pad_nat k (nat (- x)) else pad_nat k (nat x))"

record tm =
  tm_sec :: int
  tm_min :: int
  tm_hour :: int
  tm_mday :: int
  tm_mon :: int
  tm_year :: int

text \<open>The time is \<open>None\<close> when \<open>time\<close> fails.\<close>

definition fprint_current_time :: "tm option \<Rightarrow> string res" where
  "fprint_current_time now =
     (case now of
        None \<Rightarrow> Inl (Exit 1)
      | Some t \<Rightarrow> Inr (''['' @ pad_int 2 (tm_mday t) @ '' '' @ pad_int 2 (tm_mon t + 1) @ '' '' @
          pad_int 4 (tm_year t + 1900) @ '' '' @ pad_int 2 (tm_hour t) @ '':'' @
          pad_int 2 (tm_min t) @ '':'' @ pad_int 2 (tm_sec t) @ '']''))"

text \<open>The address is a 32-bit word; it is widened to \<open>unsigned long\<close> before it is taken apart.\<close>

definition ip_octets :: "32 word \<Rightarrow> 8 word list" where
  "ip_octets s_addr =
     (let ip_address_as_ulong = (ucast s_addr :: 64 word) in
      [ucast (ip_address_as_ulong AND 0xFF),
       ucast (drop_bit 8 ip_address_as_ulong AND 0xFF),
       ucast (drop_bit 16 ip_address_as_ulong AND 0xFF),
       ucast (drop_bit 24 ip_address_as_ulong AND 0xFF)])"

definition fprint_ip_address :: "32 word \<Rightarrow> string" where
  "fprint_ip_address s_addr =
     (let octets = map uint (ip_octets s_addr) in
      ''('' @ show_int (octets ! 0) @ ''.'' @ show_int (octets ! 1) @ ''.'' @
      show_int (octets ! 2) @ ''.'' @ show_int (octets ! 3) @ '')'')"

definition fprint_current_time_and_ip_address :: "tm option \<Rightarrow> 32 word \<Rightarrow> string res" where
  "fprint_current_time_and_ip_address now s_addr =
     res_bind (fprint_current_time now) (\<lambda>t. Inr (t @ fprint_ip_address s_addr))"

section \<open>The status file\<close>

definition LINE_MAX_LEN_status :: nat where "LINE_MAX_LEN_status = 128"

text \<open>The string at a position of a buffer; it has to end inside the buffer.\<close>

definition string_at :: "string \<Rightarrow> nat \<Rightarrow> string res" where
  "string_at buf p = (if NUL \<in> set (drop p buf) then Inr (c_string (drop p buf)) else Inl OutOfBounds)"

text \<open>\<open>while (*line < '0' || *line > '9') line++\<close>; the result is how far the pointer is moved.\<close>

function find_digit :: "string \<Rightarrow> nat \<Rightarrow> nat res" where
  "find_digit buf p =
     (if p < length buf then (if isdigit (buf ! p) then Inr p else find_digit buf (p + 1))
      else Inl OutOfBounds)"
  by pat_completeness auto
termination
  by (relation "measure (\<lambda>(buf, p). length buf - p)") auto

declare find_digit.simps [simp del]

text \<open>The byte is written at \<open>i - 3\<close> from the moved pointer.\<close>

definition parse_proc_self_status_line :: "string \<Rightarrow> int res" where
  "parse_proc_self_status_line buf =
     res_bind (string_at buf 0) (\<lambda>str.
       let i = length str in
       res_bind (find_digit buf 0) (\<lambda>p.
       res_bind (if p + i < 3 then Inl OutOfBounds else write_at buf (p + i - 3) NUL) (\<lambda>buf'.
       res_bind (string_at buf' p) atoi)))"

text \<open>What \<open>fgets\<close> leaves in the buffer: the line, a null byte, and the rest as it was.\<close>

definition fill_line :: "string \<Rightarrow> string \<Rightarrow> string" where
  "fill_line line buf = line @ NUL # drop (length line + 1) buf"

definition starts_with :: "string \<Rightarrow> string \<Rightarrow> bool" where
  "starts_with field buf \<longleftrightarrow> take (length field) (c_string buf) = field"

lemma fgets_shorter: "fgets LINE_MAX_LEN_status fp = Some (line, fp') \<Longrightarrow> length fp' < length fp"
proof -
  assume f: "fgets LINE_MAX_LEN_status fp = Some (line, fp')"
  then obtain c cs where fp: "fp = c # cs" by (cases fp) (auto simp: fgets_def)
  then have "line \<noteq> []" using f
    by (auto simp: fgets_def LINE_MAX_LEN_status_def numeral_eq_Suc split: if_splits prod.splits)
  moreover have "line @ fp' = fp" using f read_line_length by (auto simp: fgets_def split: if_splits)
  ultimately show ?thesis by auto
qed

function info_loop :: "string \<Rightarrow> string \<Rightarrow> string \<Rightarrow> int res" where
  "info_loop field buf file =
     (case fgets LINE_MAX_LEN_status file of
        None \<Rightarrow> Inr (-1)
      | Some (line, file') \<Rightarrow>
          let buf' = fill_line line buf in
          if starts_with field buf' then parse_proc_self_status_line buf'
          else info_loop field buf' file')"
  by pat_completeness auto
termination
  by (relation "measure (\<lambda>(field, buf, file). length file)") (auto simp: fgets_shorter)

declare info_loop.simps [simp del]

text \<open>The file is \<open>None\<close> when it cannot be opened; the code does not test this.\<close>

definition get_proc_self_status_info :: "string option \<Rightarrow> string \<Rightarrow> string \<Rightarrow> int res" where
  "get_proc_self_status_info file garbage field =
     (case file of None \<Rightarrow> Inl NullDeref | Some f \<Rightarrow> info_loop field garbage f)"

section \<open>Octets\<close>

lemma uint_ucast_and_255: "uint (ucast (x AND 0xFF :: 64 word) :: 8 word) = uint x mod 256"
proof -
  have "x AND 0xFF = take_bit 8 x" by (simp add: take_bit_eq_mask mask_eq_exp_minus_1)
  then have "uint (ucast (x AND 0xFF) :: 8 word) = take_bit 8 (take_bit 8 (uint x))"
    by (simp only: unsigned_ucast_eq unsigned_take_bit_eq) simp
  then show ?thesis by (simp add: take_bit_eq_mod)
qed

lemma uint_drop_bit_div: "uint (drop_bit n (x :: 64 word)) = uint x div 2 ^ n"
proof -
  have "unat (drop_bit n x) = unat x div 2 ^ n" 
    by (rule unat_drop_bit_eq [of n x, unfolded drop_bit_eq_div [of n "unat x"]])
  then show ?thesis by (simp only: uint_nat of_nat_div of_nat_power of_nat_numeral)
qed

lemma ip_octets_values:
  "map uint (ip_octets a) = [uint a mod 256, uint a div 256 mod 256, uint a div 65536 mod 256, uint a div 16777216 mod 256]"
proof -
  have "uint (ucast a :: 64 word) = uint a" 
    using uint_lt2p [of a] by (simp add: unsigned_ucast_eq take_bit_eq_mod)
  then show ?thesis
    unfolding ip_octets_def Let_def list.map uint_ucast_and_255 uint_drop_bit_div by simp
qed


lemma ip_octets_bytes: "\<forall>o' \<in> set (map uint (ip_octets a)). 0 \<le> o' \<and> o' < 256"
  unfolding ip_octets_values by simp

text \<open>The four octets determine the address.\<close>

lemma base256:
  "x = q1 * 256 + r0 \<Longrightarrow> q1 = q2 * 256 + r1 \<Longrightarrow> q2 = q3 * 256 + r2 \<Longrightarrow>
    x = r0 + 256 * r1 + 65536 * r2 + 16777216 * (q3 :: int)"
  by simp

lemma ip_octets_inject: "map uint (ip_octets a) = map uint (ip_octets b) \<Longrightarrow> a = b"
proof -
  assume eq: "map uint (ip_octets a) = map uint (ip_octets b)"
  have sum: "x = x mod 256 + 256 * (x div 256 mod 256) + 65536 * (x div 65536 mod 256) +
      16777216 * (x div 16777216 mod 256)" if "0 \<le> x" "x < 4294967296" for x :: int
  proof -
    have d: "x div 65536 = x div 256 div 256" "x div 16777216 = x div 256 div 256 div 256"
      by (simp_all add: zdiv_zmult2_eq [symmetric])
    have "x div 256 div 256 div 256 < 256" "0 \<le> x div 256 div 256 div 256"
      using that by (simp_all add: zdiv_zmult2_eq [symmetric] div_less_iff_less_mult pos_imp_zdiv_nonneg_iff)
    then have "x div 256 div 256 div 256 mod 256 = x div 256 div 256 div 256" by simp
    then show ?thesis
      unfolding d by (simp only:) (rule base256; rule div_mult_mod_eq [symmetric])
  qed
  have range: "0 \<le> uint w \<and> uint w < 4294967296" for w :: "32 word"
    using uint_lt2p [of w] by simp
  note e = eq [unfolded ip_octets_values list.inject]
  have "uint a = uint a mod 256 + 256 * (uint a div 256 mod 256) + 65536 * (uint a div 65536 mod 256) +
      16777216 * (uint a div 16777216 mod 256)" by (rule sum) (use range in auto)
  also have "\<dots> = uint b mod 256 + 256 * (uint b div 256 mod 256) + 65536 * (uint b div 65536 mod 256) +
      16777216 * (uint b div 16777216 mod 256)" by (simp only: e)
  also have "\<dots> = uint b" by (rule sum [symmetric]) (use range in auto)
  finally have "uint a = uint b" .
  then show "a = b" by (rule word_uint_eqI)
qed

lemma split_at_separator:
  assumes "c \<notin> set xs" and "c \<notin> set ys" and "xs @ c # us = ys @ c # vs"
  shows "xs = ys \<and> us = vs"
  using assms
proof (induction xs arbitrary: ys)
  case Nil
  then show ?case by (cases ys) auto
next
  case (Cons x xs)
  then show ?case by (cases ys) auto
qed

lemma show_int_inject: "int_range x \<Longrightarrow> int_range y \<Longrightarrow> show_int x = show_int y \<Longrightarrow> x = y"
  by (metis append_Nil2 atoi_show_int c_int_ok sum.inject(2))

lemma separators_not_in_show_int: "CHR ''.'' \<notin> set (show_int x)" "CHR '')'' \<notin> set (show_int x)"
  using show_int_chars [of _ x] by (force simp: isdigit_def)+

section \<open>The figure in a status line\<close>

lemma find_digit_skip:
  assumes "\<forall>c \<in> set pre. \<not> isdigit c" and "isdigit d"
  shows "find_digit (pre @ d # rest) 0 = Inr (length pre)"
proof -
  have "find_digit (pre @ d # rest) (length pre - k) = Inr (length pre)" if "k \<le> length pre" for k
    using that
  proof (induction k)
    case 0
    then show ?case using assms(2) by (subst find_digit.simps) simp
  next
    case (Suc k)
    then have i: "length pre - Suc k < length pre" and nxt: "length pre - Suc k + 1 = length pre - k" by auto
    then have "\<not> isdigit ((pre @ d # rest) ! (length pre - Suc k))"
      using assms(1) by (simp add: nth_append)
    then have "find_digit (pre @ d # rest) (length pre - Suc k) = find_digit (pre @ d # rest) (length pre - k)"
      using i by (subst find_digit.simps) (simp only: nxt, simp)
    with Suc show ?case by simp
  qed
  from this [of "length pre"] show ?thesis by simp
qed

lemma c_string_stops: "NUL \<notin> set xs \<Longrightarrow> c_string (xs @ NUL # ys) = xs"
  unfolding c_string_def by (subst takeWhile_append2) auto

lemma digits_no_NUL: "NUL \<notin> set (show_nat n)"
  using isdigit_show_nat [of NUL n] isdigit_not_separator by blast

lemma list_update_beyond: "length xs \<le> i \<Longrightarrow> (xs @ ys)[i := v] = xs @ ys[i - length xs := v]"
  by (simp add: list_update_append)

text \<open>
  The byte is written so far behind the number that it does not change what \<open>atoi\<close> reads, and
  outside the buffer when the number stands far enough to the right.
\<close>

lemma parse_status_line:
  assumes pre: "\<forall>c \<in> set pre. \<not> isdigit c" "NUL \<notin> set pre" "3 \<le> length pre"
    and suf: "NUL \<notin> set suf" "suf \<noteq> []" "\<not> isdigit (hd suf)"
    and line: "line = pre @ show_nat n @ suf" and range: "int n \<le> INT_MAX"
    and buf: "length buf = LINE_MAX_LEN_status" "length line < LINE_MAX_LEN_status"
  shows "parse_proc_self_status_line (fill_line line buf) =
    (if length pre + length line < LINE_MAX_LEN_status + 3 then Inr (int n) else Inl OutOfBounds)"
proof -
  let ?tail = "drop (length line + 1) buf"
  let ?buf = "line @ NUL # ?tail"
  let ?w = "length pre + length line - 3"
  have nonul: "NUL \<notin> set line" using pre(2) suf(1) digits_no_NUL by (simp add: line)
  obtain d ds where ds: "show_nat n = d # ds" by (cases "show_nat n") auto
  have "isdigit d" using isdigit_show_nat [of d n] ds by simp
  then have p: "find_digit ?buf 0 = Inr (length pre)"
    using find_digit_skip [OF pre(1), of d "ds @ suf @ NUL # ?tail"] by (simp add: line ds)
  have len: "length ?buf = LINE_MAX_LEN_status" using buf by simp
  have start: "string_at ?buf 0 = Inr line" using c_string_stops [OF nonul] by (simp add: string_at_def)
  have far: "length line \<le> ?w" using pre(3) by simp
  have parse: "parse_proc_self_status_line (fill_line line buf) =
      res_bind (write_at ?buf ?w NUL) (\<lambda>buf'. res_bind (string_at buf' (length pre)) atoi)"
    unfolding parse_proc_self_status_line_def fill_line_def start p Let_def res_bind_simps using pre(3) by simp
  show ?thesis
  proof (cases "?w < LINE_MAX_LEN_status")
    case True
    have upd: "?buf[?w := NUL] = line @ (NUL # ?tail)[?w - length line := NUL]"
      by (rule list_update_beyond [OF far])
    obtain t where t: "(NUL # ?tail)[?w - length line := NUL] = NUL # t"
      by (cases "?w - length line") auto
    have "drop (length pre) (?buf[?w := NUL]) = (show_nat n @ suf) @ NUL # t"
      unfolding upd t by (simp add: line)
    moreover have "NUL \<notin> set (show_nat n @ suf)" using suf(1) digits_no_NUL by simp
    ultimately have "string_at (?buf[?w := NUL]) (length pre) = Inr (show_nat n @ suf)"
      using c_string_stops [of "show_nat n @ suf" t] by (simp add: string_at_def)
    moreover have "atoi (show_nat n @ suf) = Inr (int n)"
      using atoi_show_int [of suf "int n"] suf(3) range by (simp add: show_int_def int_rangeI)
    moreover have "write_at ?buf ?w NUL = Inr (?buf[?w := NUL])"
      using True len by (simp add: write_at_def)
    ultimately show ?thesis unfolding parse using True by auto
  next
    case False
    then have "write_at ?buf ?w NUL = Inl OutOfBounds" using len by (simp add: write_at_def)
    then show ?thesis unfolding parse using False by auto
  qed
qed

text \<open>Lines before the field are skipped.\<close>

lemma info_loop_skip:
  assumes "newline \<notin> set l" and "length l < LINE_MAX_LEN_status - 1"
    and "\<not> starts_with field (fill_line (l @ [newline]) buf)"
  shows "info_loop field buf (l @ newline # rest) = info_loop field (fill_line (l @ [newline]) buf) rest"
proof -
  have "fgets LINE_MAX_LEN_status (l @ newline # rest) = Some (l @ [newline], rest)"
    using read_line_whole [OF assms(1,2)] by (simp add: fgets_def)
  with assms(3) show ?thesis by (subst info_loop.simps) simp
qed

lemma info_loop_found:
  assumes "newline \<notin> set l" and "length l < LINE_MAX_LEN_status - 1"
    and "starts_with field (fill_line (l @ [newline]) buf)"
  shows "info_loop field buf (l @ newline # rest) = parse_proc_self_status_line (fill_line (l @ [newline]) buf)"
proof -
  have "fgets LINE_MAX_LEN_status (l @ newline # rest) = Some (l @ [newline], rest)"
    using read_line_whole [OF assms(1,2)] by (simp add: fgets_def)
  with assms(3) show ?thesis by (subst info_loop.simps) simp
qed

lemma starts_with_line:
  "NUL \<notin> set line \<Longrightarrow> starts_with field (fill_line line buf) \<longleftrightarrow> take (length field) line = field"
  by (simp add: starts_with_def fill_line_def c_string_stops)

lemma length_fill_line:
  "length line < length buf \<Longrightarrow> length (fill_line line buf) = length buf"
  by (simp add: fill_line_def)

section \<open>Properties\<close>

text \<open>The printed address determines the address: two clients are printed alike in the log
  only if their 32-bit addresses are equal, and each of the four numbers is a byte of the
  address, least significant first.\<close>

theorem fprint_ip_address_faithful:
  "map uint (ip_octets a) = [uint a mod 256, uint a div 256 mod 256, uint a div 65536 mod 256,
     uint a div 16777216 mod 256] \<and>
   (fprint_ip_address a = fprint_ip_address b \<longrightarrow> a = b)"
proof (intro conjI impI)
  show "map uint (ip_octets a) = [uint a mod 256, uint a div 256 mod 256, uint a div 65536 mod 256,
      uint a div 16777216 mod 256]" by (rule ip_octets_values)
  assume eq: "fprint_ip_address a = fprint_ip_address b"
  obtain a0 a1 a2 a3 where a: "map uint (ip_octets a) = [a0, a1, a2, a3]" using ip_octets_values by blast
  obtain b0 b1 b2 b3 where b: "map uint (ip_octets b) = [b0, b1, b2, b3]" using ip_octets_values by blast
  have range: "int_range x" if "0 \<le> x" "x < 256" for x
    using that by (simp add: int_range_def INT_MAX_def INT_MIN_def)
  note sep = separators_not_in_show_int
  have "show_int a0 @ CHR ''.'' # show_int a1 @ CHR ''.'' # show_int a2 @ CHR ''.'' # show_int a3 @ '')'' =
      show_int b0 @ CHR ''.'' # show_int b1 @ CHR ''.'' # show_int b2 @ CHR ''.'' # show_int b3 @ '')''"
    using eq by (simp add: fprint_ip_address_def a b)
  then have "show_int a0 = show_int b0 \<and> show_int a1 = show_int b1 \<and> show_int a2 = show_int b2 \<and>
      show_int a3 = show_int b3"
    by (metis split_at_separator [OF sep(1) sep(1)] append_same_eq)
  moreover have "0 \<le> x \<and> x < 256" if "x \<in> {a0, a1, a2, a3, b0, b1, b2, b3}" for x
    using that ip_octets_bytes [of a] ip_octets_bytes [of b] unfolding a b by auto
  ultimately have "map uint (ip_octets a) = map uint (ip_octets b)"
    unfolding a b by (auto intro!: show_int_inject range)
  then show "a = b" by (rule ip_octets_inject)
qed

theorem fprint_ip_address_faithful_witness:
  "fprint_ip_address 0x0100007F = ''(127.0.0.1)'' \<and> fprint_ip_address 0x0100007F \<noteq> fprint_ip_address 0x0200007F"
proof -
  have "(0x0100007F :: 32 word) \<noteq> 0x0200007F" by simp
  then have "fprint_ip_address 0x0100007F \<noteq> fprint_ip_address 0x0200007F"
    using fprint_ip_address_faithful [of "0x0100007F" "0x0200007F"] by blast
  moreover have "fprint_ip_address 0x0100007F = ''(127.0.0.1)''" by code_simp
  ultimately show ?thesis by simp
qed

text \<open>C39: In a status file whose lines fit the buffer, the figure of a field is the number in the
  first line that starts with the field; but the byte that should cut the line off behind
  the number is written as far behind the line as the number is from its start, and lies
  outside the buffer when the two lengths together exceed the buffer by three or more.\<close>

theorem get_proc_self_status_info_reads:
  assumes others: "\<forall>l \<in> set ls. newline \<notin> set l \<and> NUL \<notin> set l \<and> length l < LINE_MAX_LEN_status - 1 \<and>
      take (length field) (l @ [newline]) \<noteq> field"
    and line: "l = pre @ show_nat n @ suf" and field: "take (length field) (l @ [newline]) = field"
    and pre: "\<forall>c \<in> set pre. \<not> isdigit c" "3 \<le> length pre" and suf: "suf \<noteq> []" "\<not> isdigit (hd suf)"
    and chars: "newline \<notin> set l" "NUL \<notin> set l" and range: "int n \<le> INT_MAX"
    and len: "length l < LINE_MAX_LEN_status - 1" and garbage: "length garbage = LINE_MAX_LEN_status"
  shows "get_proc_self_status_info (Some (concat (map (\<lambda>l. l @ [newline]) ls) @ l @ newline # rest)) garbage field =
    (if length pre + length l < LINE_MAX_LEN_status + 2 then Inr (int n) else Inl OutOfBounds)"
proof -
  let ?file = "\<lambda>ls. concat (map (\<lambda>l. l @ [newline]) ls) @ l @ newline # rest"
  have "info_loop field garbage (?file ls) =
      (if length pre + length l < LINE_MAX_LEN_status + 2 then Inr (int n) else Inl OutOfBounds)"
    using others garbage
  proof (induction ls arbitrary: garbage)
    case Nil
    have "NUL \<notin> set (l @ [newline])" using chars(2) by (simp add: NUL_def newline_def)
    then have "starts_with field (fill_line (l @ [newline]) garbage)" using field by (simp add: starts_with_line)
    then have "info_loop field garbage (?file []) = parse_proc_self_status_line (fill_line (l @ [newline]) garbage)"
      using info_loop_found [OF chars(1) len] by simp
    also have "\<dots> = (if length pre + length (l @ [newline]) < LINE_MAX_LEN_status + 3 then Inr (int n) else Inl OutOfBounds)"
      using pre suf chars range len Nil.prems(2)
      by (intro parse_status_line [of pre "suf @ [newline]"]) (auto simp: line NUL_def newline_def LINE_MAX_LEN_status_def)
    finally show ?case by simp
  next
    case (Cons k ls)
    then have k: "newline \<notin> set k" "NUL \<notin> set k" "length k < LINE_MAX_LEN_status - 1"
      "take (length field) (k @ [newline]) \<noteq> field" by auto
    have "NUL \<notin> set (k @ [newline])" using k(2) by (simp add: NUL_def newline_def)
    then have "\<not> starts_with field (fill_line (k @ [newline]) garbage)" using k(4) by (simp add: starts_with_line)
    then have "info_loop field garbage (?file (k # ls)) = info_loop field (fill_line (k @ [newline]) garbage) (?file ls)"
      using info_loop_skip [OF k(1,3)] by simp
    also have "\<dots> = (if length pre + length l < LINE_MAX_LEN_status + 2 then Inr (int n) else Inl OutOfBounds)"
      using Cons.prems k(3) by (intro Cons.IH) (auto simp: length_fill_line)
    finally show ?case .
  qed
  then show ?thesis by (simp add: get_proc_self_status_info_def)
qed

theorem get_proc_self_status_info_reads_witness:
  "get_proc_self_status_info (Some (''Name: server'' @ newline # ''VmPeak:   4321 kB'' @ [newline]))
     (replicate 128 NUL) ''VmPeak'' = Inr 4321 \<and>
   get_proc_self_status_info (Some ((''VmPeak:'' @ replicate 70 (CHR '' '') @ ''4321 kB'') @ [newline]))
     (replicate 128 NUL) ''VmPeak'' = Inl OutOfBounds"
proof -
  have n: "show_nat 4321 = ''4321''" by code_simp
  have "get_proc_self_status_info (Some (concat (map (\<lambda>l. l @ [newline]) [''Name: server'']) @
      ''VmPeak:   4321 kB'' @ newline # [])) (replicate 128 NUL) ''VmPeak'' = Inr 4321"
    by (subst get_proc_self_status_info_reads [of _ _ _ "''VmPeak:   ''" 4321 "'' kB''"])
      (simp_all add: n isdigit_def newline_def NUL_def LINE_MAX_LEN_status_def INT_MAX_def)
  moreover have "get_proc_self_status_info (Some (concat (map (\<lambda>l. l @ [newline]) []) @
      (''VmPeak:'' @ replicate 70 (CHR '' '') @ ''4321 kB'') @ newline # [])) (replicate 128 NUL) ''VmPeak'' = Inl OutOfBounds"
    by (subst get_proc_self_status_info_reads [of _ _ _ "''VmPeak:'' @ replicate 70 (CHR '' '')" 4321 "'' kB''"])
      (simp_all add: n isdigit_def newline_def NUL_def LINE_MAX_LEN_status_def INT_MAX_def)
  ultimately show ?thesis by simp
qed

end
