(* ===== verification/Game_Client.thy ===== *)
theory Game_Client
  imports Game_Play Log_Helpers
begin

text \<open>
  The client of the game (\<open>project2/client.c\<close>): it shows what the server sends, asks for a
  guess when the server requests one and sends what is typed. The state has the connection,
  the message buffer, what is left of the standard input and what has been printed. The loop
  runs until the server ends the game; when the server is gone it runs forever, so it is a
  partial function. Over a connection that delivers the messages of a server the client
  shows each of them and answers each request with the next line typed; put together with
  the thread of the server this gives a whole game between the two programs.
\<close>

section \<open>The client\<close>

record client_state =
  cl_conn :: conn
  cl_buffer :: string
  cl_stdin :: string
  cl_out :: string

definition carriage_return :: char where "carriage_return = CHR 0x0D"

text \<open>
  \<open>fgets (buffer, GP_SIZE, stdin)\<close>: at the end of the input the buffer stays as it is, and the
  code does not notice.
\<close>

definition read_input :: "client_state \<Rightarrow> client_state" where
  "read_input s =
     (case fgets GP_SIZE (cl_stdin s) of
        None \<Rightarrow> s
      | Some (line, rest) \<Rightarrow> s\<lparr>cl_buffer := fill_line line (cl_buffer s), cl_stdin := rest\<rparr>)"

text \<open>\<open>buffer[strcspn (buffer, "\r\n")] = 0\<close>\<close>

definition cut_line :: "string \<Rightarrow> string res" where
  "cut_line buf =
     res_bind (string_at buf 0) (\<lambda>str.
       write_at buf (length (takeWhile (\<lambda>c. c \<noteq> carriage_return \<and> c \<noteq> newline) str)) NUL)"

definition ask :: "string \<Rightarrow> client_state \<Rightarrow> client_state res" where
  "ask prompt s =
     (let s1 = read_input (s\<lparr>cl_out := cl_out s @ prompt\<rparr>) in
      res_bind (cut_line (cl_buffer s1)) (\<lambda>buf.
        case send_message (cl_conn s1) buf GP_SIZE of (r, c) \<Rightarrow>
          Inr (s1\<lparr>cl_buffer := buf, cl_conn := c\<rparr>)))"

definition show_payload :: "client_state \<Rightarrow> client_state res" where
  "show_payload s =
     res_bind (string_at (cl_buffer s) GP_HEADER_SIZE) (\<lambda>str. Inr (s\<lparr>cl_out := cl_out s @ str\<rparr>))"

text \<open>One round of the loop; \<open>Break\<close> is \<open>is_end_game\<close>.\<close>

definition client_dispatch :: "client_state \<Rightarrow> client_state control res" where
  "client_dispatch s =
     (let b = cl_buffer s in
      if starts_with GP_DISP_MSG b then res_bind (show_payload s) (\<lambda>s'. Inr (Continue s'))
      else if starts_with GP_GUESS_REQ b then res_bind (ask ''> '' s) (\<lambda>s'. Inr (Continue s'))
      else if starts_with GP_GUESS_INV b
      then res_bind (ask (''Invalid guess.'' @ [newline] @ ''> '') s) (\<lambda>s'. Inr (Continue s'))
      else if starts_with GP_GUESS_FBK b then res_bind (show_payload s) (\<lambda>s'. Inr (Continue s'))
      else if starts_with GP_GAME_SUCC b
      then Inr (Break (s\<lparr>cl_out := cl_out s @ ''You win! =)'' @ [newline]\<rparr>))
      else if starts_with GP_GAME_FAIL b
      then Inr (Break (s\<lparr>cl_out := cl_out s @ ''You lose. Better luck next time.'' @ [newline]\<rparr>))
      else if starts_with GP_SERV_FULL b
      then Inr (Break (s\<lparr>cl_out := cl_out s @ ''Server is full. Try connecting later.'' @ [newline]\<rparr>))
      else Inr (Continue s))"

definition clear_buffer :: "client_state \<Rightarrow> client_state" where
  "clear_buffer s = s\<lparr>cl_buffer := replicate GP_SIZE NUL\<rparr>"

definition client_round :: "client_state \<Rightarrow> client_state control res" where
  "client_round s =
     res_bind (receive_message (cl_conn s) (cl_buffer s) GP_SIZE) (\<lambda>(r, buf, c).
     res_bind (client_dispatch (s\<lparr>cl_buffer := buf, cl_conn := c\<rparr>)) (\<lambda>ctl.
       Inr (case ctl of Break s' \<Rightarrow> Break (clear_buffer s') | Continue s' \<Rightarrow> Continue (clear_buffer s'))))"

partial_function (option) client_loop :: "client_state \<Rightarrow> client_state res option" where
  "client_loop s =
     (case client_round s of
        Inl e \<Rightarrow> Some (Inl e)
      | Inr ctl \<Rightarrow> (case ctl of Break s' \<Rightarrow> Some (Inr s') | Continue s' \<Rightarrow> client_loop s'))"

text \<open>The program arguments, and the system calls before the loop.\<close>

datatype client_call = Get_host string | Client_socket | Connect_to int

definition client_args :: "(client_call \<Rightarrow> bool) \<Rightarrow> string list \<Rightarrow> unit res" where
  "client_args works argv =
     (if length argv < 3 then Inl (Exit 1)
      else if \<not> works (Get_host (argv ! 1)) then Inl (Exit 1)
      else res_bind (atoi (argv ! 2)) (\<lambda>server_port.
             if works Client_socket \<and> works (Connect_to server_port) then Inr () else Inl (Exit 1)))"

definition client_main :: "(client_call \<Rightarrow> bool) \<Rightarrow> string list \<Rightarrow> conn \<Rightarrow> string \<Rightarrow> client_state res option" where
  "client_main works argv c stdin =
     (case client_args works argv of
        Inl e \<Rightarrow> Some (Inl e)
      | Inr _ \<Rightarrow> client_loop \<lparr>cl_conn = c, cl_buffer = replicate GP_SIZE NUL, cl_stdin = stdin, cl_out = []\<rparr>)"

section \<open>Messages of a server\<close>

definition headers :: "string set" where
  "headers = {GP_DISP_MSG, GP_GUESS_REQ, GP_GUESS_INV, GP_GUESS_FBK, GP_GAME_SUCC, GP_GAME_FAIL, GP_SERV_FULL}"

text \<open>A message is a header and a text that ends inside the buffer.\<close>

definition is_message :: "string \<Rightarrow> bool" where
  "is_message t \<longleftrightarrow> take GP_HEADER_SIZE t \<in> headers \<and> length t < GP_SIZE \<and> NUL \<notin> set t"

definition asks :: "string \<Rightarrow> bool" where
  "asks t \<longleftrightarrow> take GP_HEADER_SIZE t \<in> {GP_GUESS_REQ, GP_GUESS_INV}"

definition ends :: "string \<Rightarrow> bool" where
  "ends t \<longleftrightarrow> take GP_HEADER_SIZE t \<in> {GP_GAME_SUCC, GP_GAME_FAIL, GP_SERV_FULL}"

text \<open>What the client prints for a message.\<close>

definition shown :: "string \<Rightarrow> string" where
  "shown t =
     (let h = take GP_HEADER_SIZE t in
      if h = GP_GUESS_REQ then ''> ''
      else if h = GP_GUESS_INV then ''Invalid guess.'' @ [newline] @ ''> ''
      else if h = GP_GAME_SUCC then ''You win! =)'' @ [newline]
      else if h = GP_GAME_FAIL then ''You lose. Better luck next time.'' @ [newline]
      else if h = GP_SERV_FULL then ''Server is full. Try connecting later.'' @ [newline]
      else drop GP_HEADER_SIZE t)"

lemmas header_defs = GP_DISP_MSG_def GP_GUESS_REQ_def GP_GUESS_INV_def GP_GUESS_FBK_def GP_GAME_SUCC_def
  GP_GAME_FAIL_def GP_SERV_FULL_def

lemma header_lengths [simp]:
  "length GP_DISP_MSG = GP_HEADER_SIZE" "length GP_GUESS_REQ = GP_HEADER_SIZE"
  "length GP_GUESS_INV = GP_HEADER_SIZE" "length GP_GUESS_FBK = GP_HEADER_SIZE"
  "length GP_GAME_SUCC = GP_HEADER_SIZE" "length GP_GAME_FAIL = GP_HEADER_SIZE"
  "length GP_SERV_FULL = GP_HEADER_SIZE"
  by (simp_all add: header_defs GP_HEADER_SIZE_def)

lemma c_string_msg: "NUL \<notin> set t \<Longrightarrow> c_string (gp_msg t) = t"
  by (rule c_string_gp_msg)

lemma starts_with_msg:
  "NUL \<notin> set t \<Longrightarrow> length field = GP_HEADER_SIZE \<Longrightarrow>
   starts_with field (gp_msg t) \<longleftrightarrow> take GP_HEADER_SIZE t = field"
  by (simp add: starts_with_def c_string_msg)

lemma headers_distinct [simp]:
  "GP_DISP_MSG \<noteq> GP_GUESS_REQ" "GP_DISP_MSG \<noteq> GP_GUESS_INV" "GP_DISP_MSG \<noteq> GP_GUESS_FBK"
  "GP_DISP_MSG \<noteq> GP_GAME_SUCC" "GP_DISP_MSG \<noteq> GP_GAME_FAIL" "GP_DISP_MSG \<noteq> GP_SERV_FULL"
  "GP_GUESS_REQ \<noteq> GP_GUESS_INV" "GP_GUESS_REQ \<noteq> GP_GUESS_FBK" "GP_GUESS_REQ \<noteq> GP_GAME_SUCC"
  "GP_GUESS_REQ \<noteq> GP_GAME_FAIL" "GP_GUESS_REQ \<noteq> GP_SERV_FULL" "GP_GUESS_INV \<noteq> GP_GUESS_FBK"
  "GP_GUESS_INV \<noteq> GP_GAME_SUCC" "GP_GUESS_INV \<noteq> GP_GAME_FAIL" "GP_GUESS_INV \<noteq> GP_SERV_FULL"
  "GP_GUESS_FBK \<noteq> GP_GAME_SUCC" "GP_GUESS_FBK \<noteq> GP_GAME_FAIL" "GP_GUESS_FBK \<noteq> GP_SERV_FULL"
  "GP_GAME_SUCC \<noteq> GP_GAME_FAIL" "GP_GAME_SUCC \<noteq> GP_SERV_FULL" "GP_GAME_FAIL \<noteq> GP_SERV_FULL"
  by (simp_all add: header_defs)

lemmas headers_distinct_sym [simp] = headers_distinct [symmetric]

section \<open>Rounds of the client\<close>

text \<open>The client over a connection that delivers the messages \<open>ts\<close>, with what will be typed.\<close>

definition faces :: "string list \<Rightarrow> string \<Rightarrow> client_state \<Rightarrow> bool" where
  "faces ts typed s \<longleftrightarrow> incoming (cl_conn s) = map (\<lambda>t. Chunk (gp_msg t)) ts \<and> write_evs (cl_conn s) = [] \<and>
     cl_buffer s = replicate GP_SIZE NUL \<and> cl_stdin s = typed"

text \<open>The state after the client has printed \<open>out\<close>, sent \<open>ms\<close> and taken messages and lines.\<close>

definition moved :: "string \<Rightarrow> string list \<Rightarrow> string list \<Rightarrow> string \<Rightarrow> client_state \<Rightarrow> client_state" where
  "moved out ms ts typed s = s\<lparr>cl_out := cl_out s @ out, cl_stdin := typed, cl_buffer := replicate GP_SIZE NUL,
     cl_conn := (cl_conn s)\<lparr>incoming := map (\<lambda>t. Chunk (gp_msg t)) ts,
       delivered := delivered (cl_conn s) @ concat ms\<rparr>\<rparr>"

lemma faces_moved: "faces ts' typed' s \<Longrightarrow> faces ts typed (moved out ms ts typed s)"
  by (simp add: faces_def moved_def)

lemma moved_moved [simp]:
  "moved out' ms' ts' typed' (moved out ms ts typed s) = moved (out @ out') (ms @ ms') ts' typed' s"
  by (simp add: moved_def)

definition typable :: "string \<Rightarrow> bool" where
  "typable l \<longleftrightarrow> newline \<notin> set l \<and> carriage_return \<notin> set l \<and> NUL \<notin> set l \<and> length l \<le> GP_SIZE - 2"

lemma receive_text:
  assumes "faces (t # ts) typed s" and "length t \<le> GP_SIZE"
  shows "receive_message (cl_conn s) (cl_buffer s) GP_SIZE =
    Inr (int GP_SIZE, gp_msg t, (cl_conn s)\<lparr>incoming := map (\<lambda>t. Chunk (gp_msg t)) ts\<rparr>)"
proof -
  have len: "length (gp_msg t) = GP_SIZE" using assms(2) by (rule length_gp_msg)
  then have "gp_msg t \<noteq> []" by (auto simp: GP_SIZE_def)
  with receive_message_chunks [of "[gp_msg t]" "gp_msg t" "cl_buffer s" "cl_conn s" "map (\<lambda>t. Chunk (gp_msg t)) ts"]
    assms(1) len show ?thesis by (simp add: faces_def READ_ATTEMPTS_MAX_COUNT_def)
qed

lemma payload_of_msg:
  assumes "is_message t"
  shows "string_at (gp_msg t) GP_HEADER_SIZE = Inr (drop GP_HEADER_SIZE t)"
proof -
  have len: "GP_HEADER_SIZE \<le> length t" "length t < GP_SIZE" "NUL \<notin> set t"
    using assms by (auto simp: is_message_def headers_def header_defs GP_HEADER_SIZE_def dest!: arg_cong [of _ _ length])
  obtain k where k: "GP_SIZE - length t = Suc k" using len(2) by (metis Suc_diff_Suc)
  have "drop GP_HEADER_SIZE (gp_msg t) = drop GP_HEADER_SIZE t @ NUL # replicate k NUL"
    using len(1) by (simp add: gp_msg_def k)
  moreover have "NUL \<notin> set (drop GP_HEADER_SIZE t)" using len(3) by (meson in_set_dropD)
  ultimately show ?thesis using c_string_stops by (simp add: string_at_def)
qed

lemma cut_typed_line:
  assumes "typable l" and "length buf = GP_SIZE"
  shows "cut_line (fill_line (l @ [newline]) buf) = Inr (l @ NUL # NUL # drop (length l + 2) buf)"
proof -
  have nul: "NUL \<notin> set (l @ [newline])" using assms(1) by (simp add: typable_def NUL_def newline_def)
  have str: "string_at (fill_line (l @ [newline]) buf) 0 = Inr (l @ [newline])"
    using c_string_stops [OF nul] by (simp add: string_at_def fill_line_def)
  have "takeWhile (\<lambda>c. c \<noteq> carriage_return \<and> c \<noteq> newline) (l @ [newline]) = l"
    using assms(1) by (subst takeWhile_append2) (auto simp: typable_def)
  then show ?thesis
    unfolding cut_line_def str res_bind_simps using assms
    by (simp add: write_at_def fill_line_def typable_def list_update_append)
qed

lemma ask_typed_line:
  assumes "faces ts0 (l @ newline # typed) s" and "typable l" and "length buf = GP_SIZE"
  shows "ask prompt (s\<lparr>cl_buffer := buf, cl_conn := c\<lparr>write_evs := []\<rparr>\<rparr>) =
    Inr (s\<lparr>cl_buffer := l @ NUL # NUL # drop (length l + 2) buf, cl_out := cl_out s @ prompt, cl_stdin := typed,
      cl_conn := c\<lparr>write_evs := [], delivered := delivered c @ l @ NUL # NUL # drop (length l + 2) buf\<rparr>\<rparr>)"
proof -
  have read: "fgets GP_SIZE (l @ newline # typed) = Some (l @ [newline], typed)"
    using assms(2) read_line_whole [of l "GP_SIZE - 1" typed]
    by (simp add: fgets_def typable_def GP_SIZE_def)
  have len: "length (l @ NUL # NUL # drop (length l + 2) buf) = GP_SIZE"
    using assms(2,3) by (simp add: typable_def GP_SIZE_def)
  show ?thesis
    using assms(1) send_message_clean [OF _ len, of "c\<lparr>write_evs := []\<rparr>"]
    by (simp add: ask_def read_input_def read faces_def cut_typed_line [OF assms(2,3)])
qed

lemma client_round_shows:
  assumes "faces (t # ts) typed s" and "is_message t" and "\<not> asks t" and "\<not> ends t"
  shows "client_round s = Inr (Continue (moved (shown t) [] ts typed s))"
proof -
  have t: "NUL \<notin> set t" "length t \<le> GP_SIZE" "take GP_HEADER_SIZE t \<in> {GP_DISP_MSG, GP_GUESS_FBK}"
    using assms(2-4) by (auto simp: is_message_def headers_def asks_def ends_def)
  let ?s = "s\<lparr>cl_buffer := gp_msg t, cl_conn := (cl_conn s)\<lparr>incoming := map (\<lambda>t. Chunk (gp_msg t)) ts\<rparr>\<rparr>"
  have pay: "show_payload ?s = Inr (?s\<lparr>cl_out := cl_out s @ drop GP_HEADER_SIZE t\<rparr>)"
    by (simp add: show_payload_def payload_of_msg [OF assms(2)])
  have sh: "shown t = drop GP_HEADER_SIZE t" using t(3) by (auto simp: shown_def)
  have d: "client_dispatch ?s = Inr (Continue (?s\<lparr>cl_out := cl_out s @ drop GP_HEADER_SIZE t\<rparr>))"
    using t(3) pay by (auto simp: client_dispatch_def Let_def starts_with_msg [OF t(1)])
  show ?thesis
    unfolding client_round_def receive_text [OF assms(1) t(2)] res_bind_simps prod.case d
    using assms(1) by (simp add: clear_buffer_def moved_def sh faces_def)
qed

lemma client_round_ends:
  assumes "faces (t # ts) typed s" and "is_message t" and "ends t"
  shows "client_round s = Inr (Break (moved (shown t) [] ts typed s))"
proof -
  have t: "NUL \<notin> set t" "length t \<le> GP_SIZE" using assms(2) by (auto simp: is_message_def)
  let ?s = "s\<lparr>cl_buffer := gp_msg t, cl_conn := (cl_conn s)\<lparr>incoming := map (\<lambda>t. Chunk (gp_msg t)) ts\<rparr>\<rparr>"
  have d: "client_dispatch ?s = Inr (Break (?s\<lparr>cl_out := cl_out s @ shown t\<rparr>))"
    using assms(3) by (auto simp: client_dispatch_def Let_def starts_with_msg [OF t(1)] ends_def shown_def)
  show ?thesis
    unfolding client_round_def receive_text [OF assms(1) t(2)] res_bind_simps prod.case d
    using assms(1) by (simp add: clear_buffer_def moved_def faces_def)
qed

lemma client_round_asks:
  assumes "faces (t # ts) (l @ newline # typed) s" and "is_message t" and "asks t" and "typable l"
  shows "\<exists>m. client_round s = Inr (Continue (moved (shown t) [m] ts typed s)) \<and> c_string m = l \<and> length m = GP_SIZE"
proof -
  have t: "NUL \<notin> set t" "length t \<le> GP_SIZE" using assms(2) by (auto simp: is_message_def)
  have len: "length (gp_msg t) = GP_SIZE" by (rule length_gp_msg [OF t(2)])
  let ?c = "(cl_conn s)\<lparr>incoming := map (\<lambda>t. Chunk (gp_msg t)) ts\<rparr>"
  let ?s = "s\<lparr>cl_buffer := gp_msg t, cl_conn := ?c\<rparr>"
  let ?m = "l @ NUL # NUL # drop (length l + 2) (gp_msg t)"
  have c: "?c\<lparr>write_evs := []\<rparr> = ?c" using assms(1) by (simp add: faces_def)
  have "client_dispatch ?s = res_bind (ask (shown t) ?s) (\<lambda>s'. Inr (Continue s'))"
    using assms(3) by (auto simp: client_dispatch_def Let_def starts_with_msg [OF t(1)] asks_def shown_def)
  also have "\<dots> = Inr (Continue (s\<lparr>cl_buffer := ?m, cl_out := cl_out s @ shown t, cl_stdin := typed,
      cl_conn := ?c\<lparr>delivered := delivered (cl_conn s) @ ?m\<rparr>\<rparr>))"
    using ask_typed_line [OF assms(1,4) len, of "shown t" ?c] c by simp
  finally have d: "client_dispatch ?s = \<dots>" .
  have "client_round s = Inr (Continue (moved (shown t) [?m] ts typed s))"
    unfolding client_round_def receive_text [OF assms(1) t(2)] res_bind_simps prod.case d
    by (simp add: clear_buffer_def moved_def)
  moreover have "c_string ?m = l" using assms(4) by (intro c_string_stops) (simp add: typable_def)
  moreover have "length ?m = GP_SIZE" using assms(4) len by (simp add: typable_def GP_SIZE_def)
  ultimately show ?thesis by blast
qed

section \<open>The client and a whole conversation\<close>

definition prompts :: "string list \<Rightarrow> nat" where
  "prompts ts = length (filter asks ts)"

lemma client_loop_continue: "client_round s = Inr (Continue s') \<Longrightarrow> client_loop s = client_loop s'"
  by (subst client_loop.simps) simp

lemma client_loop_break: "client_round s = Inr (Break s') \<Longrightarrow> client_loop s = Some (Inr s')"
  by (subst client_loop.simps) simp

lemma client_loop_conversation:
  assumes "faces (ts @ e # later) (concat (map (\<lambda>l. l @ [newline]) ls) @ rest) s"
    and "\<forall>t \<in> set ts. is_message t \<and> \<not> ends t" and "is_message e" and "ends e"
    and "\<forall>l \<in> set ls. typable l" and "prompts ts = length ls"
  shows "\<exists>ms. client_loop s = Some (Inr (moved (concat (map shown (ts @ [e]))) ms later rest s)) \<and>
    map c_string ms = ls \<and> (\<forall>m \<in> set ms. length m = GP_SIZE)"
  using assms
proof (induction ts arbitrary: s ls)
  case Nil
  then have "ls = []" by (simp add: prompts_def)
  with Nil client_loop_break [OF client_round_ends [of e later rest s]] show ?case
    by (intro exI [of _ "[]"]) simp
next
  case (Cons t ts)
  show ?case
  proof (cases "asks t")
    case False
    let ?s = "moved (shown t) [] (ts @ e # later) (concat (map (\<lambda>l. l @ [newline]) ls) @ rest) s"
    have "client_loop s = client_loop ?s"
      using client_loop_continue [OF client_round_shows [of t "ts @ e # later" _ s]] Cons.prems False by simp
    moreover have "faces (ts @ e # later) (concat (map (\<lambda>l. l @ [newline]) ls) @ rest) ?s"
      by (rule faces_moved [OF Cons.prems(1)])
    moreover have "prompts ts = length ls" using Cons.prems(6) False by (simp add: prompts_def)
    ultimately show ?thesis using Cons.IH [of ls ?s] Cons.prems by simp
  next
    case True
    then obtain l ls' where ls: "ls = l # ls'" "prompts ts = length ls'"
      using Cons.prems(6) by (cases ls) (auto simp: prompts_def)
    let ?typed = "concat (map (\<lambda>l. l @ [newline]) ls') @ rest"
    have f: "faces (t # ts @ e # later) (l @ newline # ?typed) s" using Cons.prems(1) ls by simp
    from client_round_asks [OF f _ True] Cons.prems ls obtain m where
      m: "client_round s = Inr (Continue (moved (shown t) [m] (ts @ e # later) ?typed s))" "c_string m = l"
        "length m = GP_SIZE" by auto
    let ?s = "moved (shown t) [m] (ts @ e # later) ?typed s"
    have "faces (ts @ e # later) ?typed ?s" by (rule faces_moved [OF Cons.prems(1)])
    from Cons.IH [OF this _ Cons.prems(3,4) _ ls(2)] Cons.prems ls obtain ms where
      "client_loop ?s = Some (Inr (moved (concat (map shown (ts @ [e]))) ms later rest ?s))"
      "map c_string ms = ls'" "\<forall>m \<in> set ms. length m = GP_SIZE" by auto
    with client_loop_continue [OF m(1)] m(2,3) ls show ?thesis by (intro exI [of _ "m # ms"]) simp
  qed
qed

text \<open>When the server is gone, no message ends the loop.\<close>

lemma client_round_alone:
  assumes "faces [] typed s"
  shows "client_round s = Inr (Continue s)"
proof -
  let ?z = "replicate GP_SIZE NUL"
  have recv: "receive_message (cl_conn s) (cl_buffer s) GP_SIZE = Inr (READ_ERROR, ?z, cl_conn s)"
    using assms receive_loop_silent [of "cl_conn s" 0 ?z GP_SIZE 0]
    by (simp add: receive_message_def faces_def GP_SIZE_def)
  have z: "?z = gp_msg []" by (simp add: gp_msg_def)
  have no: "\<not> starts_with h ?z" if "h \<in> headers" for h
    using that unfolding z by (subst starts_with_msg) (auto simp: headers_def header_defs GP_HEADER_SIZE_def)
  have "client_dispatch (s\<lparr>cl_buffer := ?z, cl_conn := cl_conn s\<rparr>) = Inr (Continue (s\<lparr>cl_buffer := ?z\<rparr>))"
    using no by (simp add: client_dispatch_def Let_def headers_def)
  moreover have "s\<lparr>cl_buffer := ?z\<rparr> = s" using assms by (simp add: faces_def)
  ultimately show ?thesis by (simp add: client_round_def recv clear_buffer_def)
qed

lemma client_loop_alone: "faces [] typed s \<Longrightarrow> client_loop s = None"
proof (rule ccontr)
  assume f: "faces [] typed s" and "client_loop s \<noteq> None"
  then obtain r where r: "client_loop s = Some r" by auto
  have "\<not> faces [] typed s"
  proof (rule client_loop.raw_induct [OF _ r], rule notI)
    fix rec s r
    assume IH: "\<And>s r. rec s = Some r \<Longrightarrow> \<not> faces [] typed s" and f: "faces [] typed s"
      and body: "(case client_round s of Inl e \<Rightarrow> Some (Inl e) | Inr ctl \<Rightarrow>
          (case ctl of Break s' \<Rightarrow> Some (Inr s') | Continue s' \<Rightarrow> rec s')) = Some r"
    from client_round_alone [OF f] body IH f show False by auto
  qed
  with f show False by simp
qed

section \<open>A game between client and server\<close>

lemma ref_play_c_string: "map c_string ms = map c_string ms' \<Longrightarrow> ref_play secret n ms = ref_play secret n ms'"
proof (induction ms arbitrary: ms' n)
  case Nil
  then show ?case by simp
next
  case (Cons m ms)
  then obtain k ks where "ms' = k # ks" "c_string m = c_string k" "map c_string ms = map c_string ks" by auto
  with Cons.IH show ?case by (simp add: Let_def)
qed

lemma asks_texts [simp]:
  "asks GP_GUESS_REQ" "asks GP_GUESS_INV" "\<not> asks (feedback_text n secret guess)"
  "\<not> asks (GP_DISP_MSG @ p)"
  by (simp_all add: asks_def feedback_text_def split: prod.splits)

text \<open>The game takes one message for the first request and one for each further one.\<close>

lemma ref_play_takes:
  "ref_play secret n ms = Some (l, t, won) \<Longrightarrow>
   Suc (prompts t) \<le> length ms \<and> ref_play secret n (take (Suc (prompts t)) ms) = Some (l, t, won)"
proof (induction ms arbitrary: n l t)
  case Nil
  then show ?case by simp
next
  case (Cons m ms)
  show ?case
  proof (cases "c_string m \<in> secret_codes \<and> (c_string m = secret \<or> n + 1 = MAX_GUESSES_COUNT)")
    case True
    with Cons.prems show ?thesis by (auto simp: Let_def prompts_def split: if_splits)
  next
    case False
    let ?n = "if c_string m \<in> secret_codes then n + 1 else n"
    from False Cons.prems obtain l' t' where rest: "ref_play secret ?n ms = Some (l', t', won)"
      and pt: "prompts t = Suc (prompts t')"
      by (auto simp: Let_def prompts_def split: if_splits)
    from Cons.IH [OF rest] have IH: "Suc (prompts t') \<le> length ms"
      "ref_play secret ?n (take (Suc (prompts t')) ms) = Some (l', t', won)" by auto
    show ?thesis unfolding pt using Cons.prems False rest IH by (auto simp: Let_def split: if_splits)
  qed
qed

text \<open>Every text of the server is a message that does not end the game, but the last.\<close>

lemma feedback_text_message:
  assumes "secret \<in> secret_codes" and "guess \<in> secret_codes" and "n \<le> MAX_GUESSES_COUNT"
  shows "is_message (feedback_text n secret guess) \<and> \<not> ends (feedback_text n secret guess)"
proof -
  obtain p c where h: "hint secret guess = (p, c)" by fastforce
  have g: "c_string guess = guess"
    using secret_codes_no_NUL [OF assms(2)] by (auto simp: c_string_def takeWhile_eq_all_conv)
  have len: "length (feedback_text n secret guess) < GP_SIZE"
    using feedback_of_valid(2,3) [OF assms(1), of guess] assms(2,3) unfolding g feedback_text_def hint_def prod.case
    by (intro feedback_message_fits(2)) (auto simp: MAX_GUESSES_COUNT_def)
  have "NUL \<notin> set (feedback_message n p c)"
    using show_int_chars [of NUL] isdigit_not_separator [of NUL]
    by (auto simp: feedback_message_def NUL_def newline_def)
  with len show ?thesis
    by (simp add: feedback_text_def h is_message_def ends_def headers_def) (simp add: header_defs NUL_def)
qed

lemma ref_play_messages:
  "secret \<in> secret_codes \<Longrightarrow> n < MAX_GUESSES_COUNT \<Longrightarrow> ref_play secret n ms = Some (l, t, won) \<Longrightarrow>
   \<forall>x \<in> set t. is_message x \<and> \<not> ends x"
proof (induction ms arbitrary: n l t)
  case Nil
  then show ?case by simp
next
  case (Cons m ms)
  have fixed: "is_message GP_GUESS_REQ \<and> \<not> ends GP_GUESS_REQ" "is_message GP_GUESS_INV \<and> \<not> ends GP_GUESS_INV"
    using gp_texts_fit by (simp_all add: is_message_def ends_def headers_def) (simp_all add: header_defs NUL_def)
  show ?case
  proof (cases "c_string m \<in> secret_codes")
    case False
    with Cons.prems obtain t' where "ref_play secret n ms = Some (l, t', won)" "t = GP_GUESS_INV # t'"
      by (auto simp: Let_def)
    with Cons.IH [OF Cons.prems(1,2)] fixed show ?thesis by simp
  next
    case True
    have fb: "is_message (feedback_text (n + 1) secret (c_string m)) \<and> \<not> ends (feedback_text (n + 1) secret (c_string m))"
      by (rule feedback_text_message) (use Cons.prems True in auto)
    show ?thesis
    proof (cases "c_string m = secret \<or> n + 1 = MAX_GUESSES_COUNT")
      case True
      with \<open>c_string m \<in> secret_codes\<close> Cons.prems(3) fb show ?thesis by (auto simp: Let_def split: if_splits)
    next
      case False
      with True Cons.prems(3) obtain l' t' where "ref_play secret (n + 1) ms = Some (l', t', won)"
        "t = feedback_text (n + 1) secret (c_string m) # GP_GUESS_REQ # t'" by (auto simp: Let_def)
      with Cons.IH [of "n + 1"] Cons.prems(1,2) False fb fixed show ?thesis by auto
    qed
  qed
qed

lemma greeting_messages: "\<forall>x \<in> set greeting. is_message x \<and> \<not> ends x \<and> \<not> asks x"
  using gp_texts_fit(5-7) unfolding greeting_def
  by (auto simp: is_message_def ends_def headers_def)
    (simp_all add: header_defs NUL_def WELCOME_MESSAGE_def INSTRUCTIONS_1_MESSAGE_def INSTRUCTIONS_2_MESSAGE_def newline_def)

definition ending :: "bool \<Rightarrow> string" where
  "ending won = (if won then GP_GAME_SUCC else GP_GAME_FAIL)"

lemma ending_message: "is_message (ending won) \<and> ends (ending won)"
  using gp_texts_fit by (simp add: ending_def is_message_def ends_def headers_def) (simp add: header_defs NUL_def)

definition client_start :: "string list \<Rightarrow> string \<Rightarrow> client_state" where
  "client_start ts typed = \<lparr>cl_conn = \<lparr>incoming = map (\<lambda>t. Chunk (gp_msg t)) ts, write_evs = [], delivered = []\<rparr>,
     cl_buffer = replicate GP_SIZE NUL, cl_stdin = typed, cl_out = []\<rparr>"

lemma client_start_empty: "cl_out (client_start ts typed) = []" "delivered (cl_conn (client_start ts typed)) = []"
  by (simp_all add: client_start_def)

lemma faces_client_start: "faces ts typed (client_start ts typed)"
  by (simp add: faces_def client_start_def)

section \<open>Properties\<close>

text \<open>Over a connection that delivers messages of the protocol up to one that ends the game,
  the client ends; it has printed each message as it should, has answered each request with
  the next line that was typed, as a message of full size, and has read no further lines.\<close>

theorem client_loop_follows_server:
  assumes "faces (ts @ [e]) (concat (map (\<lambda>l. l @ [newline]) ls) @ rest) s"
    and "\<forall>t \<in> set ts. is_message t \<and> \<not> ends t" and "is_message e" and "ends e"
    and "\<forall>l \<in> set ls. typable l" and "prompts ts = length ls"
  shows "\<exists>s' ms. client_loop s = Some (Inr s') \<and> cl_out s' = cl_out s @ concat (map shown (ts @ [e])) \<and>
    delivered (cl_conn s') = delivered (cl_conn s) @ concat ms \<and> map c_string ms = ls \<and>
    (\<forall>m \<in> set ms. length m = GP_SIZE) \<and> cl_stdin s' = rest"
  using client_loop_conversation [OF assms] by (auto simp: moved_def)

theorem client_loop_follows_server_witness:
  "\<exists>s' ms. client_loop (client_start [GP_GUESS_REQ, GP_GAME_SUCC] (''ABCD'' @ [newline])) = Some (Inr s') \<and>
     cl_out s' = ''> You win! =)'' @ [newline] \<and> delivered (cl_conn s') = concat ms \<and> map c_string ms = [''ABCD'']"
proof -
  have m: "is_message GP_GUESS_REQ" "is_message GP_GAME_SUCC" "\<not> ends GP_GUESS_REQ" "ends GP_GAME_SUCC"
    using ending_message [of True] by (simp_all add: ending_def is_message_def headers_def ends_def)
      (simp_all add: header_defs NUL_def GP_SIZE_def)
  have f: "faces ([GP_GUESS_REQ] @ [GP_GAME_SUCC]) (concat (map (\<lambda>l. l @ [newline]) [''ABCD'']) @ [])
      (client_start [GP_GUESS_REQ, GP_GAME_SUCC] (''ABCD'' @ [newline]))"
    using faces_client_start [of "[GP_GUESS_REQ, GP_GAME_SUCC]" "''ABCD'' @ [newline]"] by simp
  have "typable ''ABCD''" by (simp add: typable_def NUL_def newline_def carriage_return_def GP_SIZE_def)
  with m have "\<forall>t \<in> set [GP_GUESS_REQ]. is_message t \<and> \<not> ends t" "\<forall>l \<in> set [''ABCD'']. typable l"
    "prompts [GP_GUESS_REQ] = length [''ABCD'']" by (simp_all add: prompts_def)
  from client_loop_follows_server [OF f this(1) m(2,4) this(2,3), unfolded client_start_empty append_Nil]
  obtain s' ms where
    "client_loop (client_start [GP_GUESS_REQ, GP_GAME_SUCC] (''ABCD'' @ [newline])) = Some (Inr s')"
    "cl_out s' = concat (map shown ([GP_GUESS_REQ] @ [GP_GAME_SUCC]))" "delivered (cl_conn s') = concat ms"
    "map c_string ms = [''ABCD'']"
    by (elim exE conjE) (rule that)
  then show ?thesis by (intro exI [of _ s'] exI [of _ ms]) (simp add: shown_def)
qed

text \<open>C6: A whole game: when the lines typed end the game of the reference for a secret code, the
  client and a thread of the server play it together. There are messages such that the
  client, receiving what the server sends, sends exactly these, and the thread, receiving
  these, sends exactly what the client received; both end, and the last thing that the
  client prints tells whether the secret was among the first ten valid guesses.\<close>

theorem client_and_server_play:
  assumes secret: "secret \<in> secret_codes" and typed: "\<forall>l \<in> set ls. typable l"
    and play: "ref_play secret 0 (map gp_msg ls) = Some (l, t, won)"
    and conversation: "ts = greeting @ GP_GUESS_REQ # t @ [ending won]"
  shows "\<exists>ms s' g'. client_loop (client_start ts (concat (map (\<lambda>l. l @ [newline]) ls))) = Some (Inr s') \<and>
    delivered (cl_conn s') = concat ms \<and> map c_string ms = take (Suc (prompts t)) ls \<and>
    pthread_routine rand (secret @ [NUL]) (demo_game ms) = Some (Inr (Running g')) \<and>
    delivered (gs_conn g') = concat (map gp_msg ts) \<and>
    cl_out s' = concat (map shown (greeting @ GP_GUESS_REQ # t)) @ shown (ending won) \<and>
    (won \<longleftrightarrow> secret \<in> set (take MAX_GUESSES_COUNT (valid_guesses (map gp_msg ls))))"
proof -
  let ?k = "Suc (prompts t)"
  have n0: "0 < MAX_GUESSES_COUNT" by (simp add: MAX_GUESSES_COUNT_def)
  have takes: "?k \<le> length ls" "ref_play secret 0 (take ?k (map gp_msg ls)) = Some (l, t, won)"
    using ref_play_takes [OF play] by auto
  let ?typed = "concat (map (\<lambda>l. l @ [newline]) ls)"
  have "?typed = concat (map (\<lambda>l. l @ [newline]) (take ?k ls)) @ concat (map (\<lambda>l. l @ [newline]) (drop ?k ls))"
    by (simp flip: concat_append map_append)
  then have f: "faces ((greeting @ GP_GUESS_REQ # t) @ [ending won])
      (concat (map (\<lambda>l. l @ [newline]) (take ?k ls)) @ concat (map (\<lambda>l. l @ [newline]) (drop ?k ls)))
      (client_start ts ?typed)"
    using faces_client_start [of ts ?typed] by (simp add: conversation)
  have "filter asks greeting = []" using greeting_messages by (simp add: filter_empty_conv)
  then have pr: "prompts (greeting @ GP_GUESS_REQ # t) = length (take ?k ls)"
    using takes(1) by (simp add: prompts_def)
  have texts: "\<forall>x \<in> set (greeting @ GP_GUESS_REQ # t). is_message x \<and> \<not> ends x"
    using greeting_messages ref_play_messages [OF secret n0 play] gp_texts_fit(1)
    by (auto simp: is_message_def ends_def headers_def) (simp add: header_defs NUL_def)
  have "\<forall>l \<in> set (take ?k ls). typable l" using typed by (meson in_set_takeD)
  from client_loop_conversation [OF f texts _ _ this pr] ending_message [of won] obtain ms where
    run: "client_loop (client_start ts ?typed) = Some (Inr (moved (concat (map shown ((greeting @ GP_GUESS_REQ # t) @ [ending won])))
      ms [] (concat (map (\<lambda>l. l @ [newline]) (drop ?k ls))) (client_start ts ?typed)))"
    and ms: "map c_string ms = take ?k ls" "\<forall>m \<in> set ms. length m = GP_SIZE" by blast
  have "map c_string (take ?k (map gp_msg ls)) = take ?k ls"
    using typed unfolding take_map map_map
    by (intro map_idI) (auto simp: typable_def c_string_gp_msg dest: in_set_takeD)
  then have play': "ref_play secret 0 ms = Some (l, t, won)"
    using takes(2) ref_play_c_string [of ms "take ?k (map gp_msg ls)"] ms(1) by simp
  have w: "waits ms (demo_game ms)" by (simp add: waits_def demo_game_def)
  from pthread_routine_play [OF secret w ms(2) play', of rand] obtain later buf where
    "pthread_routine rand (secret @ [NUL]) (demo_game ms) = Some (Inr (Running (finished won
      (after ([Client_connected, Servers_secret secret] @ l) (greeting @ GP_GUESS_REQ # t) later buf
        (increment_clients_count (increment_clients_now_count (demo_game ms)))))))" by blast
  moreover have "delivered (gs_conn (finished won (after ([Client_connected, Servers_secret secret] @ l)
      (greeting @ GP_GUESS_REQ # t) later buf (increment_clients_count (increment_clients_now_count (demo_game ms)))))) =
      concat (map gp_msg ts)"
    by (simp add: finished_def after_def game_updates demo_game_def conversation ending_def)
  moreover have "won \<longleftrightarrow> secret \<in> set (take MAX_GUESSES_COUNT (valid_guesses (map gp_msg ls)))"
    using ref_play_won [OF n0 secret play] by simp
  ultimately show ?thesis using run ms(1)
    by (intro exI [of _ ms] exI) (auto simp: moved_def client_start_def)
qed


theorem client_and_server_play_witness:
  "\<exists>ms s' g'. client_loop (client_start (greeting @ [GP_GUESS_REQ, feedback_text 1 ''ABCD'' ''ABCD'', GP_GAME_SUCC])
       (''ABCD'' @ [newline])) = Some (Inr s') \<and>
     delivered (cl_conn s') = concat ms \<and>
     pthread_routine (\<lambda>_. 0) (''ABCD'' @ [NUL]) (demo_game ms) = Some (Inr (Running g'))"
proof -
  have m: "c_string (gp_msg ''ABCD'') = ''ABCD''" by (rule demo_message)
  have "typable ''ABCD''" by (simp add: typable_def NUL_def newline_def carriage_return_def GP_SIZE_def)
  then have typed: "\<forall>l \<in> set [''ABCD'']. typable l" by simp
  have play: "ref_play ''ABCD'' 0 (map gp_msg [''ABCD'']) =
      Some (guess_log ''ABCD'' ''ABCD'', [feedback_text 1 ''ABCD'' ''ABCD''], True)"
    using m demo_code by (simp add: Let_def)
  from client_and_server_play [OF demo_code typed play refl, of "\<lambda>_. 0"] show ?thesis
    by (auto simp: ending_def)
qed

end
