(* ===== verification/Game_Accept.thy ===== *)
theory Game_Accept
  imports Game_Play Log_Helpers
begin

text \<open>
  The server as a whole (\<open>main\<close> of \<open>project2/server.c\<close>): the program arguments, the loop that
  accepts connections, and the threads that this loop starts. The threads run concurrently
  with the loop and share the counters with it; every access to a counter is one step, as the
  mutexes make it. A thread is here reduced to the steps by which it changes what is shared;
  that these are the steps of \<open>pthread_routine\<close> is shown. The system calls of the set-up are a
  list that ends the program at the first call that fails.
\<close>

section \<open>Arguments\<close>

text \<open>The port and the secret code that \<open>main\<close> passes to its threads, all zero if none is given.\<close>

definition server_args :: "string list \<Rightarrow> (int \<times> string) res" where
  "server_args argv =
     (if length argv < 2 then Inl (Exit 1)
      else res_bind (atoi (argv ! 1)) (\<lambda>port.
           res_bind (if length argv \<ge> 3 then is_valid_secret_code (argv ! 2 @ [NUL]) else Inr False) (\<lambda>valid.
             Inr (port, if valid then strncpy (SECRET_CODE_LEN + 1) (argv ! 2 @ [NUL])
                        else replicate (SECRET_CODE_LEN + 1) NUL))))"

section \<open>Set-up and shutdown\<close>

datatype server_mutex = Log_file_mutex | Clients_now_count_mutex | Clients_count_mutex | Clients_win_count_mutex

datatype setup_call =
    Open_log_file
  | Handle_SIGINT
  | Handle_SIGTERM
  | Ignore_SIGPIPE
  | Attr_init
  | Attr_setdetachstate
  | Mutex_init server_mutex
  | Create_socket
  | Bind_socket int
  | Listen_on_socket int

definition CLIENTS_NOW_MAX_COUNT :: int where "CLIENTS_NOW_MAX_COUNT = 40"

definition server_setup :: "int \<Rightarrow> setup_call list" where
  "server_setup port =
     [Open_log_file, Handle_SIGINT, Handle_SIGTERM, Ignore_SIGPIPE, Attr_init, Attr_setdetachstate,
      Mutex_init Log_file_mutex, Mutex_init Clients_count_mutex, Mutex_init Clients_win_count_mutex,
      Create_socket, Bind_socket port, Listen_on_socket CLIENTS_NOW_MAX_COUNT]"

text \<open>\<open>main\<close> up to its loop; the result is the secret code for the threads.\<close>

definition server_start :: "(setup_call \<Rightarrow> bool) \<Rightarrow> string list \<Rightarrow> string res" where
  "server_start works argv =
     res_bind (server_args argv) (\<lambda>(port, secret_code).
     res_bind (run_setup works (server_setup port)) (\<lambda>_. Inr secret_code))"

definition SIGINT :: int where "SIGINT = 2"
definition SIGTERM :: int where "SIGTERM = 15"

record rusage =
  ru_utime :: "int \<times> int"
  ru_stime :: "int \<times> int"

text \<open>
  What the signal handler appends to the log before it ends the program, \<open>None\<close> for another
  signal. The time, the address, the resource usage and the two readings of the status file
  are given.
\<close>

definition sig_handler ::
  "int \<Rightarrow> tm option \<Rightarrow> 32 word \<Rightarrow> rusage \<Rightarrow> string option \<Rightarrow> string option \<Rightarrow> string \<Rightarrow> int \<Rightarrow> int
    \<Rightarrow> string option res" where
  "sig_handler sig_number now server_address usage status1 status2 garbage clients_count clients_win_count =
     (if sig_number = SIGINT \<or> sig_number = SIGTERM
      then res_bind (fprint_current_time_and_ip_address now server_address) (\<lambda>stamp.
           res_bind (get_proc_self_status_info status1 garbage ''VmPeak'') (\<lambda>peak.
           res_bind (get_proc_self_status_info status2 garbage ''VmSize'') (\<lambda>size.
             Inr (Some (stamp @ '' server shutdown'' @ [newline] @
               show_int clients_count @ '' clients connected during session'' @ [newline] @
               show_int clients_win_count @ '' clients successfully guessed the secret code'' @ [newline] @
               show_int (fst (ru_utime usage)) @ ''.'' @ pad_int 6 (snd (ru_utime usage)) @
                 ''s CPU time spent in executing in user mode'' @ [newline] @
               show_int (fst (ru_stime usage)) @ ''.'' @ pad_int 6 (snd (ru_stime usage)) @
                 ''s CPU time spent in executing in kernel mode'' @ [newline] @
               show_int peak @ ''kB Peak virtual memory usage during server session'' @ [newline] @
               show_int size @ ''kB Current virtual memory usage immediately before server shutdown'' @
                 [newline])))))
      else Inr None)"

section \<open>The accept loop and the threads\<close>

text \<open>
  How far a thread is: it has been created, has counted itself as current client, has
  counted its client, has counted a win, has closed its socket, has given up its place as
  current client. The last two remember whether the game was won.
\<close>

datatype thread_phase = Created | Counted_now | Playing | Winning | Closed bool | Over bool

text \<open>
  \<open>sv_open\<close> counts the sockets of clients that are open, \<open>sv_main_log\<close> has the lines logged
  by the accepting thread, \<open>sv_accepting\<close> tells whether this thread still runs.
\<close>

record server_state =
  sv_now :: int
  sv_count :: int
  sv_win :: int
  sv_open :: int
  sv_main_log :: "log_line list"
  sv_accepting :: bool
  sv_threads :: "thread_phase list"

definition server_init :: server_state where
  "server_init = \<lparr>sv_now = 0, sv_count = 0, sv_win = 0, sv_open = 0, sv_main_log = [],
     sv_accepting = True, sv_threads = []\<rparr>"

text \<open>
  The outcome of the system calls of one round: no memory, no connection, or a connection
  with whether a thread could be created for it.
\<close>

datatype accept_result = Malloc_failed | Accept_failed | Accepted conn bool

text \<open>The state in which the accepting thread sends a message to a client it turns away.\<close>

definition main_view :: "conn \<Rightarrow> server_state \<Rightarrow> game_state" where
  "main_view c s = \<lparr>gs_conn = c, gs_buffer = replicate GP_SIZE NUL, gs_log = sv_main_log s,
     gs_now = sv_now s, gs_count = sv_count s, gs_win = sv_win s, gs_closed = False\<rparr>"

definition main_result :: "game_state \<Rightarrow> server_state \<Rightarrow> server_state" where
  "main_result g s = s\<lparr>sv_now := gs_now g, sv_count := gs_count g, sv_win := gs_win g,
     sv_main_log := gs_log g, sv_open := sv_open s - (if gs_closed g then 1 else 0)\<rparr>"

definition accept_round :: "accept_result \<Rightarrow> server_state \<Rightarrow> server_state res" where
  "accept_round r s =
     (case r of
        Malloc_failed \<Rightarrow> Inr s
      | Accept_failed \<Rightarrow> Inr s
      | Accepted c created \<Rightarrow>
          let s1 = s\<lparr>sv_open := sv_open s + 1\<rparr> in
          if sv_now s1 \<ge> CLIENTS_NOW_MAX_COUNT
          then res_bind (send_gp_message (log_lines [Server_full] (main_view c s1)) GP_SERV_FULL None) (\<lambda>ctl.
                 case ctl of
                   Running g \<Rightarrow> Inr (main_result (close_socket g) s1)
                 | Exited g \<Rightarrow> Inr ((main_result g s1)\<lparr>sv_accepting := False\<rparr>))
          else if created then Inr (s1\<lparr>sv_threads := sv_threads s1 @ [Created]\<rparr>)
          else Inr (s1\<lparr>sv_main_log := sv_main_log s1 @ [Failed_to_create_thread],
                       sv_open := sv_open s1 - 1\<rparr>))"

text \<open>
  The next step of a thread on what is shared; \<open>wins\<close> tells whether its game is won.
\<close>

fun thread_step :: "bool \<Rightarrow> thread_phase \<Rightarrow> server_state \<Rightarrow> (thread_phase \<times> server_state) option" where
  "thread_step wins Created s = Some (Counted_now, s\<lparr>sv_now := sv_now s + 1\<rparr>)"
| "thread_step wins Counted_now s = Some (Playing, s\<lparr>sv_count := sv_count s + 1\<rparr>)"
| "thread_step wins Playing s =
     (if wins then Some (Winning, s\<lparr>sv_win := sv_win s + 1\<rparr>)
      else Some (Closed False, s\<lparr>sv_open := sv_open s - 1\<rparr>))"
| "thread_step wins Winning s = Some (Closed True, s\<lparr>sv_open := sv_open s - 1\<rparr>)"
| "thread_step wins (Closed won) s = Some (Over won, s\<lparr>sv_now := sv_now s - 1\<rparr>)"
| "thread_step wins (Over won) s = None"

inductive server_step :: "server_state \<Rightarrow> server_state \<Rightarrow> bool" where
  accept: "sv_accepting s \<Longrightarrow> accept_round r s = Inr s' \<Longrightarrow> server_step s s'"
| thread: "t < length (sv_threads s) \<Longrightarrow> thread_step wins (sv_threads s ! t) s = Some (ph, s') \<Longrightarrow>
    server_step s (s'\<lparr>sv_threads := (sv_threads s)[t := ph]\<rparr>)"

inductive server_reachable :: "server_state \<Rightarrow> bool" where
  init: "server_reachable server_init"
| step: "server_reachable s \<Longrightarrow> server_step s s' \<Longrightarrow> server_reachable s'"

text \<open>
  The runs in which every thread has counted itself before the next connection is accepted.
\<close>

inductive server_prompt :: "server_state \<Rightarrow> bool" where
  prompt_init: "server_prompt server_init"
| prompt_step: "server_prompt s \<Longrightarrow> server_step s s' \<Longrightarrow>
    Created \<notin> set (sv_threads s) \<or> length (sv_threads s') = length (sv_threads s) \<Longrightarrow> server_prompt s'"

section \<open>Rounds of the accept loop\<close>

text \<open>What a round does: it starts a thread, or leaves the threads and the open sockets alone.\<close>

lemma accept_round_cases:
  obtains (same) s' where "accept_round r s = Inr s'" and "sv_threads s' = sv_threads s"
      and "sv_now s' = sv_now s" and "sv_count s' = sv_count s" and "sv_win s' = sv_win s"
      and "sv_open s' = sv_open s" and "sv_accepting s' = sv_accepting s"
  | (started) "accept_round r s = Inr (s\<lparr>sv_open := sv_open s + 1, sv_threads := sv_threads s @ [Created]\<rparr>)"
      and "sv_now s < CLIENTS_NOW_MAX_COUNT"
  | (died) s' where "accept_round r s = Inr s'" and "sv_threads s' = sv_threads s"
      and "sv_now s' = sv_now s - 1" and "sv_count s' = sv_count s" and "sv_win s' = sv_win s"
      and "sv_open s' = sv_open s" and "\<not> sv_accepting s'" and "sv_now s \<ge> CLIENTS_NOW_MAX_COUNT"
proof (cases r)
  case Malloc_failed
  then show thesis by (intro same [of s]) (simp_all add: accept_round_def)
next
  case Accept_failed
  then show thesis by (intro same [of s]) (simp_all add: accept_round_def)
next
  case (Accepted c created)
  show thesis
  proof (cases "sv_now s \<ge> CLIENTS_NOW_MAX_COUNT")
    case True
    let ?s = "s\<lparr>sv_open := sv_open s + 1\<rparr>"
    let ?g = "log_lines [Server_full] (main_view c ?s)"
    have fits: "length (message_text GP_SERV_FULL None) < GP_SIZE"
      by (simp add: message_text_def GP_SERV_FULL_def GP_SIZE_def)
    show thesis
    proof (cases rule: send_gp_message_cases [OF fits, of ?g, case_names sent lost])
      case (sent g)
      then show thesis using True Accepted
        by (intro same [of "main_result (close_socket g) ?s"])
          (simp_all add: accept_round_def Let_def main_result_def frame_def game_updates main_view_def)
    next
      case (lost g)
      then show thesis using True Accepted
        by (intro died [of "(main_result g ?s)\<lparr>sv_accepting := False\<rparr>"])
          (simp_all add: accept_round_def Let_def main_result_def gone_def game_updates main_view_def)
    qed
  next
    case False
    then show thesis using Accepted
      by (cases created; intro started same [of "s\<lparr>sv_main_log := sv_main_log s @ [Failed_to_create_thread]\<rparr>"])
        (simp_all add: accept_round_def Let_def)
  qed
qed


section \<open>Counting threads\<close>

definition threads_in :: "(thread_phase \<Rightarrow> bool) \<Rightarrow> server_state \<Rightarrow> int" where
  "threads_in P s = int (length (filter P (sv_threads s)))"

lemma threads_in_update:
  fixes s s' :: server_state
  shows "t < length (sv_threads s) \<Longrightarrow> threads_in P (s'\<lparr>sv_threads := (sv_threads s)[t := ph]\<rparr>) =
    threads_in P s - (if P (sv_threads s ! t) then 1 else 0) + (if P ph then 1 else 0)"
  by (simp add: threads_in_def length_filter_list_update)

lemma threads_in_append: "threads_in P (s\<lparr>sv_open := n, sv_threads := sv_threads s @ [ph]\<rparr>) =
    threads_in P s + (if P ph then 1 else 0)"
  by (simp add: threads_in_def)

fun is_current :: "thread_phase \<Rightarrow> bool" where
  "is_current Created = False" | "is_current Counted_now = True" | "is_current Playing = True"
| "is_current Winning = True" | "is_current (Closed w) = True" | "is_current (Over w) = False"

fun is_counted :: "thread_phase \<Rightarrow> bool" where
  "is_counted Created = False" | "is_counted Counted_now = False" | "is_counted Playing = True"
| "is_counted Winning = True" | "is_counted (Closed w) = True" | "is_counted (Over w) = True"

fun has_won :: "thread_phase \<Rightarrow> bool" where
  "has_won Created = False" | "has_won Counted_now = False" | "has_won Playing = False"
| "has_won Winning = True" | "has_won (Closed w) = w" | "has_won (Over w) = w"

fun has_socket :: "thread_phase \<Rightarrow> bool" where
  "has_socket Created = True" | "has_socket Counted_now = True" | "has_socket Playing = True"
| "has_socket Winning = True" | "has_socket (Closed w) = False" | "has_socket (Over w) = False"

definition server_inv :: "server_state \<Rightarrow> bool" where
  "server_inv s \<longleftrightarrow> sv_now s = threads_in is_current s - (if sv_accepting s then 0 else 1) \<and>
     sv_count s = threads_in is_counted s \<and> sv_win s = threads_in has_won s \<and>
     sv_open s = threads_in has_socket s"


lemma server_inv_thread:
  assumes "server_inv s" and "t < length (sv_threads s)"
    and "thread_step wins (sv_threads s ! t) s = Some (ph, s')"
  shows "server_inv (s'\<lparr>sv_threads := (sv_threads s)[t := ph]\<rparr>)"
proof -
  note inv = assms(1) [unfolded server_inv_def]
  note upd = threads_in_update [OF assms(2), of is_current ph s'] threads_in_update [OF assms(2), of is_counted ph s']
    threads_in_update [OF assms(2), of has_won ph s'] threads_in_update [OF assms(2), of has_socket ph s']
  show ?thesis
  proof (cases "sv_threads s ! t")
    case Created
    with assms(3) inv show ?thesis unfolding server_inv_def upd by auto
  next
    case Counted_now
    with assms(3) inv show ?thesis unfolding server_inv_def upd by auto
  next
    case Playing
    with assms(3) inv show ?thesis unfolding server_inv_def upd by (cases wins) auto
  next
    case Winning
    with assms(3) inv show ?thesis unfolding server_inv_def upd by auto
  next
    case (Closed w)
    with assms(3) inv show ?thesis unfolding server_inv_def upd by auto
  next
    case (Over w)
    with assms(3) show ?thesis by simp
  qed
qed

lemma server_inv_accept:
  assumes "server_inv s" and "sv_accepting s" and "accept_round r s = Inr s'"
  shows "server_inv s'"
proof (cases rule: accept_round_cases [of r s, case_names same started died])
  case (same s1)
  with assms show ?thesis by (simp add: server_inv_def threads_in_def)
next
  case started
  then have s': "s' = s\<lparr>sv_open := sv_open s + 1, sv_threads := sv_threads s @ [Created]\<rparr>"
    using assms(3) by simp
  from assms(1,2) show ?thesis unfolding s' server_inv_def by (simp add: threads_in_append)
next
  case (died s1)
  with assms show ?thesis by (simp add: server_inv_def threads_in_def)
qed

lemma server_step_inv: "server_step s s' \<Longrightarrow> server_inv s \<Longrightarrow> server_inv s'"
  by (induction rule: server_step.induct) (auto intro: server_inv_accept server_inv_thread)

lemma reachable_inv: "server_reachable s \<Longrightarrow> server_inv s"
proof (induction rule: server_reachable.induct)
  case init
  show ?case by (simp add: server_inv_def server_init_def threads_in_def)
next
  case (step s s')
  then show ?case by (blast intro: server_step_inv)
qed

section \<open>The limit on clients\<close>

lemma prompt_reachable: "server_prompt s \<Longrightarrow> server_reachable s"
  by (induction rule: server_prompt.induct) (auto intro: server_reachable.intros)



lemma created_at_limit:
  assumes "server_prompt s"
  shows "threads_in is_current s + threads_in (\<lambda>p. p = Created) s \<le> CLIENTS_NOW_MAX_COUNT"
  using assms
proof (induction rule: server_prompt.induct)
  case prompt_init
  show ?case by (simp add: threads_in_def server_init_def CLIENTS_NOW_MAX_COUNT_def)
next
  case (prompt_step s s')
  from prompt_step.hyps(2) show ?case
  proof cases
    case (accept r)
    show ?thesis
    proof (cases rule: accept_round_cases [of r s, case_names same started died])
      case (same s1)
      with accept prompt_step.IH show ?thesis by (simp add: threads_in_def)
    next
      case started
      then have s': "s' = s\<lparr>sv_open := sv_open s + 1, sv_threads := sv_threads s @ [Created]\<rparr>"
        using accept(2) by simp
      then have "Created \<notin> set (sv_threads s)" using prompt_step.hyps(3) by simp
      then have none: "threads_in (\<lambda>p. p = Created) s = 0" by (auto simp: threads_in_def filter_empty_conv)
      have "sv_now s = threads_in is_current s"
        using reachable_inv [OF prompt_reachable [OF prompt_step.hyps(1)]] accept(1) by (simp add: server_inv_def)
      with started(2) none show ?thesis unfolding s' threads_in_append by simp
    next
      case (died s1)
      with accept prompt_step.IH show ?thesis by (simp add: threads_in_def)
    qed
  next
    case (thread t wins ph s1)
    with prompt_step.IH threads_in_update [OF thread(2), of is_current ph s1]
      threads_in_update [OF thread(2), of "\<lambda>p. p = Created" ph s1]
    show ?thesis by (cases "sv_threads s ! t") (auto split: if_splits)
  qed
qed

text \<open>Without promptness there is no limit: all rounds can take place before the threads count.\<close>

definition waiting_room :: "nat \<Rightarrow> server_state" where
  "waiting_room n = server_init\<lparr>sv_open := int n, sv_threads := replicate n Created\<rparr>"

lemma waiting_room_reachable: "server_reachable (waiting_room n)"
proof (induction n)
  case 0
  then show ?case using server_reachable.init by (simp add: waiting_room_def server_init_def)
next
  case (Suc n)
  let ?c = "\<lparr>incoming = [], write_evs = [], delivered = []\<rparr>"
  have "accept_round (Accepted ?c True) (waiting_room n) = Inr (waiting_room (Suc n))"
    by (simp add: accept_round_def waiting_room_def server_init_def CLIENTS_NOW_MAX_COUNT_def Let_def
        replicate_append_same)
  moreover have "sv_accepting (waiting_room n)" by (simp add: waiting_room_def server_init_def)
  ultimately show ?case by (blast intro: Suc.IH server_reachable.step server_step.accept)
qed

definition playing_room :: "nat \<Rightarrow> nat \<Rightarrow> server_state" where
  "playing_room n k = server_init\<lparr>sv_now := int k, sv_count := int k, sv_open := int n,
     sv_threads := replicate k Playing @ replicate (n - k) Created\<rparr>"

lemma replicate_Suc_diff: "k < n \<Longrightarrow> replicate (n - k) x = x # replicate (n - Suc k) x"
  by (metis Suc_diff_Suc replicate_Suc)

lemma playing_room_reachable: "k \<le> n \<Longrightarrow> server_reachable (playing_room n k)"
proof (induction k)
  case 0
  then show ?case using waiting_room_reachable [of n]
    by (simp add: playing_room_def waiting_room_def server_init_def)
next
  case (Suc k)
  let ?s = "playing_room n k"
  let ?s1 = "?s\<lparr>sv_now := int (Suc k), sv_threads := (sv_threads ?s)[k := Counted_now]\<rparr>"
  have k: "k < length (sv_threads ?s)" "sv_threads ?s ! k = Created"
    using Suc.prems by (auto simp: playing_room_def nth_append)
  have "server_step ?s ?s1"
    using server_step.thread [of k ?s True Counted_now "?s\<lparr>sv_now := sv_now ?s + 1\<rparr>"] k
    by (simp add: playing_room_def add.commute)
  moreover have "server_step ?s1 (playing_room n (Suc k))"
  proof -
    have "playing_room n (Suc k) = ?s1\<lparr>sv_count := sv_count ?s1 + 1, sv_threads := (sv_threads ?s1)[k := Playing]\<rparr>"
      using Suc.prems by (simp add: playing_room_def list_update_append replicate_Suc_diff replicate_append_same
          replicate_app_Cons_same)
    with server_step.thread [of k ?s1 True Playing "?s1\<lparr>sv_count := sv_count ?s1 + 1\<rparr>"] k show ?thesis by simp
  qed
  ultimately show ?case using Suc by (blast intro: server_reachable.step Suc_leD)
qed

section \<open>The steps of a thread are those of the routine\<close>

text \<open>A thread that runs from its creation to its end without others in between.\<close>

fun thread_alone :: "nat \<Rightarrow> bool \<Rightarrow> thread_phase \<Rightarrow> server_state \<Rightarrow> thread_phase \<times> server_state" where
  "thread_alone 0 wins ph s = (ph, s)"
| "thread_alone (Suc n) wins ph s =
     (case thread_step wins ph s of None \<Rightarrow> (ph, s) | Some (ph', s') \<Rightarrow> thread_alone n wins ph' s')"

lemma thread_alone_result:
  "thread_alone 6 wins Created s = (Over wins, s\<lparr>sv_count := sv_count s + 1,
     sv_win := sv_win s + (if wins then 1 else 0), sv_open := sv_open s - 1\<rparr>)"
  by (cases wins) (simp_all add: numeral_eq_Suc)

lemma pthread_routine_thread_alone:
  assumes "pthread_routine rand param g = Some r"
    and "gs_now g = sv_now s" and "gs_count g = sv_count s" and "gs_win g = sv_win s"
  shows "\<exists>g' wins s'. (r = Inr (Running g') \<or> r = Inr (Exited g')) \<and>
    thread_alone 6 wins Created s = (Over wins, s') \<and>
    gs_now g' = sv_now s' \<and> gs_count g' = sv_count s' \<and> gs_win g' = sv_win s' \<and>
    gs_closed g' \<and> sv_open s' = sv_open s - 1"
proof -
  from pthread_routine_over [OF assms(1)] obtain g' where
    r: "r = Inr (Running g') \<or> r = Inr (Exited g')" and
    g': "gs_now g' = gs_now g" "gs_count g' = gs_count g + 1" "gs_win g \<le> gs_win g'"
      "gs_win g' \<le> gs_win g + 1" "gs_closed g'"
    by blast
  from g'(3,4) have "gs_win g' = gs_win g \<or> gs_win g' = gs_win g + 1" by linarith
  with r g' assms(2-4) show ?thesis
    by (intro exI [of _ g'] exI [of _ "gs_win g' = gs_win g + 1"]) (auto simp: thread_alone_result)
qed

section \<open>The secret code of the arguments\<close>

lemma server_args_secret:
  assumes "secret \<in> secret_codes" and "atoi port = Inr p"
  shows "server_args [name, port, secret] = Inr (p, secret @ [NUL])"
    and "choose_secret rand (strncpy (SECRET_CODE_LEN + 1) (secret @ [NUL])) = Inr (secret @ [NUL])"
proof -
  have "is_valid_secret_code (secret @ [NUL]) = Inr True"
    using assms(1) is_valid_secret_code_string [OF secret_codes_no_NUL [OF assms(1)], of "[]"] by simp
  with assms(2) strncpy_code [OF assms(1), of "[]"]
  show "server_args [name, port, secret] = Inr (p, secret @ [NUL])" by (simp add: server_args_def)
  show "choose_secret rand (strncpy (SECRET_CODE_LEN + 1) (secret @ [NUL])) = Inr (secret @ [NUL])"
    using strncpy_code [OF assms(1), of "[]"] choose_secret_given [OF assms(1)] by simp
qed

section \<open>Starting and stopping\<close>

text \<open>The set-up succeeds exactly when every call does.\<close>

lemma server_start_result:
  "server_start works argv =
     (if length argv < 2 then Inl (Exit 1)
      else res_bind (server_args argv) (\<lambda>(port, secret_code).
        if \<forall>c \<in> set (server_setup port). works c then Inr secret_code else Inl (Exit 1)))"
  by (auto simp: server_start_def run_setup_iff server_args_def res_bind_def split: sum.splits)

text \<open>Every mutex is initialised but the one that guards the number of current clients.\<close>

lemma mutex_not_initialised: "Mutex_init m \<in> set (server_setup port) \<longleftrightarrow> m \<noteq> Clients_now_count_mutex"
  by (cases m) (auto simp: server_setup_def)

lemma sig_handler_example:
  "sig_handler SIGTERM (Some \<lparr>tm_sec = 5, tm_min = 4, tm_hour = 3, tm_mday = 2, tm_mon = 0, tm_year = 116\<rparr>) 0
     \<lparr>ru_utime = (0, 1500), ru_stime = (2, 0)\<rparr> (Some (''VmPeak:   4321 kB'' @ [newline])) (Some [])
     (replicate 128 NUL) 7 3 =
   Inr (Some (''[02 01 2016 03:04:05](0.0.0.0) server shutdown'' @ [newline] @
     ''7 clients connected during session'' @ [newline] @
     ''3 clients successfully guessed the secret code'' @ [newline] @
     ''0.001500s CPU time spent in executing in user mode'' @ [newline] @
     ''2.000000s CPU time spent in executing in kernel mode'' @ [newline] @
     ''4321kB Peak virtual memory usage during server session'' @ [newline] @
     ''-1kB Current virtual memory usage immediately before server shutdown'' @ [newline]))"
  by code_simp

section \<open>Properties\<close>



text \<open>C35: The test for a full server limits the number of current clients to
  \<open>CLIENTS_NOW_MAX_COUNT\<close> in the runs in which each new thread has counted itself before the
  next connection is accepted; in general there is no limit: because only the new thread
  counts the client, for every number there is a run of the server that reaches this number of
  games in play.\<close>

theorem server_client_limit:
  "(server_prompt s \<longrightarrow> sv_now s \<le> CLIENTS_NOW_MAX_COUNT) \<and>
   (\<exists>s'. server_reachable s' \<and> threads_in (\<lambda>p. p = Playing) s' = int n \<and> sv_now s' = int n)"
proof (intro conjI impI)
  assume prompt: "server_prompt s"
  have "sv_now s \<le> threads_in is_current s"
    using reachable_inv [OF prompt_reachable [OF prompt]] by (simp add: server_inv_def)
  moreover have "0 \<le> threads_in (\<lambda>p. p = Created) s" by (simp add: threads_in_def)
  ultimately show "sv_now s \<le> CLIENTS_NOW_MAX_COUNT" using created_at_limit [OF prompt] by linarith
next
  show "\<exists>s'. server_reachable s' \<and> threads_in (\<lambda>p. p = Playing) s' = int n \<and> sv_now s' = int n"
    using playing_room_reachable [of n n]
    by (intro exI [of _ "playing_room n n"]) (simp add: playing_room_def threads_in_def)
qed

theorem server_client_limit_witness:
  "sv_now server_init \<le> CLIENTS_NOW_MAX_COUNT \<and> (\<exists>s'. server_reachable s' \<and> sv_now s' = 1000)"
  using server_client_limit [of server_init 1000] server_prompt.prompt_init by auto



end
