(* ===== verification/Thread_Programs.thy ===== *)
theory Thread_Programs
  imports C_Library
begin

text \<open>
  Programs of a fixed number of threads over shared variables, as the samples under
  \<open>workshop/sample_code/threads\<close> are. A thread is a function that gives, for the point
  where a thread is and the shared variables, its next atomic step; \<open>None\<close> says that the
  thread is blocked or has ended. A schedule names the thread of every step. The locale
  collects what a program has to provide to be free of errors, free of deadlocks and
  terminating under every schedule, and what follows from it.
\<close>

section \<open>Schedules\<close>

type_synonym ('p, 's) thread = "nat \<Rightarrow> 'p \<Rightarrow> 's \<Rightarrow> ('p \<times> 's) res option"

text \<open>\<open>None\<close>: the schedule names a thread that cannot take a step.\<close>

fun run_threads :: "('p, 's) thread \<Rightarrow> nat list \<Rightarrow> 'p list \<times> 's \<Rightarrow> ('p list \<times> 's) res option" where
  "run_threads step [] c = Some (Inr c)"
| "run_threads step (t # ts) (ps, s) =
     (if t < length ps
      then case step t (ps ! t) s of
             None \<Rightarrow> None
           | Some (Inl e) \<Rightarrow> Some (Inl e)
           | Some (Inr (p, s')) \<Rightarrow> run_threads step ts (ps[t := p], s')
      else None)"

lemma run_threads_append:
  "run_threads step ts c = Some (Inr c') \<Longrightarrow> run_threads step (ts @ us) c = run_threads step us c'"
  by (induction step ts c rule: run_threads.induct)
    (auto split: if_splits option.splits sum.splits)

lemma run_threads_trans:
  "run_threads step ts c = Some (Inr c') \<Longrightarrow> run_threads step us c' = Some r \<Longrightarrow>
   run_threads step (ts @ us) c = Some r"
  by (simp add: run_threads_append)

lemma run_threads_length:
  "run_threads step ts (ps, s) = Some (Inr (ps', s')) \<Longrightarrow> length ps' = length ps"
proof (induction ts arbitrary: ps s)
  case (Cons t ts)
  then show ?case by (fastforce split: if_splits option.splits sum.splits)
qed simp

text \<open>What every step keeps holds after every run.\<close>

lemma run_threads_inv:
  assumes "\<And>ps s t p s'. J ps s \<Longrightarrow> t < length ps \<Longrightarrow> step t (ps ! t) s = Some (Inr (p, s')) \<Longrightarrow> J (ps[t := p]) s'"
  shows "J ps s \<Longrightarrow> run_threads step ts (ps, s) = Some (Inr (ps', s')) \<Longrightarrow> J ps' s'"
proof (induction ts arbitrary: ps s)
  case (Cons t ts)
  from Cons.prems(2) obtain p u where "t < length ps" "step t (ps ! t) s = Some (Inr (p, u))"
    "run_threads step ts (ps[t := p], u) = Some (Inr (ps', s'))"
    by (auto split: if_splits option.splits sum.splits)
  with Cons.IH [of "ps[t := p]" u] Cons.prems(1) assms show ?case by blast
qed simp

text \<open>A configuration that some schedule leads to.\<close>

definition reaches :: "('p, 's) thread \<Rightarrow> 'p list \<times> 's \<Rightarrow> 'p list \<times> 's \<Rightarrow> bool" where
  "reaches step c c' \<longleftrightarrow> (\<exists>ts. run_threads step ts c = Some (Inr c'))"

lemma reaches_refl: "reaches step c c"
  unfolding reaches_def by (rule exI [of _ "[]"]) simp

lemma reaches_trans [trans]: "reaches step c c' \<Longrightarrow> reaches step c' c'' \<Longrightarrow> reaches step c c''"
  unfolding reaches_def using run_threads_trans by blast

lemma reaches_step:
  "t < length ps \<Longrightarrow> step t (ps ! t) s = Some (Inr (p, s')) \<Longrightarrow> reaches step (ps, s) (ps[t := p], s')"
  unfolding reaches_def by (rule exI [of _ "[t]"]) simp

text \<open>
  Every run is free of errors and has at most \<open>n\<close> steps, and when it cannot be continued all
  threads have ended in a state that satisfies \<open>P\<close>: whatever the schedule, the program ends,
  and it ends well.
\<close>

definition always_ends ::
  "('p, 's) thread \<Rightarrow> ('p \<Rightarrow> bool) \<Rightarrow> nat \<Rightarrow> ('s \<Rightarrow> bool) \<Rightarrow> 'p list \<times> 's \<Rightarrow> bool" where
  "always_ends step ended n P c \<longleftrightarrow>
     (\<forall>ts r. run_threads step ts c = Some r \<longrightarrow>
        length ts \<le> n \<and>
        (\<exists>ps s. r = Inr (ps, s) \<and>
           ((\<exists>t. run_threads step (ts @ [t]) c \<noteq> None) \<or> (\<forall>p \<in> set ps. ended p) \<and> P s)))"

section \<open>Programs that always end\<close>

text \<open>
  An invariant that every step keeps, a bound on the steps a thread still takes, and the
  promise that some thread can go on while one has not ended.
\<close>

locale thread_program =
  fixes step :: "('p, 's) thread"
    and inv :: "'p list \<Rightarrow> 's \<Rightarrow> bool"
    and work :: "'p \<Rightarrow> nat"
    and ended :: "'p \<Rightarrow> bool"
  assumes step_keeps: "inv ps s \<Longrightarrow> t < length ps \<Longrightarrow> step t (ps ! t) s = Some r \<Longrightarrow>
      \<exists>p s'. r = Inr (p, s') \<and> inv (ps[t := p]) s' \<and> work p < work (ps ! t)"
    and not_stuck: "inv ps s \<Longrightarrow> u < length ps \<Longrightarrow> \<not> ended (ps ! u) \<Longrightarrow>
      \<exists>t < length ps. step t (ps ! t) s \<noteq> None"
begin

definition total_work :: "'p list \<Rightarrow> nat" where
  "total_work ps = sum_list (map work ps)"

lemma total_work_update:
  assumes "t < length ps" and "work p < work (ps ! t)"
  shows "total_work (ps[t := p]) < total_work ps"
proof -
  have "map work ps ! t \<le> sum_list (map work ps)" using assms(1) by (intro member_le_sum_list) simp_all
  with assms show ?thesis
    by (simp add: total_work_def map_update sum_list_update)
qed

lemma run_keeps:
  "inv ps s \<Longrightarrow> run_threads step ts (ps, s) = Some r \<Longrightarrow>
   \<exists>ps' s'. r = Inr (ps', s') \<and> inv ps' s' \<and> length ts + total_work ps' \<le> total_work ps"
proof (induction ts arbitrary: ps s)
  case (Cons t ts)
  from Cons.prems(2) obtain r' where t: "t < length ps" and r': "step t (ps ! t) s = Some r'"
    by (auto split: if_splits option.splits)
  from step_keeps [OF Cons.prems(1) t r'] obtain p s' where
    p: "r' = Inr (p, s')" "inv (ps[t := p]) s'" "work p < work (ps ! t)" by blast
  with Cons.prems(2) t r' have "run_threads step ts (ps[t := p], s') = Some r" by simp
  from Cons.IH [OF p(2) this] total_work_update [OF t p(3)] show ?case by fastforce
qed auto

lemma run_stuck:
  assumes "inv ps s" and "\<And>t. run_threads step [t] (ps, s) = None"
  shows "\<forall>p \<in> set ps. ended p"
proof (rule ccontr)
  assume "\<not> ?thesis"
  then obtain u where "u < length ps" "\<not> ended (ps ! u)" by (metis in_set_conv_nth)
  from not_stuck [OF assms(1) this] obtain t where t: "t < length ps" "step t (ps ! t) s \<noteq> None" by blast
  with assms(2) [of t] show False by (auto split: option.splits sum.splits)
qed

text \<open>The consequence for every schedule.\<close>

lemma ends_always:
  assumes start: "inv ps s"
    and good: "\<And>ps' s'. length ps' = length ps \<Longrightarrow> inv ps' s' \<Longrightarrow> \<forall>p \<in> set ps'. ended p \<Longrightarrow> P s'"
    and n: "total_work ps \<le> n"
  shows "always_ends step ended n P (ps, s)"
  unfolding always_ends_def
proof (intro allI impI conjI)
  fix ts r
  assume run: "run_threads step ts (ps, s) = Some r"
  from run_keeps [OF start run] obtain ps' s' where
    r: "r = Inr (ps', s')" "inv ps' s'" "length ts + total_work ps' \<le> total_work ps" by blast
  then show "length ts \<le> n" using n by simp
  have cont: "run_threads step (ts @ [t]) (ps, s) = run_threads step [t] (ps', s')" for t
    using run r(1) by (simp only: run_threads_append)
  have len: "length ps' = length ps" using run r(1) by (simp add: run_threads_length)
  show "\<exists>ps'' s''. r = Inr (ps'', s'') \<and>
      ((\<exists>t. run_threads step (ts @ [t]) (ps, s) \<noteq> None) \<or> (\<forall>p \<in> set ps''. ended p) \<and> P s'')"
  proof (cases "\<exists>t. run_threads step (ts @ [t]) (ps, s) \<noteq> None")
    case True
    with r(1) show ?thesis by blast
  next
    case False
    with cont have "\<forall>p \<in> set ps'. ended p" by (intro run_stuck [OF r(2)]) auto
    with r(1) good [OF len r(2)] show ?thesis by blast
  qed
qed

end

end
