(* ===== verification/Server_Shutdown.thy ===== *)
theory Server_Shutdown
  imports Game_Accept Thread_Programs
begin

text \<open>
  How the server of \<open>project2/server.c\<close> shuts down. The handler of \<open>SIGINT\<close> and \<open>SIGTERM\<close> runs on top of the
  thread that the signal interrupts, takes the mutex of the log file, writes the last lines,
  closes the file, destroys the mutexes and exits, while the other threads go on. The mutexes
  are not recursive: a signal that interrupts a thread inside a critical section of the log
  makes the handler wait for its own thread.
\<close>

section \<open>Critical sections\<close>

text \<open>
  What the threads do under a mutex: a line for the log, or a counter. The number of current
  clients is not read by the handler and is left out of the state.
\<close>

datatype server_work = Log_entry string | Count_client | Count_win | Count_now

fun mutex_of :: "server_work \<Rightarrow> server_mutex" where
  "mutex_of (Log_entry x) = Log_file_mutex"
| "mutex_of Count_client = Clients_count_mutex"
| "mutex_of Count_win = Clients_win_count_mutex"
| "mutex_of Count_now = Clients_now_count_mutex"

datatype section_point = Free_run | Entered server_work | Leaving server_work

datatype handler_point = H_close | H_lock | H_report | H_fclose | H_unlock | H_destroy "server_mutex list"

record thread_point =
  th_point :: section_point
  th_work :: "server_work list"
  th_handler :: "handler_point option"

record shut_state =
  sh_owner :: "server_mutex \<Rightarrow> nat option"
  sh_alive :: "server_mutex \<Rightarrow> bool"
  sh_listening :: bool
  sh_log_open :: bool
  sh_log :: "string list"
  sh_clients :: int
  sh_wins :: int
  sh_perror :: "string list"
  sh_exit :: "int option"

text \<open>
  The ordinary code of thread \<open>t\<close>: lock, work, unlock. Waiting for a mutex and having nothing to
  do is \<open>None\<close>. A destroyed mutex and a closed file are used like a dangling pointer.
\<close>

definition do_work :: "server_work \<Rightarrow> shut_state \<Rightarrow> shut_state res" where
  "do_work w s =
     (case w of
        Log_entry x \<Rightarrow> (if sh_log_open s then Inr (s\<lparr>sh_log := sh_log s @ [x]\<rparr>) else Inl NullDeref)
      | Count_client \<Rightarrow> Inr (s\<lparr>sh_clients := sh_clients s + 1\<rparr>)
      | Count_win \<Rightarrow> Inr (s\<lparr>sh_wins := sh_wins s + 1\<rparr>)
      | Count_now \<Rightarrow> Inr s)"

definition ordinary_step :: "(thread_point, shut_state) thread" where
  "ordinary_step t p s =
     (case th_point p of
        Free_run \<Rightarrow>
          (case th_work p of
             [] \<Rightarrow> None
           | w # ws \<Rightarrow>
               (if \<not> sh_alive s (mutex_of w) then Some (Inl NullDeref)
                else if sh_owner s (mutex_of w) = None
                then Some (Inr (p\<lparr>th_point := Entered w, th_work := ws\<rparr>, s\<lparr>sh_owner := (sh_owner s)(mutex_of w \<mapsto> t)\<rparr>))
                else None))
      | Entered w \<Rightarrow> Some (res_bind (do_work w s) (\<lambda>s'. Inr (p\<lparr>th_point := Leaving w\<rparr>, s')))
      | Leaving w \<Rightarrow> Some (Inr (p\<lparr>th_point := Free_run\<rparr>, s\<lparr>sh_owner := (sh_owner s)(mutex_of w := None)\<rparr>)))"

text \<open>
  \<open>sig_handler\<close>; \<open>report\<close> gives the text that it writes for the counters, which
  \<open>Game_Accept\<close> has in full. Destroying a mutex that
  is locked fails and is reported, and the next one is destroyed.
\<close>

definition handler_step :: "(int \<Rightarrow> int \<Rightarrow> string) \<Rightarrow> handler_point \<Rightarrow> (thread_point, shut_state) thread" where
  "handler_step report h t p s =
     (let goto = \<lambda>h'. p\<lparr>th_handler := Some h'\<rparr> in
      case h of
        H_close \<Rightarrow> Some (Inr (goto H_lock, s\<lparr>sh_listening := False\<rparr>))
      | H_lock \<Rightarrow>
          (if \<not> sh_alive s Log_file_mutex then Some (Inl NullDeref)
           else if sh_owner s Log_file_mutex = None
           then Some (Inr (goto H_report, s\<lparr>sh_owner := (sh_owner s)(Log_file_mutex \<mapsto> t)\<rparr>))
           else None)
      | H_report \<Rightarrow>
          Some (if sh_log_open s
                then Inr (goto H_fclose, s\<lparr>sh_log := sh_log s @ [report (sh_clients s) (sh_wins s)]\<rparr>)
                else Inl NullDeref)
      | H_fclose \<Rightarrow> Some (Inr (goto H_unlock, s\<lparr>sh_log_open := False\<rparr>))
      | H_unlock \<Rightarrow>
          Some (Inr (goto (H_destroy [Log_file_mutex, Clients_count_mutex, Clients_win_count_mutex]),
            s\<lparr>sh_owner := (sh_owner s)(Log_file_mutex := None)\<rparr>))
      | H_destroy [] \<Rightarrow> Some (Inr (p, s\<lparr>sh_exit := Some 0\<rparr>))
      | H_destroy (m # ms) \<Rightarrow>
          Some (Inr (goto (H_destroy ms),
            if sh_owner s m = None then s\<lparr>sh_alive := (sh_alive s)(m := False)\<rparr>
            else s\<lparr>sh_perror := sh_perror s @ [''pthread_mutex_destroy'']\<rparr>)))"

text \<open>After \<open>exit\<close> no thread takes a step.\<close>

definition server_thread :: "(int \<Rightarrow> int \<Rightarrow> string) \<Rightarrow> (thread_point, shut_state) thread" where
  "server_thread report t p s =
     (if sh_exit s \<noteq> None then None
      else case th_handler p of None \<Rightarrow> ordinary_step t p s | Some h \<Rightarrow> handler_step report h t p s)"

section \<open>Invariants\<close>














section \<open>A signal inside a critical section of the log\<close>




section \<open>A signal elsewhere\<close>

definition is_report :: "(int \<Rightarrow> int \<Rightarrow> string) \<Rightarrow> string \<Rightarrow> bool" where
  "is_report report x \<longleftrightarrow> (\<exists>c w. x = report c w)"

lemma is_report_self [simp]: "is_report report (report c w)"
  by (auto simp: is_report_def)












section \<open>Properties\<close>


text \<open>One thread that logs a line, interrupted before it does so or while it holds the mutex.\<close>

definition demo_shut_state :: "nat option \<Rightarrow> shut_state" where
  "demo_shut_state own = \<lparr>sh_owner = (\<lambda>m. if m = Log_file_mutex then own else None), sh_alive = (\<lambda>m. True), sh_listening = True,
     sh_log_open = True, sh_log = [], sh_clients = 0, sh_wins = 0, sh_perror = [], sh_exit = None\<rparr>"

definition demo_thread :: "section_point \<Rightarrow> server_work list \<Rightarrow> handler_point option \<Rightarrow> thread_point" where
  "demo_thread pt ws h = \<lparr>th_point = pt, th_work = ws, th_handler = h\<rparr>"


text \<open>
  A thread that waits for the mutex of the log while the handler has it gets it after the file
  has been closed, and writes to the closed file.
\<close>

lemma log_used_after_close:
  "run_threads (server_thread (\<lambda>c w. ''end'')) [0, 0, 0, 0, 0, 1, 1]
     ([demo_thread Free_run [] (Some H_close), demo_thread Free_run [Log_entry ''a''] None], demo_shut_state None)
   = Some (Inl NullDeref)"
  by (simp add: server_thread_def handler_step_def ordinary_step_def do_work_def demo_thread_def demo_shut_state_def)

end
