(* ===== verification/Linked_List.thy ===== *)
theory Linked_List
  imports C_Library Node_Heap
begin

text \<open>
  The singly linked list with head, foot and size (\<open>workshop/linked-list.c\<close>), on a heap of
  nodes: an address maps to its node while it is allocated, a pointer is an address or
  \<open>NULL\<close>, and a read or write through \<open>NULL\<close> or a freed address is an error. \<open>malloc\<close> gives
  an address that was never in use. Loops that follow the links until \<open>NULL\<close> are partial
  functions: on a cyclic heap they do not return. Each operation is shown to implement the
  operation on lists that its comment describes, except that \<open>poplinkedlist\<close> on a list with
  one element leaves the list as it is. Allocation does not fail, lists are not \<open>NULL\<close>, and
  positions stay below the bound of \<open>int\<close>, the type of the loop counters.
\<close>

section \<open>Data\<close>

type_synonym linkedlistnode_t = "int node"

record linkedlist_t =
  ll_head :: "node_addr option"
  ll_foot :: "node_addr option"
  ll_size :: nat

record ll_state =
  ll_heap :: "node_addr \<Rightarrow> linkedlistnode_t option"
  ll_fresh :: node_addr
  ll_list :: linkedlist_t

definition c_assert :: "bool \<Rightarrow> unit res" where
  "c_assert b = (if b then Inr () else Inl AssertFail)"

section \<open>Operations\<close>

definition isconsistentlinkedlist :: "linkedlist_t \<Rightarrow> bool" where
  "isconsistentlinkedlist l \<longleftrightarrow>
     ((ll_head l = None) = (ll_foot l = None)) \<and> ((ll_foot l = None) = (ll_size l = 0))"

definition newlinkedlist :: ll_state where
  "newlinkedlist = \<lparr>ll_heap = (\<lambda>_. None), ll_fresh = 0,
     ll_list = \<lparr>ll_head = None, ll_foot = None, ll_size = 0\<rparr>\<rparr>"

text \<open>The loop \<open>for (i = 0; i < k; i++)\<close> that moves a pointer \<open>k\<close> nodes on.\<close>

fun walk :: "(node_addr \<Rightarrow> linkedlistnode_t option) \<Rightarrow> nat \<Rightarrow> node_addr option \<Rightarrow> node_addr option res" where
  "walk h 0 p = Inr p"
| "walk h (Suc k) p =
     res_bind (c_assert (p \<noteq> None)) (\<lambda>_.
     res_bind (load_node h p) (\<lambda>n. walk h k (nd_next n)))"

definition getatlinkedlist :: "ll_state \<Rightarrow> nat \<Rightarrow> int res" where
  "getatlinkedlist s index =
     res_bind (c_assert (ll_head (ll_list s) \<noteq> None \<and> ll_size (ll_list s) > index)) (\<lambda>_.
     res_bind (walk (ll_heap s) index (ll_head (ll_list s))) (\<lambda>p.
     res_bind (load_node (ll_heap s) p) (\<lambda>n. Inr (nd_data n))))"

definition malloc_node :: "int \<Rightarrow> ll_state \<Rightarrow> node_addr \<times> ll_state" where
  "malloc_node data s =
     (ll_fresh s, s\<lparr>ll_heap := (ll_heap s)(ll_fresh s \<mapsto> \<lparr>nd_data = data, nd_next = None\<rparr>),
                   ll_fresh := ll_fresh s + 1\<rparr>)"

text \<open>The two ways of linking a new node at the end, shared by \<open>append\<close> and \<open>add\<close>.\<close>

definition link_only :: "node_addr \<Rightarrow> ll_state \<Rightarrow> ll_state" where
  "link_only node s = s\<lparr>ll_list := \<lparr>ll_head = Some node, ll_foot = Some node, ll_size = 1\<rparr>\<rparr>"

definition link_foot :: "node_addr \<Rightarrow> ll_state \<Rightarrow> ll_state res" where
  "link_foot node s =
     res_bind (store_next (ll_heap s) (ll_foot (ll_list s)) (Some node)) (\<lambda>h.
       Inr (s\<lparr>ll_heap := h, ll_list := (ll_list s)\<lparr>ll_foot := Some node,
                ll_size := ll_size (ll_list s) + 1\<rparr>\<rparr>))"

definition appendlinkedlist :: "ll_state \<Rightarrow> int \<Rightarrow> ll_state res" where
  "appendlinkedlist s data =
     res_bind (c_assert (isconsistentlinkedlist (ll_list s))) (\<lambda>_.
       case malloc_node data s of (node, s') \<Rightarrow>
         if ll_size (ll_list s') = 0 then Inr (link_only node s') else link_foot node s')"

definition addlinkedlist :: "ll_state \<Rightarrow> nat \<Rightarrow> int \<Rightarrow> ll_state res" where
  "addlinkedlist s index data =
     res_bind (c_assert (ll_size (ll_list s) \<ge> index \<and> isconsistentlinkedlist (ll_list s))) (\<lambda>_.
       case malloc_node data s of (node, s') \<Rightarrow>
         let l = ll_list s' in
         if ll_size l = 0 then Inr (link_only node s')
         else if index = 0
         then res_bind (store_next (ll_heap s') (Some node) (ll_head l)) (\<lambda>h.
                Inr (s'\<lparr>ll_heap := h, ll_list := l\<lparr>ll_head := Some node, ll_size := ll_size l + 1\<rparr>\<rparr>))
         else if index = ll_size l then link_foot node s'
         else res_bind (walk (ll_heap s') (index - 1) (ll_head l)) (\<lambda>nodei.
              res_bind (load_node (ll_heap s') nodei) (\<lambda>ni.
              res_bind (store_next (ll_heap s') (Some node) (nd_next ni)) (\<lambda>h.
              res_bind (store_next h nodei (Some node)) (\<lambda>h'.
                Inr (s'\<lparr>ll_heap := h', ll_list := l\<lparr>ll_size := ll_size l + 1\<rparr>\<rparr>))))))"

text \<open>The loop of \<open>poplinkedlist\<close>.\<close>

partial_function (option) pop_loop :: "node_addr option \<Rightarrow> ll_state \<Rightarrow> ll_state res option" where
  "pop_loop node s =
     (case node of
        None \<Rightarrow> Some (Inr s)
      | Some a \<Rightarrow>
          (case load_node (ll_heap s) node of
             Inl e \<Rightarrow> Some (Inl e)
           | Inr n \<Rightarrow>
               (if nd_next n = ll_foot (ll_list s)
                then (case free_node (ll_heap s) (ll_foot (ll_list s)) of
                        Inl e \<Rightarrow> Some (Inl e)
                      | Inr h \<Rightarrow>
                          (case store_next h node None of
                             Inl e \<Rightarrow> Some (Inl e)
                           | Inr h' \<Rightarrow>
                               pop_loop None (s\<lparr>ll_heap := h',
                                 ll_list := (ll_list s)\<lparr>ll_foot := node,
                                   ll_size := ll_size (ll_list s) - 1\<rparr>\<rparr>)))
                else pop_loop (nd_next n) s)))"

definition poplinkedlist :: "ll_state \<Rightarrow> (int \<times> ll_state) res option" where
  "poplinkedlist s =
     (if \<not> (ll_head (ll_list s) \<noteq> None \<and> isconsistentlinkedlist (ll_list s)) then Some (Inl AssertFail)
      else case load_node (ll_heap s) (ll_foot (ll_list s)) of
             Inl e \<Rightarrow> Some (Inl e)
           | Inr n \<Rightarrow>
               (case pop_loop (ll_head (ll_list s)) s of
                  None \<Rightarrow> None
                | Some (Inl e) \<Rightarrow> Some (Inl e)
                | Some (Inr s') \<Rightarrow> Some (Inr (nd_data n, s'))))"

definition removeatlinkedlist :: "ll_state \<Rightarrow> nat \<Rightarrow> (int \<times> ll_state) res" where
  "removeatlinkedlist s index =
     (let l = ll_list s in
      res_bind (c_assert (ll_size l > index \<and> isconsistentlinkedlist l)) (\<lambda>_.
        if ll_size l = 1
        then res_bind (load_node (ll_heap s) (ll_head l)) (\<lambda>n.
             res_bind (free_node (ll_heap s) (ll_head l)) (\<lambda>h.
               Inr (nd_data n, s\<lparr>ll_heap := h,
                 ll_list := \<lparr>ll_head = None, ll_foot = None, ll_size = 0\<rparr>\<rparr>)))
        else if index = 0
        then res_bind (load_node (ll_heap s) (ll_head l)) (\<lambda>n.
             res_bind (free_node (ll_heap s) (ll_head l)) (\<lambda>h.
               Inr (nd_data n, s\<lparr>ll_heap := h,
                 ll_list := l\<lparr>ll_head := nd_next n, ll_size := ll_size l - 1\<rparr>\<rparr>)))
        else res_bind (walk (ll_heap s) (index - 1) (ll_head l)) (\<lambda>nodei.
             res_bind (load_node (ll_heap s) nodei) (\<lambda>ni.
             res_bind (c_assert (index = ll_size l - 1 \<longrightarrow> nd_next ni = ll_foot l)) (\<lambda>_.
             res_bind (load_node (ll_heap s) (nd_next ni)) (\<lambda>n.
             res_bind (store_next (ll_heap s) nodei (nd_next n)) (\<lambda>h.
             res_bind (free_node h (nd_next ni)) (\<lambda>h'.
               Inr (nd_data n, s\<lparr>ll_heap := h', ll_list := l
                 \<lparr>ll_foot := (if index = ll_size l - 1 then nodei else ll_foot l),
                  ll_size := ll_size l - 1\<rparr>\<rparr>)))))))))"

text \<open>The loop of \<open>removefromlinkedlist\<close>: the result tells whether the value was found.\<close>

definition unlink_found ::
  "node_addr option \<Rightarrow> node_addr option \<Rightarrow> linkedlistnode_t \<Rightarrow> ll_state \<Rightarrow> (int \<times> ll_state) res" where
  "unlink_found prevnode node n s =
     (let l = ll_list s in
      if ll_size l = 1
      then res_bind (free_node (ll_heap s) (ll_head l)) (\<lambda>h.
             Inr (1, s\<lparr>ll_heap := h, ll_list := \<lparr>ll_head = None, ll_foot = None, ll_size = 0\<rparr>\<rparr>))
      else if node = ll_head l
      then res_bind (free_node (ll_heap s) node) (\<lambda>h.
             Inr (1, s\<lparr>ll_heap := h, ll_list := l\<lparr>ll_head := nd_next n, ll_size := ll_size l - 1\<rparr>\<rparr>))
      else res_bind (store_next (ll_heap s) prevnode (nd_next n)) (\<lambda>h.
           res_bind (free_node h node) (\<lambda>h'.
             Inr (1, s\<lparr>ll_heap := h', ll_list := l
               \<lparr>ll_foot := (if node = ll_foot l then prevnode else ll_foot l),
                ll_size := ll_size l - 1\<rparr>\<rparr>))))"

partial_function (option) removefrom_loop ::
  "node_addr option \<Rightarrow> node_addr option \<Rightarrow> int \<Rightarrow> ll_state \<Rightarrow> (int \<times> ll_state) res option" where
  "removefrom_loop prevnode node data s =
     (case node of
        None \<Rightarrow> Some (Inr (0, s))
      | Some a \<Rightarrow>
          (case load_node (ll_heap s) node of
             Inl e \<Rightarrow> Some (Inl e)
           | Inr n \<Rightarrow>
               (if nd_data n = data then Some (unlink_found prevnode node n s)
                else removefrom_loop node (nd_next n) data s)))"

definition removefromlinkedlist :: "ll_state \<Rightarrow> int \<Rightarrow> (int \<times> ll_state) res option" where
  "removefromlinkedlist s data =
     (if \<not> isconsistentlinkedlist (ll_list s) then Some (Inl AssertFail)
      else removefrom_loop None (ll_head (ll_list s)) data s)"

text \<open>\<open>-1\<close> converted to \<open>size_t\<close>.\<close>

definition SIZE_MAX :: nat where "SIZE_MAX = 2 ^ 64 - 1"

partial_function (option) indexof_loop ::
  "(node_addr \<Rightarrow> linkedlistnode_t option) \<Rightarrow> node_addr option \<Rightarrow> nat \<Rightarrow> int \<Rightarrow> nat res option" where
  "indexof_loop h node i data =
     (case node of
        None \<Rightarrow> Some (Inr SIZE_MAX)
      | Some a \<Rightarrow>
          (case load_node h node of
             Inl e \<Rightarrow> Some (Inl e)
           | Inr n \<Rightarrow>
               (if nd_data n = data then Some (Inr i) else indexof_loop h (nd_next n) (i + 1) data)))"

definition indexoflinkedlist :: "ll_state \<Rightarrow> int \<Rightarrow> nat res option" where
  "indexoflinkedlist s data = indexof_loop (ll_heap s) (ll_head (ll_list s)) 0 data"

partial_function (option) toarray_loop ::
  "(node_addr \<Rightarrow> linkedlistnode_t option) \<Rightarrow> node_addr option \<Rightarrow> nat \<Rightarrow> int list \<Rightarrow> int list res option" where
  "toarray_loop h node i array =
     (case node of
        None \<Rightarrow> Some (Inr array)
      | Some a \<Rightarrow>
          (case load_node h node of
             Inl e \<Rightarrow> Some (Inl e)
           | Inr n \<Rightarrow>
               (case write_at array i (nd_data n) of
                  Inl e \<Rightarrow> Some (Inl e)
                | Inr array' \<Rightarrow> toarray_loop h (nd_next n) (i + 1) array')))"

text \<open>The allocated array has one element for each unit of the size; it starts with garbage.\<close>

definition toarraylinkedlist :: "ll_state \<Rightarrow> (nat \<Rightarrow> int) \<Rightarrow> int list res option" where
  "toarraylinkedlist s garbage =
     toarray_loop (ll_heap s) (ll_head (ll_list s)) 0 (map garbage [0..<ll_size (ll_list s)])"

definition freelinkedlist :: "ll_state \<Rightarrow> (node_addr \<Rightarrow> linkedlistnode_t option) res option" where
  "freelinkedlist s = free_loop (ll_heap s) (ll_head (ll_list s))"

declare pop_loop.simps [code] removefrom_loop.simps [code] indexof_loop.simps [code]
  toarray_loop.simps [code]

section \<open>The represented list\<close>

text \<open>
  The state represents the list \<open>xs\<close> by the nodes at \<open>as\<close>; \<open>represents_list\<close> also says that
  the heap holds no other node, so that no node of the list is leaked.
\<close>

definition ll_rep :: "ll_state \<Rightarrow> node_addr list \<Rightarrow> int list \<Rightarrow> bool" where
  "ll_rep s as xs \<longleftrightarrow> chain (ll_heap s) (ll_head (ll_list s)) as None \<and> distinct as \<and>
     ll_foot (ll_list s) = (if as = [] then None else Some (last as)) \<and>
     ll_size (ll_list s) = length as \<and> (\<forall>a \<in> set as. a < ll_fresh s) \<and>
     xs = map (node_data (ll_heap s)) as"

definition represents_list :: "ll_state \<Rightarrow> int list \<Rightarrow> bool" where
  "represents_list s xs \<longleftrightarrow> (\<exists>as. ll_rep s as xs \<and> dom (ll_heap s) = set as)"

lemma c_assert_simps [simp]: "c_assert True = Inr ()" "c_assert False = Inl AssertFail"
  by (simp_all add: c_assert_def)

lemma walk_chain: "chain h p as q \<Longrightarrow> walk h (length as) p = Inr q"
  by (induction as arbitrary: p) (auto split: option.splits)

lemma ll_rep_consistent: "ll_rep s as xs \<Longrightarrow> isconsistentlinkedlist (ll_list s)"
  using chain_hd by (fastforce simp: ll_rep_def isconsistentlinkedlist_def)

lemma ll_rep_length: "ll_rep s as xs \<Longrightarrow> length as = length xs"
  by (simp add: ll_rep_def)

section \<open>Reading\<close>

lemma chain_nth:
  assumes "chain h p as None" and "i < length as"
  obtains n where "h (as ! i) = Some n" and "walk h i p = Inr (Some (as ! i))"
    and "chain h p (take i as) (Some (as ! i))" and "chain h (nd_next n) (drop (Suc i) as) None"
proof -
  have as: "as = take i as @ as ! i # drop (Suc i) as" using assms(2) by (rule id_take_nth_drop)
  then have "chain h p (take i as @ as ! i # drop (Suc i) as) None" using assms(1) by simp
  from chain_mid [OF this] obtain n where n: "h (as ! i) = Some n" "chain h p (take i as) (Some (as ! i))"
    "chain h (nd_next n) (drop (Suc i) as) None" by blast
  from walk_chain [OF n(2)] assms(2) have "walk h i p = Inr (Some (as ! i))" by (simp add: min_def)
  with n show thesis by (intro that)
qed

lemma getatlinkedlist_eq:
  assumes "ll_rep s as xs"
  shows "getatlinkedlist s i = (if i < length xs then Inr (xs ! i) else Inl AssertFail)"
proof (cases "i < length xs")
  case True
  from assms have ch: "chain (ll_heap s) (ll_head (ll_list s)) as None" by (simp add: ll_rep_def)
  have i: "i < length as" using True ll_rep_length [OF assms] by simp
  from chain_nth [OF ch i] obtain n where
    n: "ll_heap s (as ! i) = Some n" and w: "walk (ll_heap s) i (ll_head (ll_list s)) = Inr (Some (as ! i))" .
  have "ll_head (ll_list s) \<noteq> None" using chain_hd [OF ch] i by auto
  then show ?thesis
    using True i n w assms by (auto simp: getatlinkedlist_def ll_rep_def node_data_def)
next
  case False
  with assms show ?thesis by (simp add: getatlinkedlist_def ll_rep_def)
qed

lemma indexof_loop_chain:
  "chain h p as None \<Longrightarrow> indexof_loop h p i d =
    Some (Inr (case find (\<lambda>k. node_data h (as ! k) = d) [0..<length as] of None \<Rightarrow> SIZE_MAX | Some k \<Rightarrow> i + k))"
proof (induction as arbitrary: p i)
  case Nil
  then show ?case by (subst indexof_loop.simps) simp
next
  case (Cons a as)
  then obtain n where n: "h a = Some n" "chain h (nd_next n) as None" and p: "p = Some a"
    by (auto split: option.splits)
  have shift: "find (\<lambda>k. node_data h ((a # as) ! k) = d) [0..<length (a # as)] =
      (if node_data h a = d then Some 0
       else map_option Suc (find (\<lambda>k. node_data h (as ! k) = d) [0..<length as]))"
  proof -
    have "[0..<length (a # as)] = 0 # map Suc [0..<length as]"
      by (simp add: upt_conv_Cons map_Suc_upt del: upt_Suc)
    moreover have "find (\<lambda>k. node_data h ((a # as) ! k) = d) (map Suc ks) =
        map_option Suc (find (\<lambda>k. node_data h (as ! k) = d) ks)" for ks
      by (induction ks) auto
    ultimately show ?thesis by (simp del: upt_Suc)
  qed
  show ?case
  proof (cases "nd_data n = d")
    case True
    with n show ?thesis unfolding p shift by (subst indexof_loop.simps) (simp add: node_data_def)
  next
    case False
    with n Cons.IH [OF n(2), of "i + 1"] show ?thesis
      unfolding p shift by (subst indexof_loop.simps) (auto simp: node_data_def split: option.split)
  qed
qed

text \<open>The search from the front finds the least position.\<close>

lemma first_position:
  "find P [0..<n] = (if \<exists>k < n. P k then Some (LEAST k. k < n \<and> P k) else None)"
proof (cases "find P [0..<n]")
  case None
  then show ?thesis by (auto simp: find_None_iff)
next
  case (Some k)
  then obtain j where j: "j < n" "k = j" "P j" "\<And>i. i < j \<Longrightarrow> \<not> P i"
    by (auto simp: find_Some_iff)
  then have "(LEAST k. k < n \<and> P k) = j"
    by (intro Least_equality) (auto simp: not_less [symmetric])
  with Some j show ?thesis by auto
qed

lemma toarray_loop_chain:
  assumes "chain h p as None" and "i + length as = length array"
  shows "toarray_loop h p i array = Some (Inr (take i array @ map (node_data h) as))"
  using assms
proof (induction as arbitrary: p i array)
  case Nil
  then show ?case by (subst toarray_loop.simps) simp
next
  case (Cons a as)
  then obtain n where n: "h a = Some n" "chain h (nd_next n) as None" and p: "p = Some a"
    by (auto split: option.splits)
  have i: "i < length array" using Cons.prems(2) by simp
  from Cons.IH [OF n(2), of "i + 1" "array[i := nd_data n]"] Cons.prems(2) i n show ?case
    unfolding p by (subst toarray_loop.simps) (simp add: take_Suc_conv_app_nth node_data_def)
qed

section \<open>Writing\<close>

lemma ll_rep_fresh: "ll_rep s as xs \<Longrightarrow> ll_fresh s \<notin> set as"
  by (auto simp: ll_rep_def)

lemma link_foot_rep:
  assumes rep: "ll_rep s as xs" and ne: "as \<noteq> []" and f: "f \<notin> set as" "f < ll_fresh s"
    and node: "ll_heap s f = Some \<lparr>nd_data = d, nd_next = None\<rparr>"
  shows "\<exists>s'. link_foot f s = Inr s' \<and> ll_rep s' (as @ [f]) (xs @ [d])"
proof -
  obtain bs b where as: "as = bs @ [b]" using ne by (cases as rule: rev_cases) auto
  let ?h = "ll_heap s"
  from rep have ch: "chain ?h (ll_head (ll_list s)) (bs @ [b]) None" and dist: "distinct (bs @ [b])"
    and foot: "ll_foot (ll_list s) = Some b"
    by (auto simp: ll_rep_def as)
  from chain_mid [of ?h "ll_head (ll_list s)" bs b "[]" None] ch obtain n where n: "?h b = Some n" by auto
  let ?h' = "?h(b \<mapsto> n\<lparr>nd_next := Some f\<rparr>)"
  have "chain ?h' (ll_head (ll_list s)) (bs @ [b]) (Some f)" by (rule chain_redirect [OF ch dist n])
  then have ch': "chain ?h' (ll_head (ll_list s)) (as @ [f]) None"
    using node f(1) as by (subst chain_append) auto
  have data: "xs @ [d] = map (node_data ?h') (as @ [f])"
    using rep node f(1) n as by (auto simp: ll_rep_def node_data_def)
  let ?s = "s\<lparr>ll_heap := ?h', ll_list := (ll_list s)\<lparr>ll_foot := Some f, ll_size := ll_size (ll_list s) + 1\<rparr>\<rparr>"
  have "link_foot f s = Inr ?s" using foot n by (simp add: link_foot_def)
  moreover have "ll_rep ?s (as @ [f]) (xs @ [d])"
    unfolding ll_rep_def data using ch' rep f by (auto simp: ll_rep_def)
  ultimately show ?thesis by blast
qed

lemma malloc_rep:
  assumes "ll_rep s as xs"
  shows "ll_rep (snd (malloc_node d s)) as xs" and "fst (malloc_node d s) \<notin> set as"
    and "ll_heap (snd (malloc_node d s)) (fst (malloc_node d s)) = Some \<lparr>nd_data = d, nd_next = None\<rparr>"
    and "fst (malloc_node d s) < ll_fresh (snd (malloc_node d s))"
    and "ll_list (snd (malloc_node d s)) = ll_list s"
  using assms ll_rep_fresh [OF assms] by (auto simp: malloc_node_def ll_rep_def node_data_def less_Suc_eq)

lemma link_only_rep:
  assumes "ll_heap s f = Some \<lparr>nd_data = d, nd_next = None\<rparr>" and "f < ll_fresh s"
  shows "ll_rep (link_only f s) [f] [d]"
  using assms by (simp add: link_only_def ll_rep_def node_data_def)

lemma appendlinkedlist_rep:
  assumes "ll_rep s as xs"
  shows "\<exists>s' as'. appendlinkedlist s d = Inr s' \<and> ll_rep s' as' (xs @ [d])"
proof -
  obtain f s1 where m: "malloc_node d s = (f, s1)" by fastforce
  note M = malloc_rep [OF assms, of d, unfolded m fst_conv snd_conv]
  have size: "ll_size (ll_list s1) = length as" using M(1) by (simp add: ll_rep_def)
  show ?thesis
  proof (cases "as = []")
    case True
    with link_only_rep [OF M(3,4)] assms show ?thesis
      using ll_rep_length [OF assms] ll_rep_consistent [OF assms] size
      by (auto simp: appendlinkedlist_def m)
  next
    case False
    from link_foot_rep [OF M(1) False M(2,4,3)] False size ll_rep_consistent [OF assms] show ?thesis
      by (auto simp: appendlinkedlist_def m)
  qed
qed

text \<open>Splicing a node behind the node at \<open>b\<close>.\<close>

lemma splice_rep:
  assumes rep: "ll_rep s (bs @ b # cs) xs" and cs: "cs \<noteq> []" and f: "f \<notin> set (bs @ b # cs)" "f < ll_fresh s"
    and n: "ll_heap s b = Some n" and node: "ll_heap s f = Some \<lparr>nd_data = d, nd_next = None\<rparr>"
  defines "h \<equiv> (ll_heap s)(f \<mapsto> \<lparr>nd_data = d, nd_next = nd_next n\<rparr>, b \<mapsto> n\<lparr>nd_next := Some f\<rparr>)"
  shows "ll_rep (s\<lparr>ll_heap := h, ll_list := (ll_list s)\<lparr>ll_size := ll_size (ll_list s) + 1\<rparr>\<rparr>)
    ((bs @ [b]) @ f # cs) (take (length bs + 1) xs @ d # drop (length bs + 1) xs)"
proof -
  from rep have ch: "chain (ll_heap s) (ll_head (ll_list s)) (bs @ b # cs) None"
    and dist: "distinct (bs @ b # cs)" and xs: "xs = map (node_data (ll_heap s)) (bs @ b # cs)"
    by (auto simp: ll_rep_def)
  from chain_mid [OF ch] n have parts: "chain (ll_heap s) (ll_head (ll_list s)) bs (Some b)"
    "chain (ll_heap s) (nd_next n) cs None" by auto
  have "chain h (ll_head (ll_list s)) ((bs @ [b]) @ f # cs) None"
    using parts f dist by (auto simp: h_def chain_append)
  moreover have "map (node_data h) ((bs @ [b]) @ f # cs) =
      take (length bs + 1) xs @ d # drop (length bs + 1) xs"
    using dist f n by (auto simp: h_def xs node_data_def)
  ultimately show ?thesis using rep f cs by (auto simp: ll_rep_def)
qed

lemma addlinkedlist_rep:
  assumes rep: "ll_rep s as xs" and i: "i \<le> length xs"
  shows "\<exists>s' as'. addlinkedlist s i d = Inr s' \<and> ll_rep s' as' (take i xs @ d # drop i xs)"
proof -
  obtain f s1 where m: "malloc_node d s = (f, s1)" by fastforce
  note M = malloc_rep [OF rep, of d, unfolded m fst_conv snd_conv]
  let ?l = "ll_list s1"
  have size: "ll_size ?l = length as" "length as = length xs" and ch: "chain (ll_heap s1) (ll_head ?l) as None"
    using M(1) by (auto simp: ll_rep_def)
  have pre: "c_assert (ll_size (ll_list s) \<ge> i \<and> isconsistentlinkedlist (ll_list s)) = Inr ()"
    using i ll_rep_consistent [OF rep] size M(5) by (simp add: c_assert_def)
  consider "as = []" | "as \<noteq> []" "i = 0" | "as \<noteq> []" "i \<noteq> 0" "i = length as" | "i \<noteq> 0" "i < length as"
    using i size by linarith
  then show ?thesis
  proof cases
    case 1
    with link_only_rep [OF M(3,4)] i size pre show ?thesis by (auto simp: addlinkedlist_def m)
  next
    case 2
    let ?s = "s1\<lparr>ll_heap := (ll_heap s1)(f \<mapsto> \<lparr>nd_data = d, nd_next = ll_head ?l\<rparr>),
      ll_list := ?l\<lparr>ll_head := Some f, ll_size := ll_size ?l + 1\<rparr>\<rparr>"
    have "addlinkedlist s i d = Inr ?s" using 2 pre size M(3) by (auto simp: addlinkedlist_def m Let_def)
    moreover have "ll_rep ?s (f # as) (d # xs)"
      using M(1,2,4) 2 ch by (auto simp: ll_rep_def)
    ultimately show ?thesis using 2 by auto
  next
    case 3
    with link_foot_rep [OF M(1) 3(1) M(2,4,3)] pre size show ?thesis by (auto simp: addlinkedlist_def m)
  next
    case 4
    let ?k = "i - 1"
    have k: "?k < length as" "Suc ?k = i" using 4 by auto
    let ?b = "as ! ?k" and ?bs = "take ?k as" and ?cs = "drop i as"
    have as: "as = ?bs @ ?b # ?cs" using id_take_nth_drop [OF k(1)] k(2) by simp
    from chain_nth [OF ch k(1)] obtain n where n: "ll_heap s1 ?b = Some n"
      and w: "walk (ll_heap s1) ?k (ll_head ?l) = Inr (Some ?b)" .
    have fb: "f \<noteq> ?b" using M(2) k(1) nth_mem by blast
    let ?h = "(ll_heap s1)(f \<mapsto> \<lparr>nd_data = d, nd_next = nd_next n\<rparr>, ?b \<mapsto> n\<lparr>nd_next := Some f\<rparr>)"
    let ?s = "s1\<lparr>ll_heap := ?h, ll_list := ?l\<lparr>ll_size := ll_size ?l + 1\<rparr>\<rparr>"
    have "addlinkedlist s i d = Inr ?s"
      using 4 pre size w n M(3) fb by (auto simp: addlinkedlist_def m Let_def)
    moreover have "ll_rep ?s ((?bs @ [?b]) @ f # ?cs) (take (length ?bs + 1) xs @ d # drop (length ?bs + 1) xs)"
      by (rule splice_rep [OF _ _ _ M(4) n M(3)]) (use M(1,2) as 4 in auto)
    moreover have "length ?bs + 1 = i" using k by simp
    ultimately show ?thesis by (metis (no_types, lifting))
  qed
qed

section \<open>Ownership: which nodes are allocated\<close>

lemma represents_listI:
  assumes rep: "ll_rep s as xs" and fin: "finite (dom (ll_heap s))" and card: "card (dom (ll_heap s)) = length xs"
  shows "represents_list s xs"
proof -
  have "set as \<subseteq> dom (ll_heap s)" and "card (set as) = length xs"
    using rep by (auto simp: ll_rep_def distinct_card dest: chain_allocated)
  then have "dom (ll_heap s) = set as" using card_subset_eq [OF fin] card by metis
  with rep show ?thesis by (auto simp: represents_list_def)
qed

lemma represents_list_one_moreI:
  assumes "ll_rep s' as ys" and "dom (ll_heap s') = insert a (dom (ll_heap s))" and "finite (dom (ll_heap s))"
    and "card (dom (ll_heap s)) = length xs" and "a \<notin> dom (ll_heap s)" and "length ys = Suc (length xs)"
  shows "represents_list s' ys"
proof (rule represents_listI [OF assms(1)])
  show "finite (dom (ll_heap s'))" using assms(2,3) by (metis finite_insert)
  show "card (dom (ll_heap s')) = length ys"
    using card_insert_disjoint [OF assms(3,5)] assms(2,4,6) by simp
qed

lemma represents_listE:
  assumes "represents_list s xs"
  obtains as where "ll_rep s as xs" and "finite (dom (ll_heap s))" and "card (dom (ll_heap s)) = length xs"
    and "ll_fresh s \<notin> dom (ll_heap s)" and "dom (ll_heap s) = set as"
proof -
  from assms obtain as where rep: "ll_rep s as xs" and dom: "dom (ll_heap s) = set as"
    by (auto simp: represents_list_def)
  have "card (set as) = length xs" "ll_fresh s \<notin> set as"
    using rep by (auto simp: ll_rep_def distinct_card)
  with rep dom show thesis by (intro that) auto
qed

text \<open>Which addresses each step leaves allocated.\<close>

definition one_less :: "'a set \<Rightarrow> 'a set \<Rightarrow> bool" where
  "one_less A B \<longleftrightarrow> (\<exists>a \<in> A. B = A - {a})"

lemma one_less_card: "one_less A B \<Longrightarrow> finite A \<Longrightarrow> finite B \<and> card B = card A - 1"
  by (auto simp: one_less_def)

lemma dom_free_node: "free_node h p = Inr h' \<Longrightarrow> one_less (dom h) (dom h')"
  by (force simp: one_less_def free_node_def load_node_Inr)

lemma dom_malloc_node: "malloc_node d s = (f, s') \<Longrightarrow> dom (ll_heap s') = insert (ll_fresh s) (dom (ll_heap s))"
  by (auto simp: malloc_node_def)

lemma dom_link_foot: "link_foot f s = Inr s' \<Longrightarrow> dom (ll_heap s') = dom (ll_heap s)"
  by (auto simp: link_foot_def dest!: dom_store_next del: equalityI)

lemma dom_appendlinkedlist:
  "appendlinkedlist s d = Inr s' \<Longrightarrow> dom (ll_heap s') = insert (ll_fresh s) (dom (ll_heap s))"
  by (auto simp: appendlinkedlist_def link_only_def dest!: dom_link_foot dom_malloc_node
      split: prod.splits if_splits del: equalityI)

lemma dom_addlinkedlist:
  "addlinkedlist s i d = Inr s' \<Longrightarrow> dom (ll_heap s') = insert (ll_fresh s) (dom (ll_heap s))"
  by (auto simp: addlinkedlist_def Let_def link_only_def dest!: dom_link_foot dom_malloc_node dom_store_next
      split: prod.splits if_splits del: equalityI)

lemma dom_removeatlinkedlist:
  "removeatlinkedlist s i = Inr (x, s') \<Longrightarrow> one_less (dom (ll_heap s)) (dom (ll_heap s'))"
  by (auto simp: removeatlinkedlist_def Let_def dest!: dom_free_node dom_store_next
      split: if_splits del: equalityI)

lemma dom_unlink_found:
  "unlink_found p q n s = Inr (x, s') \<Longrightarrow> one_less (dom (ll_heap s)) (dom (ll_heap s'))"
  by (auto simp: unlink_found_def Let_def dest!: dom_free_node dom_store_next
      split: if_splits del: equalityI)

section \<open>Removing\<close>

text \<open>Taking the node at \<open>c\<close> out of the chain behind the node at \<open>b\<close>.\<close>

lemma unlink_rep:
  assumes rep: "ll_rep s (bs @ b # c # cs) xs" and nb: "ll_heap s b = Some nb" and nc: "ll_heap s c = Some nc"
  defines "h \<equiv> (ll_heap s)(b \<mapsto> nb\<lparr>nd_next := nd_next nc\<rparr>, c := None)"
  shows "ll_rep (s\<lparr>ll_heap := h, ll_list := (ll_list s)\<lparr>ll_foot := (if cs = [] then Some b else ll_foot (ll_list s)),
      ll_size := ll_size (ll_list s) - 1\<rparr>\<rparr>) (bs @ b # cs) (take (length bs + 1) xs @ drop (length bs + 2) xs)"
proof -
  from rep have ch: "chain (ll_heap s) (ll_head (ll_list s)) ((bs @ [b]) @ c # cs) None"
    and dist: "distinct (bs @ b # c # cs)" and xs: "xs = map (node_data (ll_heap s)) (bs @ b # c # cs)"
    by (auto simp: ll_rep_def)
  from chain_mid [OF ch] nc have parts: "chain (ll_heap s) (ll_head (ll_list s)) (bs @ [b]) (Some c)"
    "chain (ll_heap s) (nd_next nc) cs None" by auto
  have "chain h (ll_head (ll_list s)) (bs @ b # cs) None"
    using parts dist nb by (auto simp: h_def chain_append)
  moreover have "map (node_data h) (bs @ b # cs) = take (length bs + 1) xs @ drop (length bs + 2) xs"
    using dist nb by (auto simp: h_def xs node_data_def)
  ultimately show ?thesis using rep by (auto simp: ll_rep_def)
qed

lemma unlink_head_rep:
  assumes rep: "ll_rep s (a # as) xs" and ne: "as \<noteq> []" and n: "ll_heap s a = Some n"
  shows "ll_rep (s\<lparr>ll_heap := (ll_heap s)(a := None),
      ll_list := (ll_list s)\<lparr>ll_head := nd_next n, ll_size := ll_size (ll_list s) - 1\<rparr>\<rparr>) as (tl xs)"
  using assms by (auto simp: ll_rep_def)

lemma unlink_only_rep:
  "ll_rep s [a] xs \<Longrightarrow> ll_rep (s\<lparr>ll_heap := h, ll_list := \<lparr>ll_head = None, ll_foot = None, ll_size = 0\<rparr>\<rparr>) [] []"
  by (auto simp: ll_rep_def)

lemma ll_rep_node:
  assumes "ll_rep s (bs @ c # cs) xs"
  obtains n where "ll_heap s c = Some n" and "nd_data n = xs ! length bs"
    and "chain (ll_heap s) (ll_head (ll_list s)) bs (Some c)" and "chain (ll_heap s) (nd_next n) cs None"
proof -
  from assms have ch: "chain (ll_heap s) (ll_head (ll_list s)) (bs @ c # cs) None"
    and xs: "xs = map (node_data (ll_heap s)) (bs @ c # cs)" by (auto simp: ll_rep_def)
  from chain_mid [OF ch] xs show thesis by (auto intro: that simp: nth_append node_data_def)
qed

lemma removeatlinkedlist_rep:
  assumes rep: "ll_rep s as xs" and i: "i < length xs"
  shows "\<exists>s' as'. removeatlinkedlist s i = Inr (xs ! i, s') \<and> ll_rep s' as' (take i xs @ drop (Suc i) xs)"
proof -
  let ?l = "ll_list s"
  have size: "ll_size ?l = length as" "length as = length xs" using rep by (auto simp: ll_rep_def)
  have pre: "c_assert (ll_size ?l > i \<and> isconsistentlinkedlist ?l) = Inr ()"
    using i ll_rep_consistent [OF rep] size by (simp add: c_assert_def)
  obtain a0 as0 where as0: "as = a0 # as0" using i size by (cases as) auto
  from ll_rep_node [of s "[]" a0 as0 xs] rep as0 obtain n0 where n0: "ll_heap s a0 = Some n0"
    "nd_data n0 = xs ! 0" and hd: "ll_head ?l = Some a0" by auto
  consider "as0 = []" | "as0 \<noteq> []" "i = 0" | "as0 \<noteq> []" "i \<noteq> 0" by blast
  then show ?thesis
  proof cases
    case 1
    with i size as0 have "i = 0" "length xs = 1" by auto
    then have nil: "take i xs @ drop (Suc i) xs = []" by simp
    have one: "ll_size ?l = 1" using size as0 1 by simp
    have "removeatlinkedlist s i = Inr (xs ! i, s\<lparr>ll_heap := (ll_heap s)(a0 := None),
        ll_list := \<lparr>ll_head = None, ll_foot = None, ll_size = 0\<rparr>\<rparr>)"
      unfolding removeatlinkedlist_def Let_def pre using one n0 hd \<open>i = 0\<close> by simp
    with unlink_only_rep [of s a0 xs] rep as0 1 nil show ?thesis by metis
  next
    case 2
    have "take i xs @ drop (Suc i) xs = tl xs" using 2 by (cases xs) auto
    moreover have "ll_size ?l \<noteq> 1" using size as0 2 by (cases as0) auto
    then have "removeatlinkedlist s i = Inr (xs ! i, s\<lparr>ll_heap := (ll_heap s)(a0 := None),
        ll_list := ?l\<lparr>ll_head := nd_next n0, ll_size := ll_size ?l - 1\<rparr>\<rparr>)"
      unfolding removeatlinkedlist_def Let_def pre using 2 n0 hd by simp
    ultimately show ?thesis using unlink_head_rep [of s a0 as0 xs n0] rep as0 2 n0(1) by metis
  next
    case 3
    obtain bs b where bs: "take i as = bs @ [b]"
      using 3 i size by (cases "take i as" rule: rev_cases) auto
    have lbs: "length bs + 1 = i" using arg_cong [OF bs, of length] i size by simp
    let ?c = "as ! i" and ?cs = "drop (Suc i) as"
    have as: "as = bs @ b # ?c # ?cs"
      using id_take_nth_drop [of i as] i size bs by simp
    from ll_rep_node [of s bs b "?c # ?cs" xs] rep as obtain nb where nb: "ll_heap s b = Some nb"
      and chb: "chain (ll_heap s) (ll_head ?l) bs (Some b)" and nxt: "nd_next nb = Some ?c" by auto
    from ll_rep_node [of s "bs @ [b]" ?c ?cs xs] rep as obtain nc where nc: "ll_heap s ?c = Some nc"
      and dc: "nd_data nc = xs ! i" using lbs by auto
    have w: "walk (ll_heap s) (i - 1) (ll_head ?l) = Inr (Some b)" using walk_chain [OF chb] lbs by auto
    have "distinct (bs @ b # ?c # ?cs)" using rep by (metis as ll_rep_def)
    then have bc: "b \<noteq> ?c" by simp
    have last: "i = ll_size ?l - 1 \<longleftrightarrow> ?cs = []" using size i 3 as0 by auto
    have foot: "i = ll_size ?l - 1 \<Longrightarrow> ll_foot ?l = Some ?c"
      using rep last as by (metis last_snoc ll_rep_def append_Cons append_Nil append_assoc Nil_is_append_conv list.distinct(1))
    let ?h = "(ll_heap s)(b \<mapsto> nb\<lparr>nd_next := nd_next nc\<rparr>, ?c := None)"
    let ?s = "s\<lparr>ll_heap := ?h, ll_list := ?l\<lparr>ll_foot := (if ?cs = [] then Some b else ll_foot ?l),
      ll_size := ll_size ?l - 1\<rparr>\<rparr>"
    have "ll_size ?l \<noteq> 1" using size 3 as0 by (cases as0) auto
    then have "removeatlinkedlist s i = Inr (xs ! i, ?s)"
      unfolding removeatlinkedlist_def Let_def pre
      using 3 w nb nxt nc dc bc foot [unfolded last] by (simp add: last c_assert_def del: One_nat_def)
    moreover have "ll_rep ?s (bs @ b # ?cs) (take (length bs + 1) xs @ drop (length bs + 2) xs)"
      using unlink_rep [of s bs b ?c ?cs xs nb nc] rep as nb nc by simp
    moreover have "length bs + 2 = Suc i" using lbs by simp
    ultimately show ?thesis using lbs by metis
  qed
qed

lemma pop_loop_chain:
  assumes "chain (ll_heap s) p (bs @ [b, c]) None" and "distinct (bs @ [b, c])"
    and "ll_foot (ll_list s) = Some c" and "ll_heap s b = Some nb"
  shows "pop_loop p s = Some (Inr (s\<lparr>ll_heap := (ll_heap s)(c := None, b \<mapsto> nb\<lparr>nd_next := None\<rparr>),
    ll_list := (ll_list s)\<lparr>ll_foot := Some b, ll_size := ll_size (ll_list s) - 1\<rparr>\<rparr>))"
  using assms
proof (induction bs arbitrary: p)
  case Nil
  from Nil obtain nc where "ll_heap s c = Some nc" "nd_next nb = Some c" "p = Some b" "b \<noteq> c"
    by (auto split: option.splits)
  with Nil.prems(3,4) show ?case
    by (subst pop_loop.simps) (simp, subst pop_loop.simps, simp)
next
  case (Cons a bs)
  from Cons.prems(1) obtain n where n: "ll_heap s a = Some n" "chain (ll_heap s) (nd_next n) (bs @ [b, c]) None"
    and p: "p = Some a" by (auto split: option.splits)
  have "nd_next n \<noteq> Some c"
    using n(2) Cons.prems(2) by (cases bs) auto
  then have step: "pop_loop p s = pop_loop (nd_next n) s"
    unfolding p using n(1) Cons.prems(3) by (subst pop_loop.simps) simp
  show ?case unfolding step by (rule Cons.IH [OF n(2)]) (use Cons.prems in auto)
qed

lemma poplinkedlist_rep:
  assumes rep: "ll_rep s as xs" and len: "2 \<le> length xs"
  shows "\<exists>s' as'. poplinkedlist s = Some (Inr (last xs, s')) \<and> ll_rep s' as' (butlast xs) \<and>
    one_less (dom (ll_heap s)) (dom (ll_heap s'))"
proof -
  have size: "length as = length xs" using rep by (simp add: ll_rep_def)
  obtain ds c where as1: "as = ds @ [c]" using len size by (cases as rule: rev_cases) auto
  obtain bs b where ds: "ds = bs @ [b]" using len size as1 by (cases ds rule: rev_cases) auto
  have as: "as = bs @ [b, c]" using as1 ds by simp
  from ll_rep_node [of s bs b "[c]" xs] rep as obtain nb where nb: "ll_heap s b = Some nb"
    and nxt: "nd_next nb = Some c" by auto
  from ll_rep_node [of s "bs @ [b]" c "[]" xs] rep as obtain nc where nc: "ll_heap s c = Some nc"
    and dc: "nd_data nc = xs ! (length bs + 1)" and nxtc: "nd_next nc = None" by auto
  have bc: "b \<noteq> c" using rep as by (auto simp: ll_rep_def)
  have lxs: "length xs = length bs + 2" using size as by simp
  have last: "xs ! (length bs + 1) = last xs" using lxs by (subst last_conv_nth) auto
  have foot: "ll_foot (ll_list s) = Some c" and ch: "chain (ll_heap s) (ll_head (ll_list s)) (bs @ [b, c]) None"
    and dist: "distinct (bs @ [b, c])" using rep as by (auto simp: ll_rep_def)
  let ?s = "s\<lparr>ll_heap := (ll_heap s)(c := None, b \<mapsto> nb\<lparr>nd_next := None\<rparr>),
    ll_list := (ll_list s)\<lparr>ll_foot := Some b, ll_size := ll_size (ll_list s) - 1\<rparr>\<rparr>"
  have "ll_head (ll_list s) \<noteq> None" using chain_hd [OF ch] by simp
  then have pop: "poplinkedlist s = Some (Inr (last xs, ?s))"
    using pop_loop_chain [OF ch dist foot nb] foot nc dc last ll_rep_consistent [OF rep]
    by (simp add: poplinkedlist_def)
  have "(ll_heap s)(c := None, b \<mapsto> nb\<lparr>nd_next := None\<rparr>) = (ll_heap s)(b \<mapsto> nb\<lparr>nd_next := nd_next nc\<rparr>, c := None)"
    using bc nxtc by (auto simp: fun_eq_iff)
  moreover have "take (length bs + 1) xs @ drop (length bs + 2) xs = butlast xs"
    using lxs by (simp add: butlast_conv_take)
  ultimately have "ll_rep ?s (bs @ [b]) (butlast xs)"
    using unlink_rep [of s bs b c "[]" xs nb nc] rep as nb nc by simp
  moreover have "one_less (dom (ll_heap s)) (dom (ll_heap ?s))"
    unfolding one_less_def by (rule bexI [of _ c]) (use nb nc bc in \<open>auto split: if_splits\<close>)
  ultimately show ?thesis using pop by blast
qed

lemma poplinkedlist_single:
  assumes rep: "ll_rep s as [x]"
  shows "poplinkedlist s = Some (Inr (x, s))"
proof -
  obtain a where as: "as = [a]" using ll_rep_length [OF rep] by (cases as) auto
  from ll_rep_node [of s "[]" a "[]" "[x]"] rep as obtain n where n: "ll_heap s a = Some n" "nd_data n = x"
    "ll_head (ll_list s) = Some a" "nd_next n = None" by auto
  have foot: "ll_foot (ll_list s) = Some a" using rep as by (simp add: ll_rep_def)
  have "pop_loop (Some a) s = Some (Inr s)"
    using n foot by (subst pop_loop.simps) (simp, subst pop_loop.simps, simp)
  with n foot ll_rep_consistent [OF rep] show ?thesis by (simp add: poplinkedlist_def)
qed

lemma removefrom_loop_skip:
  assumes "chain h p as q" and "h = ll_heap s" and "\<forall>a \<in> set as. node_data h a \<noteq> d"
  shows "removefrom_loop prev p d s =
    removefrom_loop (if as = [] then prev else Some (last as)) q d s"
  using assms
proof (induction as arbitrary: p prev)
  case Nil
  then show ?case by simp
next
  case (Cons a as)
  from Cons.prems obtain n where n: "h a = Some n" "chain h (nd_next n) as q" and p: "p = Some a"
    by (auto split: option.splits)
  have "nd_data n \<noteq> d" using Cons.prems(3) n(1) by (simp add: node_data_def)
  then have "removefrom_loop prev p d s = removefrom_loop (Some a) (nd_next n) d s"
    unfolding p using n(1) Cons.prems(2) by (subst removefrom_loop.simps) simp
  with Cons.IH [OF n(2) Cons.prems(2)] Cons.prems(3) show ?case by simp
qed

lemma unlink_found_rep:
  assumes rep: "ll_rep s (bs @ c # cs) xs" and nc: "ll_heap s c = Some nc"
  shows "\<exists>s' as'. unlink_found (if bs = [] then None else Some (last bs)) (Some c) nc s = Inr (1, s') \<and>
    ll_rep s' as' (take (length bs) xs @ drop (Suc (length bs)) xs)"
proof -
  let ?l = "ll_list s"
  have size: "ll_size ?l = length (bs @ c # cs)" "length xs = length (bs @ c # cs)"
    and dist: "distinct (bs @ c # cs)" and foot: "ll_foot ?l = Some (last (bs @ c # cs))"
    and ch: "chain (ll_heap s) (ll_head ?l) (bs @ c # cs) None"
    using rep by (auto simp: ll_rep_def)
  have hd: "ll_head ?l = Some (hd (bs @ c # cs))" using chain_hd [OF ch] by simp
  consider "bs = []" "cs = []" | "bs = []" "cs \<noteq> []" | "bs \<noteq> []" by blast
  then show ?thesis
  proof cases
    case 1
    with unlink_only_rep [of s c xs] rep size hd nc show ?thesis
      by (auto simp: unlink_found_def)
  next
    case 2
    have "take (length bs) xs @ drop (Suc (length bs)) xs = tl xs" using 2 by (cases xs) auto
    with unlink_head_rep [of s c cs xs nc] rep 2 size hd nc show ?thesis
      by (auto simp: unlink_found_def Let_def)
  next
    case 3
    then obtain ds b where bs: "bs = ds @ [b]" by (cases bs rule: rev_cases) auto
    from ll_rep_node [of s ds b "c # cs" xs] rep bs obtain nb where nb: "ll_heap s b = Some nb" by auto
    let ?s = "s\<lparr>ll_heap := (ll_heap s)(b \<mapsto> nb\<lparr>nd_next := nd_next nc\<rparr>, c := None),
      ll_list := ?l\<lparr>ll_foot := (if cs = [] then Some b else ll_foot ?l), ll_size := ll_size ?l - 1\<rparr>\<rparr>"
    have ne: "hd (bs @ c # cs) \<noteq> c" "b \<noteq> c" using dist bs by (cases ds; auto)+
    have "Some c = ll_foot ?l \<longleftrightarrow> cs = []" using foot dist by (cases cs rule: rev_cases) auto
    then have "unlink_found (if bs = [] then None else Some (last bs)) (Some c) nc s = Inr (1, ?s)"
      using size hd nc nb ne bs by (auto simp: unlink_found_def Let_def)
    moreover have "ll_rep ?s (ds @ b # cs) (take (length ds + 1) xs @ drop (length ds + 2) xs)"
      using unlink_rep [of s ds b c cs xs nb nc] rep bs nb nc by simp
    moreover have "length bs = length ds + 1" using bs by simp
    ultimately show ?thesis by (metis One_nat_def Suc_eq_plus1 add_Suc_right numeral_2_eq_2)
  qed
qed

lemma removefromlinkedlist_rep:
  assumes rep: "ll_rep s as xs"
  shows "\<exists>s' as'. removefromlinkedlist s d = Some (Inr (if d \<in> set xs then 1 else 0, s')) \<and>
    ll_rep s' as' (remove1 d xs) \<and>
    (if d \<in> set xs then one_less (dom (ll_heap s)) (dom (ll_heap s')) else s' = s)"
proof -
  let ?h = "ll_heap s" and ?p = "ll_head (ll_list s)"
  from rep have ch: "chain ?h ?p as None" and xs: "xs = map (node_data ?h) as" by (auto simp: ll_rep_def)
  have start: "removefromlinkedlist s d = removefrom_loop None ?p d s"
    using ll_rep_consistent [OF rep] by (simp add: removefromlinkedlist_def)
  show ?thesis
  proof (cases "d \<in> set xs")
    case False
    then have "\<forall>a \<in> set as. node_data ?h a \<noteq> d" using xs by auto
    from removefrom_loop_skip [OF ch refl this, of None] have "removefromlinkedlist s d = Some (Inr (0, s))"
      unfolding start by (subst (asm) (2) removefrom_loop.simps) simp
    with False rep show ?thesis by (auto simp: remove1_idem)
  next
    case True
    then obtain bs c cs where as: "as = bs @ c # cs" and c: "node_data ?h c = d"
      and none: "\<forall>a \<in> set bs. node_data ?h a \<noteq> d"
      using split_list_first_prop [of as "\<lambda>a. node_data ?h a = d"] xs by auto
    from ll_rep_node [of s bs c cs xs] rep as obtain nc where nc: "?h c = Some nc"
      and pre: "chain ?h ?p bs (Some c)" by auto
    have dc: "nd_data nc = d" using c nc by (simp add: node_data_def)
    have "removefromlinkedlist s d =
        Some (unlink_found (if bs = [] then None else Some (last bs)) (Some c) nc s)"
      unfolding start removefrom_loop_skip [OF pre refl none] using nc dc
      by (subst removefrom_loop.simps) simp
    moreover have "take (length bs) xs @ drop (Suc (length bs)) xs = remove1 d xs"
      using none c by (auto simp: xs as remove1_append)
    ultimately show ?thesis
      using unlink_found_rep [of s bs c cs xs nc] rep as nc True by (auto dest: dom_unlink_found)
  qed
qed


section \<open>The contract of a list\<close>

text \<open>
  What the users of a list rely on, whatever represents it: the operations that change a
  position and the one that reads a position, with the assertion failures of positions out
  of range.
\<close>

locale list_contract =
  fixes rep :: "'s \<Rightarrow> 'a list \<Rightarrow> bool"
    and append :: "'s \<Rightarrow> 'a \<Rightarrow> 's res"
    and add :: "'s \<Rightarrow> nat \<Rightarrow> 'a \<Rightarrow> 's res"
    and removeat :: "'s \<Rightarrow> nat \<Rightarrow> ('a \<times> 's) res"
    and getat :: "'s \<Rightarrow> nat \<Rightarrow> 'a res"
  assumes append_law: "rep s xs \<Longrightarrow> \<exists>s'. append s x = Inr s' \<and> rep s' (xs @ [x])"
    and add_law: "rep s xs \<Longrightarrow> if i \<le> length xs
      then \<exists>s'. add s i x = Inr s' \<and> rep s' (take i xs @ x # drop i xs) else add s i x = Inl AssertFail"
    and removeat_law: "rep s xs \<Longrightarrow> if i < length xs
      then \<exists>s'. removeat s i = Inr (xs ! i, s') \<and> rep s' (take i xs @ drop (Suc i) xs)
      else removeat s i = Inl AssertFail"
    and getat_law: "rep s xs \<Longrightarrow> getat s i = (if i < length xs then Inr (xs ! i) else Inl AssertFail)"
begin

lemma add_removeat:
  assumes "rep s xs" and "i \<le> length xs"
  shows "\<exists>s1 s2. add s i x = Inr s1 \<and> removeat s1 i = Inr (x, s2) \<and> rep s2 xs"
proof -
  from add_law [OF assms(1), of i x] assms(2) obtain s1 where s1: "add s i x = Inr s1"
    and rep: "rep s1 (take i xs @ x # drop i xs)" by auto
  from removeat_law [OF rep, of i] assms(2) obtain s2 where "removeat s1 i = Inr (x, s2)" "rep s2 xs"
    by (auto simp: nth_append)
  with s1 show ?thesis by blast
qed

lemma getat_add:
  assumes "rep s xs" and "i \<le> length xs" and "j \<le> length xs"
  shows "\<exists>s1. add s i x = Inr s1 \<and>
    getat s1 j = Inr (if j < i then xs ! j else if j = i then x else xs ! (j - 1))"
proof -
  from add_law [OF assms(1), of i x] assms(2) obtain s1 where s1: "add s i x = Inr s1"
    and rep: "rep s1 (take i xs @ x # drop i xs)" by auto
  have "(take i xs @ x # drop i xs) ! j = (if j < i then xs ! j else if j = i then x else xs ! (j - 1))"
    using assms(2,3) by (auto simp: nth_append nth_Cons' min_def)
  with s1 getat_law [OF rep, of j] assms(2,3) show ?thesis by auto
qed

lemma append_is_add:
  assumes "rep s xs"
  shows "\<exists>s1 s2. append s x = Inr s1 \<and> add s (length xs) x = Inr s2 \<and> rep s1 (xs @ [x]) \<and> rep s2 (xs @ [x])"
  using append_law [OF assms, of x] add_law [OF assms, of "length xs" x] by auto

end

text \<open>The linked list keeps the contract.\<close>

lemma appendlinkedlist_list:
  assumes "represents_list s xs"
  shows "\<exists>s'. appendlinkedlist s d = Inr s' \<and> represents_list s' (xs @ [d])"
proof -
  from assms obtain as where rep: "ll_rep s as xs" and own: "finite (dom (ll_heap s))"
    "card (dom (ll_heap s)) = length xs" "ll_fresh s \<notin> dom (ll_heap s)" by (rule represents_listE)
  from appendlinkedlist_rep [OF rep, of d] obtain s' as' where s': "appendlinkedlist s d = Inr s'"
    "ll_rep s' as' (xs @ [d])" by blast
  from represents_list_one_moreI [OF s'(2) dom_appendlinkedlist [OF s'(1)] own] s'(1) show ?thesis by simp
qed

lemma addlinkedlist_list:
  assumes "represents_list s xs"
  shows "if i \<le> length xs
    then \<exists>s'. addlinkedlist s i d = Inr s' \<and> represents_list s' (take i xs @ d # drop i xs)
    else addlinkedlist s i d = Inl AssertFail"
proof -
  from assms obtain as where rep: "ll_rep s as xs" and own: "finite (dom (ll_heap s))"
    "card (dom (ll_heap s)) = length xs" "ll_fresh s \<notin> dom (ll_heap s)" by (rule represents_listE)
  show ?thesis
  proof (cases "i \<le> length xs")
    case True
    from addlinkedlist_rep [OF rep True, of d] obtain s' as' where s': "addlinkedlist s i d = Inr s'"
      "ll_rep s' as' (take i xs @ d # drop i xs)" by blast
    from represents_list_one_moreI [OF s'(2) dom_addlinkedlist [OF s'(1)] own] s'(1) True show ?thesis by simp
  next
    case False
    then show ?thesis using rep by (simp add: addlinkedlist_def ll_rep_def)
  qed
qed

lemma removeatlinkedlist_list:
  assumes "represents_list s xs"
  shows "if i < length xs
    then \<exists>s'. removeatlinkedlist s i = Inr (xs ! i, s') \<and> represents_list s' (take i xs @ drop (Suc i) xs)
    else removeatlinkedlist s i = Inl AssertFail"
proof -
  from assms obtain as where rep: "ll_rep s as xs" and own: "finite (dom (ll_heap s))"
    "card (dom (ll_heap s)) = length xs" by (rule represents_listE)
  show ?thesis
  proof (cases "i < length xs")
    case True
    from removeatlinkedlist_rep [OF rep True] obtain s' as' where s': "removeatlinkedlist s i = Inr (xs ! i, s')"
      "ll_rep s' as' (take i xs @ drop (Suc i) xs)" by blast
    with own True one_less_card [OF dom_removeatlinkedlist [OF s'(1)]] show ?thesis
      by (auto intro: represents_listI)
  next
    case False
    then show ?thesis using rep by (simp add: removeatlinkedlist_def ll_rep_def)
  qed
qed

lemma getatlinkedlist_list:
  "represents_list s xs \<Longrightarrow> getatlinkedlist s i = (if i < length xs then Inr (xs ! i) else Inl AssertFail)"
  by (metis getatlinkedlist_eq represents_list_def)

interpretation ll: list_contract represents_list appendlinkedlist addlinkedlist removeatlinkedlist getatlinkedlist
  by unfold_locales
    (fact appendlinkedlist_list addlinkedlist_list removeatlinkedlist_list getatlinkedlist_list)+

lemma removefromlinkedlist_list:
  assumes "represents_list s xs"
  shows "\<exists>s'. removefromlinkedlist s d = Some (Inr (if d \<in> set xs then 1 else 0, s')) \<and>
    represents_list s' (remove1 d xs)"
proof -
  from assms obtain as where rep: "ll_rep s as xs" and own: "finite (dom (ll_heap s))"
    "card (dom (ll_heap s)) = length xs" by (rule represents_listE)
  from removefromlinkedlist_rep [OF rep, of d] obtain s' as' where
    s': "removefromlinkedlist s d = Some (Inr (if d \<in> set xs then 1 else 0, s'))"
      "ll_rep s' as' (remove1 d xs)"
      "if d \<in> set xs then one_less (dom (ll_heap s)) (dom (ll_heap s')) else s' = s" by blast
  show ?thesis
  proof (cases "d \<in> set xs")
    case True
    with s' own one_less_card [of "dom (ll_heap s)" "dom (ll_heap s')"] show ?thesis
      by (auto simp: length_remove1 intro: represents_listI)
  next
    case False
    with s' assms show ?thesis by (auto simp: remove1_idem)
  qed
qed

lemma poplinkedlist_list:
  assumes "represents_list s xs" and "2 \<le> length xs"
  shows "\<exists>s'. poplinkedlist s = Some (Inr (last xs, s')) \<and> represents_list s' (butlast xs)"
proof -
  from assms(1) obtain as where rep: "ll_rep s as xs" and own: "finite (dom (ll_heap s))"
    "card (dom (ll_heap s)) = length xs" by (rule represents_listE)
  from poplinkedlist_rep [OF rep assms(2)] obtain s' as' where
    s': "poplinkedlist s = Some (Inr (last xs, s'))" "ll_rep s' as' (butlast xs)"
      "one_less (dom (ll_heap s)) (dom (ll_heap s'))" by blast
  with own one_less_card [of "dom (ll_heap s)" "dom (ll_heap s')"] show ?thesis
    by (auto intro: represents_listI)
qed

lemma newlinkedlist_list: "represents_list newlinkedlist []"
  by (simp add: represents_list_def ll_rep_def newlinkedlist_def)

section \<open>The test program\<close>

text \<open>The result of the program is what it prints, unless a call fails or does not return.\<close>

definition report :: "string \<Rightarrow> int \<Rightarrow> string" where
  "report what x = what @ '' number '' @ CHR 0x22 # show_int x @ CHR 0x22 # '' from list'' @ [newline]"

text \<open>\<open>for (i = 0; i < list->size; i++) printf("%d ", ...)\<close>, with the count of what is left.\<close>

fun print_elements :: "ll_state \<Rightarrow> nat \<Rightarrow> nat \<Rightarrow> string res" where
  "print_elements s i 0 = Inr [newline]"
| "print_elements s i (Suc left) =
     res_bind (getatlinkedlist s i) (\<lambda>x.
     res_bind (print_elements s (i + 1) left) (\<lambda>out. Inr (show_int x @ '' '' @ out)))"

definition linked_list_main :: "string res option" where
  "linked_list_main =
     then_do (Some (appendlinkedlist newlinkedlist 11)) (\<lambda>s.
     then_do (Some (appendlinkedlist s 22)) (\<lambda>s.
     then_do (Some (appendlinkedlist s 33)) (\<lambda>s.
     then_do (Some (appendlinkedlist s 44)) (\<lambda>s.
     then_do (Some (addlinkedlist s 4 55)) (\<lambda>s.
     then_do (Some (addlinkedlist s 5 66)) (\<lambda>s.
     then_do (Some (addlinkedlist s 6 77)) (\<lambda>s.
     then_do (Some (addlinkedlist s 7 88)) (\<lambda>s.
     then_do (Some (addlinkedlist s 0 0)) (\<lambda>s.
     then_do (Some (appendlinkedlist s 99)) (\<lambda>s.
     then_do (poplinkedlist s) (\<lambda>(x1, s).
     then_do (poplinkedlist s) (\<lambda>(x2, s).
     then_do (poplinkedlist s) (\<lambda>(x3, s).
     then_do (Some (removeatlinkedlist s 0)) (\<lambda>(x4, s).
     then_do (Some (removeatlinkedlist s 4)) (\<lambda>(x5, s).
     then_do (Some (print_elements s 0 (ll_size (ll_list s)))) (\<lambda>out.
       Some (Inr (report ''popped'' x1 @ report ''popped'' x2 @ report ''popped'' x3 @
         report ''removed'' x4 @ report ''removed'' x5 @ out))))))))))))))))))"

lemma linked_list_main_prints:
  "linked_list_main = Some (Inr (report ''popped'' 99 @ report ''popped'' 88 @ report ''popped'' 77 @
     report ''removed'' 0 @ report ''removed'' 55 @ ''11 22 33 44 66 '' @ [newline]))"
  by code_simp

section \<open>Properties\<close>

text \<open>C23: Every updating operation of the linked list except \<open>poplinkedlist\<close> does on the
  represented list what its comment says, with every node of the heap in the list before and
  after: \<open>append\<close> adds at the end, \<open>add\<close> inserts at a position up to the size, \<open>removeat\<close>
  returns and removes the element of a position below the size, and \<open>removefrom\<close> removes the
  first occurrence and tells whether there was one. A position out of range fails the
  assertion. No operation reads or writes a freed node.\<close>

theorem linkedlist_updates_correct:
  assumes "represents_list s xs"
  shows "(\<exists>s'. appendlinkedlist s d = Inr s' \<and> represents_list s' (xs @ [d])) \<and>
    (if i \<le> length xs
     then \<exists>s'. addlinkedlist s i d = Inr s' \<and> represents_list s' (take i xs @ d # drop i xs)
     else addlinkedlist s i d = Inl AssertFail) \<and>
    (if i < length xs
     then \<exists>s'. removeatlinkedlist s i = Inr (xs ! i, s') \<and> represents_list s' (take i xs @ drop (Suc i) xs)
     else removeatlinkedlist s i = Inl AssertFail) \<and>
    (\<exists>s'. removefromlinkedlist s d = Some (Inr (if d \<in> set xs then 1 else 0, s')) \<and>
     represents_list s' (remove1 d xs))"
  by (intro conjI ll.append_law [OF assms] ll.add_law [OF assms] ll.removeat_law [OF assms]
    removefromlinkedlist_list [OF assms])

lemma demo_list: "\<exists>s. represents_list s [11, 22, 33]"
  using appendlinkedlist_list [OF newlinkedlist_list, of 11] appendlinkedlist_list [of _ "[11]" 22]
    appendlinkedlist_list [of _ "[11, 22]" 33] by fastforce

theorem linkedlist_updates_correct_witness:
  "\<exists>s s'. represents_list s [11, 22, 33] \<and> removefromlinkedlist s 22 = Some (Inr (1, s')) \<and>
     represents_list s' [11, 33]"
proof -
  obtain s where s: "represents_list s [11, 22, 33]" using demo_list by blast
  from linkedlist_updates_correct [OF s, of 22] s show ?thesis by auto
qed

text \<open>The reading operations of the linked list return what the represented list has, in
  finite time and without touching a node that is not allocated: the element of a position
  or a failed assertion, the first position of a value or \<open>-1\<close> as a \<open>size_t\<close>, and the array
  of all elements in order, whatever the allocated array held before. \<open>freelinkedlist\<close>
  releases every node of the list exactly once and leaves none.\<close>

theorem linkedlist_reads_correct:
  assumes "represents_list s xs"
  shows "getatlinkedlist s i = (if i < length xs then Inr (xs ! i) else Inl AssertFail) \<and>
    indexoflinkedlist s d =
      Some (Inr (if d \<in> set xs then LEAST k. k < length xs \<and> xs ! k = d else SIZE_MAX)) \<and>
    toarraylinkedlist s garbage = Some (Inr xs) \<and> freelinkedlist s = Some (Inr (\<lambda>_. None))"
proof (intro conjI)
  from assms obtain as where rep: "ll_rep s as xs" and dom: "dom (ll_heap s) = set as"
    by (rule represents_listE)
  from rep have ch: "chain (ll_heap s) (ll_head (ll_list s)) as None" and dist: "distinct as"
    and xs: "xs = map (node_data (ll_heap s)) as" and size: "ll_size (ll_list s) = length as"
    by (auto simp: ll_rep_def)
  have found: "(\<exists>k < length as. node_data (ll_heap s) (as ! k) = d) \<longleftrightarrow> d \<in> set xs"
    unfolding xs set_map image_iff Bex_def by (auto simp: in_set_conv_nth)
  show "getatlinkedlist s i = (if i < length xs then Inr (xs ! i) else Inl AssertFail)"
    by (rule ll.getat_law [OF assms])
  show "indexoflinkedlist s d = Some (Inr (if d \<in> set xs then LEAST k. k < length xs \<and> xs ! k = d else SIZE_MAX))"
    unfolding indexoflinkedlist_def indexof_loop_chain [OF ch] first_position found
    by (simp add: xs cong: conj_cong)
  show "toarraylinkedlist s garbage = Some (Inr xs)"
    using toarray_loop_chain [OF ch, of 0] size xs by (simp add: toarraylinkedlist_def)
  have "ll_heap s |` (- set as) = (\<lambda>_. None)"
    using dom by (auto simp: restrict_map_def fun_eq_iff domIff)
  then show "freelinkedlist s = Some (Inr (\<lambda>_. None))"
    using free_loop_chain [OF ch dist] by (simp add: freelinkedlist_def)
qed

theorem linkedlist_reads_correct_witness:
  "\<exists>s. represents_list s [11, 22, 33] \<and> toarraylinkedlist s (\<lambda>_. 7) = Some (Inr [11, 22, 33]) \<and>
     freelinkedlist s = Some (Inr (\<lambda>_. None))"
proof -
  obtain s where s: "represents_list s [11, 22, 33]" using demo_list by blast
  from linkedlist_reads_correct [OF s] s show ?thesis by blast
qed

text \<open>\<open>poplinkedlist\<close> returns the last element, and removes it when the list has at least
  two elements; on a list with one element it returns this element and leaves the list and
  the heap as they are, so that a further call returns the same element again. On an empty
  list the assertion fails. It returns in every case.\<close>

theorem poplinkedlist_behaviour:
  assumes "represents_list s xs"
  shows "if 2 \<le> length xs
         then \<exists>s'. poplinkedlist s = Some (Inr (last xs, s')) \<and> represents_list s' (butlast xs)
         else poplinkedlist s = Some (if xs = [] then Inl AssertFail else Inr (last xs, s))"
proof -
  from assms obtain as where rep: "ll_rep s as xs" by (rule represents_listE)
  consider "2 \<le> length xs" | x where "xs = [x]" | "xs = []" by (cases xs rule: remdups_adj.cases) auto
  then show ?thesis
  proof cases
    case 1
    then show ?thesis using poplinkedlist_list [OF assms] by simp
  next
    case 2
    then show ?thesis using rep poplinkedlist_single by auto
  next
    case 3
    then show ?thesis using rep by (auto simp: poplinkedlist_def ll_rep_def)
  qed
qed

theorem poplinkedlist_behaviour_witness:
  "(\<exists>s s'. represents_list s [11, 22, 33] \<and> poplinkedlist s = Some (Inr (33, s')) \<and> represents_list s' [11, 22]) \<and>
   (\<exists>s. represents_list s [11] \<and> poplinkedlist s = Some (Inr (11, s))) \<and>
   poplinkedlist newlinkedlist = Some (Inl AssertFail)"
proof -
  obtain s t where s: "represents_list s [11, 22, 33]" and t: "represents_list t [11]"
    using demo_list appendlinkedlist_list [OF newlinkedlist_list, of 11] by auto
  from poplinkedlist_behaviour [OF s] poplinkedlist_behaviour [OF t]
    poplinkedlist_behaviour [OF newlinkedlist_list] s t show ?thesis by auto
qed

text \<open>Inserting an element and removing at the same position gives the element and the list
  from before; between the two, a read at position \<open>j\<close> finds the elements before the position
  where they were, the new one at it, and the others one position further.\<close>

theorem linkedlist_add_removeat_roundtrip:
  assumes "represents_list s xs" and "i \<le> length xs" and "j \<le> length xs"
  shows "\<exists>s1 s2. addlinkedlist s i d = Inr s1 \<and>
    getatlinkedlist s1 j = Inr (if j < i then xs ! j else if j = i then d else xs ! (j - 1)) \<and>
    removeatlinkedlist s1 i = Inr (d, s2) \<and> represents_list s2 xs"
  using ll.add_removeat [OF assms(1,2), of d] ll.getat_add [OF assms, of d] by auto

theorem linkedlist_add_removeat_roundtrip_witness:
  "\<exists>s s1 s2. represents_list s [11, 22, 33] \<and> addlinkedlist s 1 5 = Inr s1 \<and>
     getatlinkedlist s1 2 = Inr 22 \<and> removeatlinkedlist s1 1 = Inr (5, s2) \<and> represents_list s2 [11, 22, 33]"
proof -
  obtain s where s: "represents_list s [11, 22, 33]" using demo_list by blast
  from linkedlist_add_removeat_roundtrip [OF s, of 1 2 5] s show ?thesis by auto
qed

end
