(* ===== verification/Bounded_Buffer.thy ===== *)
theory Bounded_Buffer
  imports C_Library
begin

text \<open>
  Producers and consumers over a bounded buffer that is guarded by a mutex
  (\<open>workshop/producer-consumer-problem.c\<close>). The work inside the critical sections is a
  function on the array and its free space; the threads and \<open>main\<close>, which at some time sets
  \<open>is_exiting\<close>, take their steps in any order. What was inserted is, in this order, what was
  removed followed by what is in the buffer; no access is out of bounds; and once the
  program is exiting every thread ends after few steps of its own.
\<close>

section \<open>The buffer\<close>

definition BUFFER_SIZE :: int where "BUFFER_SIZE = 5"

record buffer_state =
  bb_buffer :: "int list"
  bb_space :: int

definition buffer_init :: buffer_state where
  "buffer_init = \<lparr>bb_buffer = replicate (nat BUFFER_SIZE) 0, bb_space = BUFFER_SIZE\<rparr>"

definition buffer_has_space :: "buffer_state \<Rightarrow> bool" where
  "buffer_has_space s \<longleftrightarrow> bb_space s > 0"

definition buffer_has_item :: "buffer_state \<Rightarrow> bool" where
  "buffer_has_item s \<longleftrightarrow> bb_space s < BUFFER_SIZE"

text \<open>The work of \<open>insert_item\<close> and \<open>remove_item\<close> once there is space or an item.\<close>

definition put_item :: "int \<Rightarrow> buffer_state \<Rightarrow> buffer_state res" where
  "put_item item s =
     (let buf_pos = BUFFER_SIZE - bb_space s in
      if buf_pos < 0 then Inl OutOfBounds
      else res_bind (write_at (bb_buffer s) (nat buf_pos) item) (\<lambda>b.
             Inr (s\<lparr>bb_buffer := b, bb_space := bb_space s - 1\<rparr>)))"

text \<open>\<open>for (i = 0; i < buf_pos; i++) buffer[i] = buffer[i + 1]\<close>, with the rounds that are left.\<close>

fun push_up :: "nat \<Rightarrow> nat \<Rightarrow> int list \<Rightarrow> int list res" where
  "push_up i 0 b = Inr b"
| "push_up i (Suc left) b =
     res_bind (read_at b (i + 1)) (\<lambda>x.
     res_bind (write_at b i x) (\<lambda>b'. push_up (i + 1) left b'))"

definition take_item :: "buffer_state \<Rightarrow> (int \<times> buffer_state) res" where
  "take_item s =
     (let buf_pos = BUFFER_SIZE - bb_space s - 1 in
      res_bind (read_at (bb_buffer s) 0) (\<lambda>item.
      res_bind (push_up 0 (nat buf_pos) (bb_buffer s)) (\<lambda>b.
        Inr (item, s\<lparr>bb_buffer := b, bb_space := bb_space s + 1\<rparr>))))"

section \<open>The contract of a bounded queue\<close>

text \<open>
  What the threads rely on: below its capacity the queue takes an item at its end, when it is
  not empty it gives the first one. A history records what was put and what was taken; the
  contract is enough for it to be first in, first out.
\<close>

locale bounded_queue =
  fixes inv :: "'s \<Rightarrow> bool" and items :: "'s \<Rightarrow> 'a list" and capacity :: nat
    and put :: "'a \<Rightarrow> 's \<Rightarrow> 's res" and take_first :: "'s \<Rightarrow> ('a \<times> 's) res"
  assumes inv_capacity: "inv s \<Longrightarrow> length (items s) \<le> capacity"
    and put_law: "inv s \<Longrightarrow> length (items s) < capacity \<Longrightarrow>
      \<exists>s'. put x s = Inr s' \<and> inv s' \<and> items s' = items s @ [x]"
    and take_law: "inv s \<Longrightarrow> items s \<noteq> [] \<Longrightarrow>
      \<exists>s'. take_first s = Inr (hd (items s), s') \<and> inv s' \<and> items s' = tl (items s)"
begin

text \<open>The queue and the histories of what was put and what was taken.\<close>

definition fifo :: "'s \<Rightarrow> 'a list \<Rightarrow> 'a list \<Rightarrow> bool" where
  "fifo s ins outs \<longleftrightarrow> inv s \<and> ins = outs @ items s"

lemma fifo_put:
  "fifo s ins outs \<Longrightarrow> length (items s) < capacity \<Longrightarrow> \<exists>s'. put x s = Inr s' \<and> fifo s' (ins @ [x]) outs \<and>
    length (items s') = length (items s) + 1"
  using put_law [of s x] by (auto simp: fifo_def)

lemma fifo_take:
  "fifo s ins outs \<Longrightarrow> items s \<noteq> [] \<Longrightarrow> \<exists>x s'. take_first s = Inr (x, s') \<and> fifo s' ins (outs @ [x]) \<and>
    length (items s') + 1 = length (items s)"
  using take_law [of s] by (fastforce simp: fifo_def)

lemma fifo_prefix: "fifo s ins outs \<Longrightarrow> outs = take (length outs) ins \<and> length ins \<le> length outs + capacity"
  using inv_capacity [of s] by (auto simp: fifo_def)

end

text \<open>The array with its free space is a bounded queue.\<close>

definition buffer_inv :: "buffer_state \<Rightarrow> bool" where
  "buffer_inv s \<longleftrightarrow> length (bb_buffer s) = 5 \<and> 0 \<le> bb_space s \<and> bb_space s \<le> BUFFER_SIZE"

definition buffer_items :: "buffer_state \<Rightarrow> int list" where
  "buffer_items s = take (nat (BUFFER_SIZE - bb_space s)) (bb_buffer s)"

lemma push_up_shifts:
  assumes "i + n < length b"
  shows "push_up i n b = Inr (take i b @ take n (drop (i + 1) b) @ drop (i + n) b)"
  using assms
proof (induction n arbitrary: i b)
  case 0
  then show ?case by simp
next
  case (Suc n)
  let ?b = "b[i := b ! (i + 1)]"
  have "push_up i (Suc n) b = push_up (i + 1) n ?b" using Suc.prems by simp
  also have "\<dots> = Inr (take (i + 1) ?b @ take n (drop (i + 2) ?b) @ drop (i + 1 + n) ?b)"
    using Suc.IH [of "i + 1" ?b] Suc.prems by simp
  finally have step: "push_up i (Suc n) b =
    Inr (take (i + 1) ?b @ take n (drop (i + 2) ?b) @ drop (i + 1 + n) ?b)" .
  have "take (i + 1) ?b = take i b @ [b ! (i + 1)]"
    using Suc.prems by (simp add: take_Suc_conv_app_nth)
  moreover have "b ! (i + 1) # take n (drop (i + 2) b) = take (Suc n) (drop (i + 1) b)"
    using Suc.prems by (simp add: Cons_nth_drop_Suc [symmetric])
  moreover have "drop (i + 2) ?b = drop (i + 2) b" "drop (i + 1 + n) ?b = drop (i + Suc n) b"
    by (simp_all add: drop_update_cancel)
  ultimately show ?case unfolding step by simp
qed

lemma take_item_law:
  assumes "buffer_inv s" and "buffer_items s \<noteq> []"
  shows "\<exists>s'. take_item s = Inr (hd (buffer_items s), s') \<and> buffer_inv s' \<and> buffer_items s' = tl (buffer_items s)"
proof -
  let ?b = "bb_buffer s"
  obtain n where n: "nat (BUFFER_SIZE - bb_space s) = Suc n" "n < 5" "nat (BUFFER_SIZE - bb_space s - 1) = n"
    "nat (BUFFER_SIZE - (bb_space s + 1)) = n"
    using assms by (cases "nat (BUFFER_SIZE - bb_space s)") (auto simp: buffer_inv_def buffer_items_def BUFFER_SIZE_def)
  have len: "length ?b = 5" using assms(1) by (simp add: buffer_inv_def)
  then obtain x xs where b: "?b = x # xs" by (cases ?b) auto
  let ?s = "s\<lparr>bb_buffer := take n xs @ drop n ?b, bb_space := bb_space s + 1\<rparr>"
  have "push_up 0 n ?b = Inr (take n xs @ drop n ?b)" using push_up_shifts [of 0 n ?b] n(2) len b by simp
  then have run: "take_item s = Inr (x, ?s)" using len b by (simp add: take_item_def Let_def n(3))
  have items: "hd (buffer_items s) = x" "tl (buffer_items s) = take n xs"
    by (simp_all add: buffer_items_def n(1) b)
  have items': "buffer_items ?s = take n xs" and len': "length (take n xs @ drop n ?b) = 5"
    using n(2,4) len b by (simp_all add: buffer_items_def)
  have "0 \<le> bb_space s + 1" "bb_space s + 1 \<le> BUFFER_SIZE"
    using assms(1) n(1) by (auto simp: buffer_inv_def)
  with len' have "buffer_inv ?s" by (simp add: buffer_inv_def)
  with run items items' show ?thesis by auto
qed

lemma put_item_law:
  assumes "buffer_inv s" and "length (buffer_items s) < 5"
  shows "\<exists>s'. put_item x s = Inr s' \<and> buffer_inv s' \<and> buffer_items s' = buffer_items s @ [x]"
proof -
  let ?n = "nat (BUFFER_SIZE - bb_space s)"
  have n: "?n < 5" "length (bb_buffer s) = 5" "nat (BUFFER_SIZE - (bb_space s - 1)) = Suc ?n"
    "\<not> BUFFER_SIZE - bb_space s < 0" "0 < bb_space s"
    using assms by (auto simp: buffer_inv_def buffer_items_def BUFFER_SIZE_def min_def split: if_splits)
  let ?s = "s\<lparr>bb_buffer := (bb_buffer s)[?n := x], bb_space := bb_space s - 1\<rparr>"
  have "put_item x s = Inr ?s" using n by (simp add: put_item_def Let_def)
  moreover have "buffer_inv ?s" using assms(1) n by (simp add: buffer_inv_def)
  moreover have "buffer_items ?s = buffer_items s @ [x]"
    using n by (simp add: buffer_items_def take_Suc_conv_app_nth)
  ultimately show ?thesis by blast
qed

interpretation bb: bounded_queue buffer_inv buffer_items 5 put_item take_item
proof unfold_locales
  show "buffer_inv s \<Longrightarrow> length (buffer_items s) \<le> 5" for s
    by (simp add: buffer_inv_def buffer_items_def)
qed (fact put_item_law take_item_law)+

lemma buffer_init_fifo: "bb.fifo buffer_init [] []"
  by (simp add: bb.fifo_def buffer_inv_def buffer_items_def buffer_init_def BUFFER_SIZE_def)

lemma has_space_iff: "buffer_inv s \<Longrightarrow> buffer_has_space s \<longleftrightarrow> length (buffer_items s) < 5"
  by (auto simp: buffer_has_space_def buffer_inv_def buffer_items_def BUFFER_SIZE_def)

lemma has_item_iff: "buffer_inv s \<Longrightarrow> buffer_has_item s \<longleftrightarrow> buffer_items s \<noteq> []"
  by (auto simp: buffer_has_item_def buffer_inv_def buffer_items_def BUFFER_SIZE_def)

section \<open>Threads\<close>

text \<open>
  Where a thread is: before the test of its waiting loop, at the critical section, or back
  in \<open>producer\<close> or \<open>consumer\<close> with what the call returned; or it has ended.
\<close>

datatype pc_phase =
    P_test int
  | P_lock int
  | P_return int int
  | C_test
  | C_lock
  | C_return "int option"
  | Ended

text \<open>\<open>sy_ins\<close> and \<open>sy_outs\<close> record the items in the order in which they were inserted and removed.\<close>

record pc_system =
  sy_buf :: buffer_state
  sy_exiting :: bool
  sy_ins :: "int list"
  sy_outs :: "int list"
  sy_threads :: "pc_phase list"

text \<open>
  Back in \<open>producer\<close> or \<open>consumer\<close>: a call that failed because the program exits ends the
  thread, otherwise the thread calls again, a producer with a new item.
\<close>

definition producer_return :: "int \<Rightarrow> int \<Rightarrow> bool \<Rightarrow> pc_phase" where [simp]:
  "producer_return new r exiting = (if r = -1 \<and> exiting then Ended else P_test new)"

definition consumer_return :: "int option \<Rightarrow> bool \<Rightarrow> pc_phase" where [simp]:
  "consumer_return r exiting = (if r = None \<and> exiting then Ended else C_test)"

text \<open>
  The next step of a thread; \<open>new\<close> is the next random item of a producer. The critical section
  between \<open>pthread_mutex_lock\<close> and \<open>pthread_mutex_unlock\<close> is one step.
\<close>

fun pc_thread_step :: "int \<Rightarrow> pc_phase \<Rightarrow> pc_system \<Rightarrow> (pc_phase \<times> pc_system) res option" where
  "pc_thread_step new (P_test item) y =
     Some (Inr (if sy_exiting y then P_return item (-1) else P_lock item, y))"
| "pc_thread_step new (P_lock item) y =
     Some (if buffer_has_space (sy_buf y)
           then res_bind (put_item item (sy_buf y)) (\<lambda>b.
                  Inr (P_return item 0, y\<lparr>sy_buf := b, sy_ins := sy_ins y @ [item]\<rparr>))
           else Inr (P_test item, y))"
| "pc_thread_step new (P_return item r) y =
     Some (Inr (producer_return new r (sy_exiting y), y))"
| "pc_thread_step new C_test y =
     Some (Inr (if sy_exiting y then C_return None else C_lock, y))"
| "pc_thread_step new C_lock y =
     Some (if buffer_has_item (sy_buf y)
           then res_bind (take_item (sy_buf y)) (\<lambda>(item, b).
                  Inr (C_return (Some item), y\<lparr>sy_buf := b, sy_outs := sy_outs y @ [item]\<rparr>))
           else Inr (C_test, y))"
| "pc_thread_step new (C_return r) y =
     Some (Inr (consumer_return r (sy_exiting y), y))"
| "pc_thread_step new Ended y = None"

inductive pc_thread :: "pc_system \<Rightarrow> pc_system res \<Rightarrow> bool" where
  "t < length (sy_threads y) \<Longrightarrow> pc_thread_step new (sy_threads y ! t) y = Some r \<Longrightarrow>
   pc_thread y (res_bind r (\<lambda>(ph, y'). Inr (y'\<lparr>sy_threads := (sy_threads y)[t := ph]\<rparr>)))"

inductive pc_step :: "pc_system \<Rightarrow> pc_system \<Rightarrow> bool" where
  set_exiting: "pc_step y (y\<lparr>sy_exiting := True\<rparr>)"
| one_thread: "pc_thread y (Inr y') \<Longrightarrow> pc_step y y'"

text \<open>The start: one producer for each first item, and some consumers.\<close>

definition pc_init :: "int list \<Rightarrow> nat \<Rightarrow> pc_system" where
  "pc_init firsts consumers = \<lparr>sy_buf = buffer_init, sy_exiting = False, sy_ins = [], sy_outs = [],
     sy_threads = map P_test firsts @ replicate consumers C_test\<rparr>"

text \<open>
  \<open>main\<close>: the arguments are the duration and the numbers of producers and consumers; the lock
  is initialised, then the threads are created one after the other. After the duration, which
  may be any time, \<open>main\<close> sets \<open>is_exiting\<close> and joins the threads.
\<close>

datatype pc_call = Init_lock | Producer_array int | Create_producer nat | Consumer_array int | Create_consumer nat

definition pc_args :: "string list \<Rightarrow> (int \<times> int \<times> int) res" where
  "pc_args argv =
     (if length argv < 4 then Inl (Exit 1)
      else res_bind (atoi (argv ! 1)) (\<lambda>exec_duration.
           res_bind (atoi (argv ! 2)) (\<lambda>n_producer_threads.
           res_bind (atoi (argv ! 3)) (\<lambda>n_consumer_threads.
             Inr (exec_duration, n_producer_threads, n_consumer_threads)))))"

definition create_threads :: "int \<Rightarrow> int \<Rightarrow> pc_call list" where
  "create_threads n_producer_threads n_consumer_threads =
     Producer_array n_producer_threads # map Create_producer [0..<nat n_producer_threads] @
     Consumer_array n_consumer_threads # map Create_consumer [0..<nat n_consumer_threads]"

definition pc_main :: "(pc_call \<Rightarrow> bool) \<Rightarrow> (nat \<Rightarrow> int) \<Rightarrow> string list \<Rightarrow> (int \<times> pc_system) res" where
  "pc_main works rand argv =
     res_bind (pc_args argv) (\<lambda>(exec_duration, n_producer_threads, n_consumer_threads).
     res_bind (run_setup works (Init_lock # create_threads n_producer_threads n_consumer_threads)) (\<lambda>_.
       Inr (exec_duration, pc_init (map rand [0..<nat n_producer_threads]) (nat n_consumer_threads))))"

lemma pc_main_init:
  assumes "pc_main works rand argv = Inr (d, y0)"
  obtains firsts consumers where "y0 = pc_init firsts consumers"
  using assms by (auto simp: pc_main_def)

abbreviation pc_fifo :: "pc_system \<Rightarrow> bool" where
  "pc_fifo y \<equiv> bb.fifo (sy_buf y) (sy_ins y) (sy_outs y)"

text \<open>A step of a thread makes no error and keeps the queue first in, first out.\<close>

lemma pc_thread_step_fifo:
  assumes "pc_fifo y" and "pc_thread_step new ph y = Some r"
  shows "\<exists>ph' y'. r = Inr (ph', y') \<and> pc_fifo y' \<and> sy_threads y' = sy_threads y \<and> sy_exiting y' = sy_exiting y"
proof -
  have inv: "buffer_inv (sy_buf y)" using assms(1) by (simp add: bb.fifo_def)
  show ?thesis
  proof (cases ph)
    case (P_lock item)
    show ?thesis
    proof (cases "buffer_has_space (sy_buf y)")
      case True
      with bb.fifo_put [OF assms(1), of item] has_space_iff [OF inv] obtain b where
        "put_item item (sy_buf y) = Inr b" "bb.fifo b (sy_ins y @ [item]) (sy_outs y)" by auto
      with True P_lock assms(2) show ?thesis by auto
    qed (use P_lock assms in auto)
  next
    case C_lock
    show ?thesis
    proof (cases "buffer_has_item (sy_buf y)")
      case True
      with bb.fifo_take [OF assms(1)] has_item_iff [OF inv] obtain x b where
        "take_item (sy_buf y) = Inr (x, b)" "bb.fifo b (sy_ins y) (sy_outs y @ [x])" by auto
      with True C_lock assms(2) show ?thesis by auto
    qed (use C_lock assms in auto)
  qed (use assms in auto)
qed

lemma pc_thread_fifo:
  assumes "pc_thread y r" and "pc_fifo y"
  obtains y' where "r = Inr y'" and "pc_fifo y'" and "sy_exiting y' = sy_exiting y"
    and "length (sy_threads y') = length (sy_threads y)"
  using assms(1)
proof cases
  case (1 t new r')
  from pc_thread_step_fifo [OF assms(2) 1(3)] obtain ph' y' where
    "r' = Inr (ph', y')" "pc_fifo y'" "sy_exiting y' = sy_exiting y" by blast
  with 1 show thesis by (intro that [of "y'\<lparr>sy_threads := (sy_threads y)[t := ph']\<rparr>"]) simp_all
qed

lemma pc_reachable_fifo: "pc_step\<^sup>*\<^sup>* y y' \<Longrightarrow> pc_fifo y \<Longrightarrow> pc_fifo y'"
proof (induction rule: rtranclp_induct)
  case (step y y')
  from step(2) show ?case
  proof cases
    case one_thread
    with step show ?thesis by (blast elim: pc_thread_fifo)
  qed (use step in simp)
qed

lemma pc_init_fifo: "pc_fifo (pc_init firsts consumers)"
  using buffer_init_fifo by (simp add: pc_init_def)

section \<open>Shutting down\<close>

text \<open>How many steps a thread can still take once the program is exiting.\<close>

fun steps_left :: "pc_phase \<Rightarrow> nat" where
  "steps_left (P_lock item) = 4"
| "steps_left (P_return item r) = (if r = -1 then 1 else 3)"
| "steps_left (P_test item) = 2"
| "steps_left C_lock = 4"
| "steps_left (C_return r) = (if r = None then 1 else 3)"
| "steps_left C_test = 2"
| "steps_left Ended = 0"

definition shutdown_work :: "pc_system \<Rightarrow> nat" where
  "shutdown_work y = sum_list (map steps_left (sy_threads y))"

lemma steps_left_bound: "steps_left ph \<le> 4"
  by (cases ph) auto

lemma steps_left_zero: "steps_left ph = 0 \<longleftrightarrow> ph = Ended"
  by (cases ph) auto

lemma pc_thread_step_left:
  "pc_thread_step new ph y = Some (Inr (ph', y')) \<Longrightarrow> sy_exiting y \<Longrightarrow> steps_left ph' < steps_left ph"
  by (cases ph) (auto simp: res_bind_def split: if_splits sum.splits)

lemma sum_list_update_less:
  fixes xs :: "nat list"
  assumes "i < length xs" and "x < xs ! i"
  shows "sum_list (xs[i := x]) < sum_list xs"
proof -
  have "sum_list xs = sum_list (take i xs @ xs ! i # drop (Suc i) xs)"
    using id_take_nth_drop [OF assms(1)] by simp
  with assms show ?thesis by (simp add: upd_conv_take_nth_drop)
qed

lemma pc_thread_work:
  assumes "pc_thread y (Inr y')" and "sy_exiting y"
  shows "shutdown_work y' < shutdown_work y"
  using assms(1)
proof cases
  case (1 t new r)
  then obtain ph z where r: "r = Inr (ph, z)" "y' = z\<lparr>sy_threads := (sy_threads y)[t := ph]\<rparr>"
    by (cases r) auto
  from pc_thread_step_left [OF _ assms(2)] 1 r have "steps_left ph < steps_left (sy_threads y ! t)" by auto
  with 1 sum_list_update_less [of t "map steps_left (sy_threads y)" "steps_left ph"] r show ?thesis
    by (simp add: shutdown_work_def map_update)
qed

lemma pc_threads_work:
  assumes "((\<lambda>a b. pc_thread a (Inr b)) ^^ k) y y'" and "pc_fifo y" and "sy_exiting y"
  shows "k + shutdown_work y' \<le> shutdown_work y \<and> pc_fifo y' \<and> sy_exiting y'"
  using assms(1)
proof (induction k arbitrary: y')
  case 0
  with assms show ?case by simp
next
  case (Suc k)
  then obtain z where z: "((\<lambda>a b. pc_thread a (Inr b)) ^^ k) y z" "pc_thread z (Inr y')" by auto
  from Suc.IH [OF z(1)] have IH: "k + shutdown_work z \<le> shutdown_work y" "pc_fifo z" "sy_exiting z" by auto
  from pc_thread_work [OF z(2) IH(3)] pc_thread_fifo [OF z(2) IH(2)] IH show ?case by auto
qed

lemma pc_not_blocked:
  assumes "ph \<in> set (sy_threads y)" and "ph \<noteq> Ended"
  shows "\<exists>r. pc_thread y r"
proof -
  obtain t where t: "t < length (sy_threads y)" "sy_threads y ! t = ph" using assms(1) by (auto simp: in_set_conv_nth)
  obtain r where "pc_thread_step 0 ph y = Some r" using assms(2) by (cases ph) auto
  with t pc_thread.intros [of t y 0 r] show ?thesis by auto
qed

section \<open>Properties\<close>

text \<open>C21: In every state that producers and consumers reach, whatever the order of their steps and
  whenever the program is told to exit, the items inserted are in order those removed
  followed by those in the buffer, of which there are at most five; and the next step of any
  thread accesses the buffer only inside its bounds.\<close>

theorem mutex_buffer_fifo:
  assumes "pc_main works rand argv = Inr (d, y0)" and "pc_step\<^sup>*\<^sup>* y0 y"
  shows "sy_ins y = sy_outs y @ buffer_items (sy_buf y) \<and> length (buffer_items (sy_buf y)) \<le> 5 \<and>
    (\<forall>r. pc_thread y r \<longrightarrow> (\<exists>y'. r = Inr y'))"
proof -
  have f: "pc_fifo y" using pc_main_init [OF assms(1)] pc_reachable_fifo [OF assms(2)] pc_init_fifo by metis
  then have "sy_ins y = sy_outs y @ buffer_items (sy_buf y)" "length (buffer_items (sy_buf y)) \<le> 5"
    using bb.inv_capacity by (auto simp: bb.fifo_def)
  with f show ?thesis by (auto elim: pc_thread_fifo)
qed

lemma pc_main_demo: "pc_main (\<lambda>_. True) (\<lambda>_. 7) [''pc'', ''1'', ''1'', ''1''] = Inr (1, pc_init [7] 1)"
  by code_simp

lemma pc_first_insert:
  "pc_step\<^sup>*\<^sup>* (pc_init [7] 1) ((pc_init [7] 1)\<lparr>sy_buf := \<lparr>bb_buffer = [7, 0, 0, 0, 0], bb_space = 4\<rparr>,
     sy_ins := [7], sy_threads := [P_return 7 0, C_test]\<rparr>)"
proof -
  let ?a = "pc_init [7] 1"
  let ?b = "?a\<lparr>sy_threads := [P_lock 7, C_test]\<rparr>"
  let ?c = "?a\<lparr>sy_buf := \<lparr>bb_buffer = [7, 0, 0, 0, 0], bb_space = 4\<rparr>, sy_ins := [7],
     sy_threads := [P_return 7 0, C_test]\<rparr>"
  have "pc_thread ?a (Inr ?b)"
    using pc_thread.intros [of 0 ?a 0 "Inr (P_lock 7, ?a)"] by (simp add: pc_init_def)
  moreover have "put_item 7 (sy_buf ?b) = Inr \<lparr>bb_buffer = [7, 0, 0, 0, 0], bb_space = 4\<rparr>"
    by (simp add: pc_init_def) code_simp
  then have "pc_thread ?b (Inr ?c)"
    using pc_thread.intros [of 0 ?b 0 "Inr (P_return 7 0, ?b\<lparr>sy_buf := \<lparr>bb_buffer = [7, 0, 0, 0, 0], bb_space = 4\<rparr>,
        sy_ins := [7]\<rparr>)"]
    by (simp add: pc_init_def buffer_has_space_def buffer_init_def BUFFER_SIZE_def)
  ultimately show ?thesis by (blast intro: pc_step.one_thread rtranclp.rtrancl_refl rtranclp.rtrancl_into_rtrancl)
qed

theorem mutex_buffer_fifo_witness:
  "\<exists>y. pc_step\<^sup>*\<^sup>* (pc_init [7] 1) y \<and> sy_ins y = [7] \<and> sy_ins y = sy_outs y @ buffer_items (sy_buf y)"
  using mutex_buffer_fifo [OF pc_main_demo pc_first_insert] pc_first_insert by (intro exI conjI) auto

text \<open>Once the program is exiting, the threads of the mutex version end: together they take at
  most four steps each, no thread that has not ended is ever blocked, and no step fails, so
  that \<open>main\<close> can join all of them.\<close>

theorem mutex_buffer_shutdown:
  assumes "pc_main works rand argv = Inr (d, y0)" and "pc_step\<^sup>*\<^sup>* y0 y" and "sy_exiting y"
    and "((\<lambda>a b. pc_thread a (Inr b)) ^^ k) y y'"
  shows "k \<le> 4 * length (sy_threads y) \<and>
    ((\<exists>z. pc_thread y' (Inr z)) \<or> (\<forall>ph \<in> set (sy_threads y'). ph = Ended))"
proof -
  have f: "pc_fifo y" using pc_main_init [OF assms(1)] pc_reachable_fifo [OF assms(2)] pc_init_fifo by metis
  note work = pc_threads_work [OF assms(4) f assms(3)]
  have "shutdown_work y \<le> sum_list (map (\<lambda>_. 4) (sy_threads y))"
    unfolding shutdown_work_def by (rule sum_list_mono) (rule steps_left_bound)
  then have "k \<le> 4 * length (sy_threads y)" using work by (simp add: sum_list_triv mult.commute)
  moreover have "\<exists>z. pc_thread y' (Inr z)" if "ph \<in> set (sy_threads y')" "ph \<noteq> Ended" for ph
    using pc_not_blocked [OF that] work by (blast elim: pc_thread_fifo)
  ultimately show ?thesis by blast
qed


theorem mutex_buffer_shutdown_witness:
  "\<exists>y y'. pc_step\<^sup>*\<^sup>* (pc_init [7] 1) y \<and> sy_exiting y \<and> pc_thread y (Inr y') \<and>
     ((\<exists>z. pc_thread y' (Inr z)) \<or> (\<forall>ph \<in> set (sy_threads y'). ph = Ended))"
proof -
  let ?y = "(pc_init [7] 1)\<lparr>sy_exiting := True\<rparr>"
  have y: "pc_step\<^sup>*\<^sup>* (pc_init [7] 1) ?y" by (blast intro: pc_step.set_exiting)
  have t: "pc_thread ?y (Inr (?y\<lparr>sy_threads := [P_return 7 (-1), C_test]\<rparr>))"
    using pc_thread.intros [of 0 ?y 0 "Inr (P_return 7 (-1), ?y)"] by (simp add: pc_init_def)
  then have "((\<lambda>a b. pc_thread a (Inr b)) ^^ 1) ?y (?y\<lparr>sy_threads := [P_return 7 (-1), C_test]\<rparr>)"
    by (simp only: relpowp_1)
  from mutex_buffer_shutdown [OF pc_main_demo y _ this] y t show ?thesis
    by (intro exI [of _ ?y] exI [of _ "?y\<lparr>sy_threads := [P_return 7 (-1), C_test]\<rparr>"]) simp
qed

end
