(* ===== verification/Semaphore_Buffer.thy ===== *)
theory Semaphore_Buffer
  imports Bounded_Buffer
begin

text \<open>
  Producers and consumers over the same buffer guarded by three semaphores
  (\<open>workshop/producer-consumer-problem-semaphore.c\<close>). Here the code does not test whether there
  is space or an item: the semaphores have to make sure of it. The invariant relates their
  values to the number of threads at each point of the code. The flag \<open>is_exiting\<close> is tested
  only before a thread waits, so that a thread can wait forever when the program exits.
\<close>

section \<open>Threads\<close>

text \<open>
  Where a thread is: entering \<open>insert_item\<close> or \<open>remove_item\<close>, waiting for space or an item,
  waiting for the buffer, in the critical section, about to release the buffer, about to
  signal an item or space, or back in \<open>producer\<close> or \<open>consumer\<close>; or it has ended.
\<close>

datatype sem_phase =
    PEnter int | PWaitSpace int | PWaitBuffer int | PCritical int | PPostBuffer int | PPostItems int
  | PBack int int
  | CEnter | CWaitItems | CWaitBuffer | CCritical | CPostBuffer int | CPostSpace int
  | CBack "int option"
  | Finished

record sem_system =
  sm_buf :: buffer_state
  sm_buffer_sem :: int
  sm_space_sem :: int
  sm_items_sem :: int
  sm_exiting :: bool
  sm_ins :: "int list"
  sm_outs :: "int list"
  sm_threads :: "sem_phase list"

definition sem_producer_return :: "int \<Rightarrow> int \<Rightarrow> bool \<Rightarrow> sem_phase" where [simp]:
  "sem_producer_return new r exiting = (if r = -1 \<and> exiting then Finished else PEnter new)"

definition sem_consumer_return :: "int option \<Rightarrow> bool \<Rightarrow> sem_phase" where [simp]:
  "sem_consumer_return r exiting = (if r = None \<and> exiting then Finished else CEnter)"

text \<open>The next step of a thread, \<open>None\<close> when it waits at a semaphore that is zero or has ended.\<close>

fun sem_thread_step :: "int \<Rightarrow> sem_phase \<Rightarrow> sem_system \<Rightarrow> (sem_phase \<times> sem_system) res option" where
  "sem_thread_step new (PEnter item) y =
     Some (Inr (if sm_exiting y then PBack item (-1) else PWaitSpace item, y))"
| "sem_thread_step new (PWaitSpace item) y =
     (if sm_space_sem y > 0 then Some (Inr (PWaitBuffer item, y\<lparr>sm_space_sem := sm_space_sem y - 1\<rparr>)) else None)"
| "sem_thread_step new (PWaitBuffer item) y =
     (if sm_buffer_sem y > 0 then Some (Inr (PCritical item, y\<lparr>sm_buffer_sem := sm_buffer_sem y - 1\<rparr>)) else None)"
| "sem_thread_step new (PCritical item) y =
     Some (res_bind (put_item item (sm_buf y)) (\<lambda>b.
       Inr (PPostBuffer item, y\<lparr>sm_buf := b, sm_ins := sm_ins y @ [item]\<rparr>)))"
| "sem_thread_step new (PPostBuffer item) y =
     Some (Inr (PPostItems item, y\<lparr>sm_buffer_sem := sm_buffer_sem y + 1\<rparr>))"
| "sem_thread_step new (PPostItems item) y =
     Some (Inr (PBack item 0, y\<lparr>sm_items_sem := sm_items_sem y + 1\<rparr>))"
| "sem_thread_step new (PBack item r) y =
     Some (Inr (sem_producer_return new r (sm_exiting y), y))"
| "sem_thread_step new CEnter y =
     Some (Inr (if sm_exiting y then CBack None else CWaitItems, y))"
| "sem_thread_step new CWaitItems y =
     (if sm_items_sem y > 0 then Some (Inr (CWaitBuffer, y\<lparr>sm_items_sem := sm_items_sem y - 1\<rparr>)) else None)"
| "sem_thread_step new CWaitBuffer y =
     (if sm_buffer_sem y > 0 then Some (Inr (CCritical, y\<lparr>sm_buffer_sem := sm_buffer_sem y - 1\<rparr>)) else None)"
| "sem_thread_step new CCritical y =
     Some (res_bind (take_item (sm_buf y)) (\<lambda>(item, b).
       Inr (CPostBuffer item, y\<lparr>sm_buf := b, sm_outs := sm_outs y @ [item]\<rparr>)))"
| "sem_thread_step new (CPostBuffer item) y =
     Some (Inr (CPostSpace item, y\<lparr>sm_buffer_sem := sm_buffer_sem y + 1\<rparr>))"
| "sem_thread_step new (CPostSpace item) y =
     Some (Inr (CBack (Some item), y\<lparr>sm_space_sem := sm_space_sem y + 1\<rparr>))"
| "sem_thread_step new (CBack r) y =
     Some (Inr (sem_consumer_return r (sm_exiting y), y))"
| "sem_thread_step new Finished y = None"

inductive sem_thread :: "sem_system \<Rightarrow> sem_system res \<Rightarrow> bool" where
  "t < length (sm_threads y) \<Longrightarrow> sem_thread_step new (sm_threads y ! t) y = Some r \<Longrightarrow>
   sem_thread y (res_bind r (\<lambda>(ph, y'). Inr (y'\<lparr>sm_threads := (sm_threads y)[t := ph]\<rparr>)))"

inductive sem_step :: "sem_system \<Rightarrow> sem_system \<Rightarrow> bool" where
  sem_set_exiting: "sem_step y (y\<lparr>sm_exiting := True\<rparr>)"
| sem_one_thread: "sem_thread y (Inr y') \<Longrightarrow> sem_step y y'"

definition sem_init :: "int list \<Rightarrow> nat \<Rightarrow> sem_system" where
  "sem_init firsts consumers = \<lparr>sm_buf = buffer_init, sm_buffer_sem = 1, sm_space_sem = BUFFER_SIZE,
     sm_items_sem = 0, sm_exiting = False, sm_ins = [], sm_outs = [],
     sm_threads = map PEnter firsts @ replicate consumers CEnter\<rparr>"

text \<open>\<open>main\<close> reads its arguments and creates the threads as the mutex version does.\<close>

datatype sem_call = Init_sem string int | Thread_call pc_call

definition sem_main :: "(sem_call \<Rightarrow> bool) \<Rightarrow> (nat \<Rightarrow> int) \<Rightarrow> string list \<Rightarrow> (int \<times> sem_system) res" where
  "sem_main works rand argv =
     res_bind (pc_args argv) (\<lambda>(exec_duration, n_producer_threads, n_consumer_threads).
     res_bind (run_setup works
         ([Init_sem ''buffer_sem'' 1, Init_sem ''space_sem'' BUFFER_SIZE, Init_sem ''items_sem'' 0] @
          map Thread_call (create_threads n_producer_threads n_consumer_threads))) (\<lambda>_.
       Inr (exec_duration, sem_init (map rand [0..<nat n_producer_threads]) (nat n_consumer_threads))))"

lemma sem_main_init:
  assumes "sem_main works rand argv = Inr (d, y0)"
  obtains firsts consumers where "y0 = sem_init firsts consumers"
  using assms by (auto simp: sem_main_def)

section \<open>What the semaphores count\<close>

fun holds_space :: "sem_phase \<Rightarrow> bool" where
  "holds_space (PWaitBuffer item) = True"
| "holds_space (PCritical item) = True"
| "holds_space (CPostBuffer item) = True"
| "holds_space (CPostSpace item) = True"
| "holds_space ph = False"

fun holds_item :: "sem_phase \<Rightarrow> bool" where
  "holds_item CWaitBuffer = True"
| "holds_item CCritical = True"
| "holds_item (PPostBuffer item) = True"
| "holds_item (PPostItems item) = True"
| "holds_item ph = False"

fun holds_buffer :: "sem_phase \<Rightarrow> bool" where
  "holds_buffer (PCritical item) = True"
| "holds_buffer (PPostBuffer item) = True"
| "holds_buffer CCritical = True"
| "holds_buffer (CPostBuffer item) = True"
| "holds_buffer ph = False"

definition at_phase :: "(sem_phase \<Rightarrow> bool) \<Rightarrow> sem_system \<Rightarrow> int" where
  "at_phase P y = int (length (filter P (sm_threads y)))"

definition filled :: "sem_system \<Rightarrow> int" where
  "filled y = int (length (buffer_items (sm_buf y)))"

definition sem_inv :: "sem_system \<Rightarrow> bool" where
  "sem_inv y \<longleftrightarrow> bb.fifo (sm_buf y) (sm_ins y) (sm_outs y) \<and>
     0 \<le> sm_space_sem y \<and> 0 \<le> sm_items_sem y \<and> 0 \<le> sm_buffer_sem y \<and>
     sm_space_sem y + at_phase holds_space y + filled y = 5 \<and>
     sm_items_sem y + at_phase holds_item y = filled y \<and>
     sm_buffer_sem y + at_phase holds_buffer y = 1"

lemma at_phase_update:
  fixes y y' :: sem_system
  shows "t < length (sm_threads y) \<Longrightarrow> at_phase P (y'\<lparr>sm_threads := (sm_threads y)[t := ph]\<rparr>) =
    at_phase P y - (if P (sm_threads y ! t) then 1 else 0) + (if P ph then 1 else 0)"
  by (simp add: at_phase_def length_filter_list_update)

lemma at_phase_pos: "t < length (sm_threads y) \<Longrightarrow> P (sm_threads y ! t) \<Longrightarrow> 1 \<le> at_phase P y"
proof -
  assume t: "t < length (sm_threads y)" "P (sm_threads y ! t)"
  then have "filter P (sm_threads y) \<noteq> []" by (auto simp: filter_empty_conv)
  then show ?thesis by (cases "filter P (sm_threads y)") (auto simp: at_phase_def)
qed

lemma at_phase_nonneg: "0 \<le> at_phase P y"
  by (simp add: at_phase_def)

lemma filled_update [simp]: "filled (y\<lparr>sm_threads := ts\<rparr>) = filled y"
  by (simp add: filled_def)

lemma sem_put_inv:
  assumes inv: "sem_inv y" and t: "t < length (sm_threads y)" and ph: "sm_threads y ! t = PCritical item"
    and step: "sem_thread_step new (sm_threads y ! t) y = Some r"
  shows "\<exists>ph y'. r = Inr (ph, y') \<and> sm_exiting y' = sm_exiting y \<and> sem_inv (y'\<lparr>sm_threads := (sm_threads y)[t := ph]\<rparr>)"
proof -
  note upds = sem_inv_def at_phase_update [OF t, of holds_space] at_phase_update [OF t, of holds_item]
    at_phase_update [OF t, of holds_buffer]
  note inv' = inv [unfolded sem_inv_def]
  have "1 \<le> at_phase holds_space y" by (rule at_phase_pos [OF t]) (simp add: ph)
  then have "length (buffer_items (sm_buf y)) < 5" using inv' by (simp add: filled_def)
  from bb.fifo_put [OF _ this, of "sm_ins y" "sm_outs y" item] inv' obtain b where
    b: "put_item item (sm_buf y) = Inr b" "bb.fifo b (sm_ins y @ [item]) (sm_outs y)"
      "length (buffer_items b) = length (buffer_items (sm_buf y)) + 1" by auto
  let ?y = "y\<lparr>sm_buf := b, sm_ins := sm_ins y @ [item]\<rparr>"
  have "sem_inv (?y\<lparr>sm_threads := (sm_threads y)[t := PPostBuffer item]\<rparr>)"
    unfolding upds using b inv' ph by (simp add: filled_def)
  moreover have "r = Inr (PPostBuffer item, ?y)" using b step ph by simp
  ultimately show ?thesis by simp
qed

lemma sem_take_inv:
  assumes inv: "sem_inv y" and t: "t < length (sm_threads y)" and ph: "sm_threads y ! t = CCritical"
    and step: "sem_thread_step new (sm_threads y ! t) y = Some r"
  shows "\<exists>ph y'. r = Inr (ph, y') \<and> sm_exiting y' = sm_exiting y \<and> sem_inv (y'\<lparr>sm_threads := (sm_threads y)[t := ph]\<rparr>)"
proof -
  note upds = sem_inv_def at_phase_update [OF t, of holds_space] at_phase_update [OF t, of holds_item]
    at_phase_update [OF t, of holds_buffer]
  note inv' = inv [unfolded sem_inv_def]
  have "1 \<le> at_phase holds_item y" by (rule at_phase_pos [OF t]) (simp add: ph)
  then have "buffer_items (sm_buf y) \<noteq> []" using inv' by (auto simp: filled_def)
  from bb.fifo_take [OF _ this, of "sm_ins y" "sm_outs y"] inv' obtain x b where
    b: "take_item (sm_buf y) = Inr (x, b)" "bb.fifo b (sm_ins y) (sm_outs y @ [x])"
      "length (buffer_items b) + 1 = length (buffer_items (sm_buf y))" by auto
  let ?y = "y\<lparr>sm_buf := b, sm_outs := sm_outs y @ [x]\<rparr>"
  have "sem_inv (?y\<lparr>sm_threads := (sm_threads y)[t := CPostBuffer x]\<rparr>)"
    unfolding upds using b inv' ph by (simp add: filled_def)
  moreover have "r = Inr (CPostBuffer x, ?y)" using b step ph by simp
  ultimately show ?thesis by simp
qed

lemma sem_thread_inv_step:
  assumes inv: "sem_inv y" and t: "t < length (sm_threads y)"
    and step: "sem_thread_step new (sm_threads y ! t) y = Some r"
  shows "\<exists>ph y'. r = Inr (ph, y') \<and> sm_exiting y' = sm_exiting y \<and> sem_inv (y'\<lparr>sm_threads := (sm_threads y)[t := ph]\<rparr>)"
proof -
  note upd = at_phase_update [OF t, of holds_space] at_phase_update [OF t, of holds_item]
    at_phase_update [OF t, of holds_buffer]
  note inv' = inv [unfolded sem_inv_def]
  note upds = sem_inv_def upd
  have moved: ?thesis if "r = Inr (ph, y')" "sm_exiting y' = sm_exiting y"
    "sem_inv (y'\<lparr>sm_threads := (sm_threads y)[t := ph]\<rparr>)" for ph y'
    using that by blast
  show ?thesis
  proof (cases "sm_threads y ! t")
    case (PCritical item)
    then show ?thesis using sem_put_inv [OF inv t _ step] by blast
  next
    case CCritical
    then show ?thesis using sem_take_inv [OF inv t _ step] by blast
  next
    case (PWaitSpace item)
    with step have r: "r = Inr (PWaitBuffer item, y\<lparr>sm_space_sem := sm_space_sem y - 1\<rparr>)" "sm_space_sem y > 0" by (auto split: if_splits)
    show ?thesis by (rule moved [OF r(1)]) (use inv' r(2) PWaitSpace in \<open>simp_all add: upds filled_def\<close>)
  next
    case (PWaitBuffer item)
    with step have r: "r = Inr (PCritical item, y\<lparr>sm_buffer_sem := sm_buffer_sem y - 1\<rparr>)" "sm_buffer_sem y > 0" by (auto split: if_splits)
    show ?thesis by (rule moved [OF r(1)]) (use inv' r(2) PWaitBuffer in \<open>simp_all add: upds filled_def\<close>)
  next
    case CWaitItems
    with step have r: "r = Inr (CWaitBuffer, y\<lparr>sm_items_sem := sm_items_sem y - 1\<rparr>)" "sm_items_sem y > 0" by (auto split: if_splits)
    show ?thesis by (rule moved [OF r(1)]) (use inv' r(2) CWaitItems in \<open>simp_all add: upds filled_def\<close>)
  next
    case CWaitBuffer
    with step have r: "r = Inr (CCritical, y\<lparr>sm_buffer_sem := sm_buffer_sem y - 1\<rparr>)" "sm_buffer_sem y > 0" by (auto split: if_splits)
    show ?thesis by (rule moved [OF r(1)]) (use inv' r(2) CWaitBuffer in \<open>simp_all add: upds filled_def\<close>)
  next
    case (PPostBuffer item)
    with step have r: "r = Inr (PPostItems item, y\<lparr>sm_buffer_sem := sm_buffer_sem y + 1\<rparr>)" by (auto split: if_splits)
    show ?thesis by (rule moved [OF r]) (use inv' PPostBuffer in \<open>simp_all add: upds filled_def\<close>)
  next
    case (PPostItems item)
    with step have r: "r = Inr (PBack item 0, y\<lparr>sm_items_sem := sm_items_sem y + 1\<rparr>)" by (auto split: if_splits)
    show ?thesis by (rule moved [OF r]) (use inv' PPostItems in \<open>simp_all add: upds filled_def\<close>)
  next
    case (CPostBuffer item)
    with step have r: "r = Inr (CPostSpace item, y\<lparr>sm_buffer_sem := sm_buffer_sem y + 1\<rparr>)" by (auto split: if_splits)
    show ?thesis by (rule moved [OF r]) (use inv' CPostBuffer in \<open>simp_all add: upds filled_def\<close>)
  next
    case (CPostSpace item)
    with step have r: "r = Inr (CBack (Some item), y\<lparr>sm_space_sem := sm_space_sem y + 1\<rparr>)" by (auto split: if_splits)
    show ?thesis by (rule moved [OF r]) (use inv' CPostSpace in \<open>simp_all add: upds filled_def\<close>)
  next
    case (PEnter item)
    with step have r: "r = Inr (if sm_exiting y then PBack item (-1) else PWaitSpace item, y)" by (auto split: if_splits)
    show ?thesis by (rule moved [OF r]) (use inv' PEnter in \<open>simp_all add: upds filled_def\<close>)
  next
    case (PBack item q)
    with step have r: "r = Inr (if q = -1 \<and> sm_exiting y then Finished else PEnter new, y)" by (auto split: if_splits)
    show ?thesis by (rule moved [OF r]) (use inv' PBack in \<open>simp_all add: upds filled_def\<close>)
  next
    case CEnter
    with step have r: "r = Inr (if sm_exiting y then CBack None else CWaitItems, y)" by (auto split: if_splits)
    show ?thesis by (rule moved [OF r]) (use inv' CEnter in \<open>simp_all add: upds filled_def\<close>)
  next
    case (CBack q)
    with step have r: "r = Inr (if q = None \<and> sm_exiting y then Finished else CEnter, y)" by (auto split: if_splits)
    show ?thesis by (rule moved [OF r]) (use inv' CBack in \<open>simp_all add: upds filled_def\<close>)
  next
    case Finished
    with step show ?thesis by simp
  qed
qed

lemma sem_thread_inv:
  assumes "sem_thread y r" and "sem_inv y"
  obtains y' where "r = Inr y'" and "sem_inv y'"
  using assms(1)
proof cases
  case (1 t new r')
  from sem_thread_inv_step [OF assms(2) 1(2,3)] obtain ph y' where
    "r' = Inr (ph, y')" "sem_inv (y'\<lparr>sm_threads := (sm_threads y)[t := ph]\<rparr>)" by blast
  with 1 show thesis by (intro that [of "y'\<lparr>sm_threads := (sm_threads y)[t := ph]\<rparr>"]) simp_all
qed

lemma sem_reachable_inv: "sem_step\<^sup>*\<^sup>* y y' \<Longrightarrow> sem_inv y \<Longrightarrow> sem_inv y'"
proof (induction rule: rtranclp_induct)
  case (step y y')
  from step(2) show ?case
  proof cases
    case sem_set_exiting
    with step show ?thesis by (simp add: sem_inv_def at_phase_def filled_def)
  next
    case sem_one_thread
    with step show ?thesis by (blast elim: sem_thread_inv)
  qed
qed

lemma sem_init_inv: "sem_inv (sem_init firsts consumers)"
  using buffer_init_fifo
  by (simp add: sem_inv_def sem_init_def at_phase_def filled_def BUFFER_SIZE_def buffer_init_def buffer_items_def comp_def)

section \<open>No deadlock while the program runs\<close>

fun is_producer :: "sem_phase \<Rightarrow> bool" where
  "is_producer (PEnter item) = True" | "is_producer (PWaitSpace item) = True"
| "is_producer (PWaitBuffer item) = True" | "is_producer (PCritical item) = True"
| "is_producer (PPostBuffer item) = True" | "is_producer (PPostItems item) = True"
| "is_producer (PBack item r) = True" | "is_producer ph = False"

fun is_consumer :: "sem_phase \<Rightarrow> bool" where
  "is_consumer CEnter = True" | "is_consumer CWaitItems = True" | "is_consumer CWaitBuffer = True"
| "is_consumer CCritical = True" | "is_consumer (CPostBuffer item) = True"
| "is_consumer (CPostSpace item) = True" | "is_consumer (CBack r) = True" | "is_consumer ph = False"

lemma sem_thread_step_kind:
  "sem_thread_step new ph y = Some (Inr (ph', y')) \<Longrightarrow> sm_exiting y' = sm_exiting y \<and>
    (\<not> sm_exiting y \<longrightarrow> is_producer ph' = is_producer ph \<and> is_consumer ph' = is_consumer ph)"
  by (cases ph) (auto simp: res_bind_def split: if_splits sum.splits prod.splits)

definition kinds :: "sem_system \<Rightarrow> (bool \<times> bool) list" where
  "kinds y = map (\<lambda>ph. (is_producer ph, is_consumer ph)) (sm_threads y)"

lemma sem_thread_kinds:
  assumes "sem_thread y (Inr y')"
  shows "sm_exiting y' = sm_exiting y \<and> (\<not> sm_exiting y \<longrightarrow> kinds y' = kinds y)"
  using assms
proof cases
  case (1 t new r)
  then obtain ph z where r: "r = Inr (ph, z)" "y' = z\<lparr>sm_threads := (sm_threads y)[t := ph]\<rparr>" by (cases r) auto
  note step = sem_thread_step_kind [of new "sm_threads y ! t" y ph z]
  have "\<not> sm_exiting y \<Longrightarrow> kinds y' = (kinds y)[t := kinds y ! t]"
    using 1 r step by (simp add: kinds_def map_update)
  with 1 r step show ?thesis by simp
qed

lemma sem_reachable_kinds:
  "sem_step\<^sup>*\<^sup>* y y' \<Longrightarrow> \<not> sm_exiting y' \<Longrightarrow> \<not> sm_exiting y \<and> kinds y' = kinds y"
proof (induction rule: rtranclp_induct)
  case (step y y')
  from step(2) show ?case
  proof cases
    case sem_one_thread
    with step sem_thread_kinds show ?thesis by metis
  qed (use step in simp)
qed simp

lemma sem_thread_possible:
  assumes "ph \<in> set (sm_threads y)" and "sem_thread_step new ph y = Some r"
  shows "\<exists>r. sem_thread y r"
  using assms sem_thread.intros by (metis in_set_conv_nth)

lemma holder_can_step:
  assumes "1 \<le> at_phase holds_buffer y"
  shows "\<exists>r. sem_thread y r"
proof -
  from assms obtain ph where ph: "ph \<in> set (sm_threads y)" "holds_buffer ph"
    by (auto simp: at_phase_def Suc_le_eq filter_empty_conv)
  obtain r where "sem_thread_step 0 ph y = Some r" using ph(2) by (cases ph) auto
  with ph(1) show ?thesis by (rule sem_thread_possible)
qed

lemma sem_no_deadlock:
  assumes inv: "sem_inv y" and p: "p \<in> set (sm_threads y)" "is_producer p"
    and c: "c \<in> set (sm_threads y)" "is_consumer c"
  shows "\<exists>r. sem_thread y r"
proof (rule ccontr)
  assume stuck: "\<nexists>r. sem_thread y r"
  then have none: "sem_thread_step 0 ph y = None" if "ph \<in> set (sm_threads y)" for ph
    using sem_thread_possible [OF that] by (cases "sem_thread_step 0 ph y") auto
  have sem: "sm_buffer_sem y > 0"
    using holder_can_step [of y] stuck inv at_phase_nonneg [of holds_buffer y] by (force simp: sem_inv_def)
  have waits: "(\<exists>i. ph = PWaitSpace i) \<or> ph = CWaitItems \<or> ph = Finished" if "ph \<in> set (sm_threads y)" for ph
    using none [OF that] sem by (cases ph) auto
  then have "filter holds_space (sm_threads y) = []" "filter holds_item (sm_threads y) = []"
    by (force simp: filter_empty_conv)+
  then have sums: "sm_space_sem y + filled y = 5" "sm_items_sem y = filled y"
    using inv by (simp_all add: sem_inv_def at_phase_def)
  from waits [OF p(1)] p(2) obtain i where "p = PWaitSpace i" by auto
  then have "sm_space_sem y = 0" using none [OF p(1)] inv by (auto simp: sem_inv_def split: if_splits)
  moreover from waits [OF c(1)] c(2) have "c = CWaitItems" by auto
  then have "sm_items_sem y = 0" using none [OF c(1)] inv by (auto simp: sem_inv_def split: if_splits)
  ultimately show False using sums by simp
qed

section \<open>Properties\<close>

text \<open>C14: In every state that the threads of the semaphore version reach, the items inserted are in
  order those removed followed by those in the buffer, of which there are at most five; at
  most one thread is inside the critical section; and the next step of any thread accesses
  the buffer inside its bounds, although the code does not test for space or items.\<close>

theorem semaphore_buffer_fifo:
  assumes "sem_main works rand argv = Inr (d, y0)" and "sem_step\<^sup>*\<^sup>* y0 y"
  shows "sm_ins y = sm_outs y @ buffer_items (sm_buf y) \<and> length (buffer_items (sm_buf y)) \<le> 5 \<and>
    length (filter holds_buffer (sm_threads y)) \<le> 1 \<and> (\<forall>r. sem_thread y r \<longrightarrow> (\<exists>y'. r = Inr y'))"
proof -
  have inv: "sem_inv y" using sem_main_init [OF assms(1)] sem_reachable_inv [OF assms(2)] sem_init_inv by metis
  then have "bb.fifo (sm_buf y) (sm_ins y) (sm_outs y)" "at_phase holds_buffer y \<le> 1"
    by (auto simp: sem_inv_def)
  then have "sm_ins y = sm_outs y @ buffer_items (sm_buf y)" "length (buffer_items (sm_buf y)) \<le> 5"
    "length (filter holds_buffer (sm_threads y)) \<le> 1"
    using bb.inv_capacity by (auto simp: bb.fifo_def at_phase_def)
  with inv show ?thesis by (auto elim: sem_thread_inv)
qed

lemma sem_main_demo: "sem_main (\<lambda>_. True) (\<lambda>_. 7) [''pc'', ''1'', ''1'', ''1''] = Inr (1, sem_init [7] 1)"
  by code_simp

lemma sem_demo_run:
  "sem_step\<^sup>*\<^sup>* (sem_init [7] 1) ((sem_init [7] 1)\<lparr>sm_exiting := True, sm_threads := [Finished, CWaitItems]\<rparr>)"
proof -
  let ?a = "sem_init [7] 1"
  let ?b = "?a\<lparr>sm_threads := [PEnter 7, CWaitItems]\<rparr>"
  let ?c = "?b\<lparr>sm_exiting := True\<rparr>"
  let ?d = "?c\<lparr>sm_threads := [PBack 7 (-1), CWaitItems]\<rparr>"
  let ?e = "?a\<lparr>sm_exiting := True, sm_threads := [Finished, CWaitItems]\<rparr>"
  have "sem_thread ?a (Inr ?b)"
    using sem_thread.intros [of 1 ?a 0 "Inr (CWaitItems, ?a)"] by (simp add: sem_init_def)
  moreover have "sem_step ?b ?c" by (rule sem_step.sem_set_exiting)
  moreover have "sem_thread ?c (Inr ?d)"
    using sem_thread.intros [of 0 ?c 0 "Inr (PBack 7 (-1), ?c)"] by (simp add: sem_init_def)
  moreover have "sem_thread ?d (Inr ?e)"
    using sem_thread.intros [of 0 ?d 0 "Inr (Finished, ?d)"] by (simp add: sem_init_def)
  ultimately show ?thesis
    by (meson sem_step.sem_one_thread converse_rtranclp_into_rtranclp rtranclp.rtrancl_refl)
qed

theorem semaphore_buffer_fifo_witness:
  "\<exists>y. sem_step\<^sup>*\<^sup>* (sem_init [7] 1) y \<and> sm_threads y = [Finished, CWaitItems] \<and>
     sm_ins y = sm_outs y @ buffer_items (sm_buf y)"
  using semaphore_buffer_fifo [OF sem_main_demo sem_demo_run] sem_demo_run by (intro exI conjI) auto

text \<open>C36: While the program runs, with at least one producer and one consumer, the semaphore
  version never deadlocks: some thread can always take its next step. But it can hang on
  exit: there is a run in which the program is told to exit, the producer ends, and the
  consumer waits for an item forever, so that \<open>main\<close> never joins it.\<close>

theorem semaphore_buffer_progress:
  assumes "firsts \<noteq> []" and "0 < consumers"
  shows "(\<forall>y. sem_step\<^sup>*\<^sup>* (sem_init firsts consumers) y \<and> \<not> sm_exiting y \<longrightarrow> (\<exists>y'. sem_thread y (Inr y'))) \<and>
    (\<exists>y. sem_step\<^sup>*\<^sup>* (sem_init [7] 1) y \<and> sm_exiting y \<and> (\<nexists>r. sem_thread y r) \<and>
       (\<exists>ph \<in> set (sm_threads y). ph \<noteq> Finished))"
proof (intro conjI allI impI)
  fix y
  assume y: "sem_step\<^sup>*\<^sup>* (sem_init firsts consumers) y \<and> \<not> sm_exiting y"
  then have inv: "sem_inv y" using sem_reachable_inv sem_init_inv by blast
  have k: "kinds y = kinds (sem_init firsts consumers)" using sem_reachable_kinds y by blast
  have "(True, False) \<in> set (kinds y)" "(False, True) \<in> set (kinds y)"
    unfolding k using assms by (auto simp: kinds_def sem_init_def image_iff neq_Nil_conv)
  then obtain p c where "p \<in> set (sm_threads y)" "is_producer p" "c \<in> set (sm_threads y)" "is_consumer c"
    by (auto simp: kinds_def)
  from sem_no_deadlock [OF inv this] show "\<exists>y'. sem_thread y (Inr y')" using inv by (blast elim: sem_thread_inv)
next
  let ?y = "(sem_init [7] 1)\<lparr>sm_exiting := True, sm_threads := [Finished, CWaitItems]\<rparr>"
  have "\<nexists>r. sem_thread ?y r"
    by (auto elim!: sem_thread.cases simp: sem_init_def less_Suc_eq)
  then show "\<exists>y. sem_step\<^sup>*\<^sup>* (sem_init [7] 1) y \<and> sm_exiting y \<and> (\<nexists>r. sem_thread y r) \<and>
      (\<exists>ph \<in> set (sm_threads y). ph \<noteq> Finished)"
    using sem_demo_run by (intro exI [of _ ?y]) simp
qed

theorem semaphore_buffer_progress_witness: "\<exists>y'. sem_thread (sem_init [7] 1) (Inr y')"
  using semaphore_buffer_progress [of "[7]" 1] by (auto simp: sem_init_def)

end
