(* ===== verification/Buffer_Shutdown.thy ===== *)
theory Buffer_Shutdown
  imports Semaphore_Buffer
begin

text \<open>
  How the two programs with producers and consumers (\<open>workshop/producer-consumer-problem.c\<close> and
  \<open>-semaphore.c\<close>) end: \<open>main\<close> sets \<open>is_exiting\<close>, joins the threads one after the other, producers
  first, and calls \<open>pthread_exit\<close>. What stands behind that call, the destruction of the mutex or
  of the semaphores, is never executed.
\<close>

section \<open>Joining the threads\<close>

text \<open>
  Where \<open>main\<close> is after it has set \<open>is_exiting\<close>: about to join thread number \<open>i\<close>, returned with a
  status, which ends the process, or ended by \<open>pthread_exit\<close>, after which the process lives until
  its last thread ends.
\<close>

datatype main_end = Joining nat | Returned int | Thread_exit

fun join_step :: "(nat \<Rightarrow> bool) \<Rightarrow> bool list \<Rightarrow> main_end \<Rightarrow> main_end option" where
  "join_step joins ended (Joining i) =
     (if i < length ended
      then if ended ! i then Some (if joins i then Joining (i + 1) else Returned 1) else None
      else Some Thread_exit)"
| "join_step joins ended (Returned r) = None"
| "join_step joins ended Thread_exit = None"

definition pc_join_step :: "(nat \<Rightarrow> bool) \<Rightarrow> pc_system \<Rightarrow> main_end \<Rightarrow> main_end option" where
  "pc_join_step joins y m = join_step joins (map (\<lambda>ph. ph = Ended) (sy_threads y)) m"

definition sem_join_step :: "(nat \<Rightarrow> bool) \<Rightarrow> sem_system \<Rightarrow> main_end \<Rightarrow> main_end option" where
  "sem_join_step joins y m = join_step joins (map (\<lambda>ph. ph = Finished) (sm_threads y)) m"

text \<open>The steps of the threads and of \<open>main\<close>.\<close>

inductive pc_exit :: "(nat \<Rightarrow> bool) \<Rightarrow> pc_system \<times> main_end \<Rightarrow> pc_system \<times> main_end \<Rightarrow> bool" for joins where
  exit_thread: "pc_thread y (Inr y') \<Longrightarrow> (\<forall>r. m \<noteq> Returned r) \<Longrightarrow> pc_exit joins (y, m) (y', m)"
| exit_main: "pc_join_step joins y m = Some m' \<Longrightarrow> pc_exit joins (y, m) (y, m')"

inductive sem_exit :: "(nat \<Rightarrow> bool) \<Rightarrow> sem_system \<times> main_end \<Rightarrow> sem_system \<times> main_end \<Rightarrow> bool" for joins where
  sem_exit_thread: "sem_thread y (Inr y') \<Longrightarrow> (\<forall>r. m \<noteq> Returned r) \<Longrightarrow> sem_exit joins (y, m) (y', m)"
| sem_exit_main: "sem_join_step joins y m = Some m' \<Longrightarrow> sem_exit joins (y, m) (y, m')"

section \<open>The end of the mutex version\<close>

definition main_left :: "nat \<Rightarrow> main_end \<Rightarrow> nat" where
  "main_left n m = (case m of Joining i \<Rightarrow> n + 1 - i | _ \<Rightarrow> 0)"

definition exit_inv :: "(nat \<Rightarrow> bool) \<Rightarrow> nat \<Rightarrow> pc_system \<times> main_end \<Rightarrow> bool" where
  "exit_inv joins n c \<longleftrightarrow> pc_fifo (fst c) \<and> sy_exiting (fst c) \<and> length (sy_threads (fst c)) = n \<and>
     (\<forall>i. snd c = Joining i \<longrightarrow> i \<le> n) \<and> (\<forall>r. snd c = Returned r \<longrightarrow> r = 1 \<and> (\<exists>i < n. \<not> joins i))"

definition exit_work :: "nat \<Rightarrow> pc_system \<times> main_end \<Rightarrow> nat" where
  "exit_work n c = shutdown_work (fst c) + main_left n (snd c)"

lemma pc_thread_exiting:
  assumes "pc_thread y (Inr y')"
  shows "sy_exiting y' = sy_exiting y" and "length (sy_threads y') = length (sy_threads y)"
proof -
  from assms obtain t new r where "pc_thread_step new (sy_threads y ! t) y = Some r"
    "Inr y' = res_bind r (\<lambda>(ph, z). Inr (z\<lparr>sy_threads := (sy_threads y)[t := ph]\<rparr>))"
    by (cases rule: pc_thread.cases)
  then obtain ph z where "pc_thread_step new (sy_threads y ! t) y = Some (Inr (ph, z))"
    "y' = z\<lparr>sy_threads := (sy_threads y)[t := ph]\<rparr>"
    by (cases r) auto
  moreover from this(1) have "sy_exiting z = sy_exiting y"
    by (cases "sy_threads y ! t") (auto split: if_splits)
  ultimately show "sy_exiting y' = sy_exiting y" "length (sy_threads y') = length (sy_threads y)" by simp_all
qed

lemma pc_exit_keeps:
  assumes "pc_exit joins c c'" and "exit_inv joins n c"
  shows "exit_inv joins n c' \<and> exit_work n c' < exit_work n c"
  using assms
proof (induction rule: pc_exit.induct)
  case (exit_thread y y' m)
  then have "pc_fifo y" "sy_exiting y" by (simp_all add: exit_inv_def)
  with exit_thread pc_thread_exiting [OF exit_thread(1)] pc_thread_work [OF exit_thread(1)] pc_thread_fifo [OF exit_thread(1)]
  show ?case by (auto simp: exit_inv_def exit_work_def)
next
  case (exit_main y m m')
  then show ?case
    by (cases m) (auto simp: pc_join_step_def exit_inv_def exit_work_def main_left_def split: if_splits)
qed

lemma pc_exits_keep:
  "(pc_exit joins ^^ k) c c' \<Longrightarrow> exit_inv joins n c \<Longrightarrow> exit_inv joins n c' \<and> k + exit_work n c' \<le> exit_work n c"
proof (induction k arbitrary: c')
  case (Suc k)
  then obtain d where "(pc_exit joins ^^ k) c d" "pc_exit joins d c'" by auto
  with Suc.IH [of d] Suc.prems(2) pc_exit_keeps [of joins d c' n] show ?case by fastforce
qed simp

lemma pc_exit_stuck:
  assumes J: "exit_inv joins n (y, m)" and stuck: "\<nexists>c. pc_exit joins (y, m) c"
  shows "m = Thread_exit \<and> (\<forall>ph \<in> set (sy_threads y). ph = Ended) \<or> m = Returned 1 \<and> (\<exists>i < n. \<not> joins i)"
proof (cases "\<exists>r. m = Returned r")
  case True
  with J show ?thesis by (auto simp: exit_inv_def)
next
  case False
  have "ph = Ended" if "ph \<in> set (sy_threads y)" for ph
  proof (rule ccontr)
    assume "ph \<noteq> Ended"
    from pc_not_blocked [OF that this] obtain r where "pc_thread y r" by blast
    moreover have "pc_fifo y" using J by (simp add: exit_inv_def)
    ultimately obtain z where "pc_thread y (Inr z)" by (blast elim: pc_thread_fifo)
    then show False using stuck False pc_exit.exit_thread by blast
  qed
  then have ended: "\<forall>ph \<in> set (sy_threads y). ph = Ended" by blast
  have "m \<noteq> Joining i" for i
  proof
    assume "m = Joining i"
    then have "pc_join_step joins y m \<noteq> None" using ended by (simp add: pc_join_step_def)
    then show False using stuck pc_exit.exit_main by blast
  qed
  with False ended show ?thesis by (cases m) auto
qed

section \<open>Properties\<close>

text \<open>C22: The mutex version ends once it has been told to: from the moment \<open>main\<close> sets \<open>is_exiting\<close>, threads and
  \<open>main\<close> together take at most five steps for each thread and one more, in any order, and when
  none can take a step, every thread has ended and \<open>main\<close> has called \<open>pthread_exit\<close>, or a call of
  \<open>pthread_join\<close> failed and \<open>main\<close> has returned 1. With semaphores this is not so: there is a run
  in which \<open>main\<close> waits forever for a consumer.\<close>

theorem buffer_main_exits:
  assumes "pc_main works rand argv = Inr (d, y0)" and "pc_step\<^sup>*\<^sup>* y0 y" and "sy_exiting y"
    and "(pc_exit joins ^^ k) (y, Joining 0) (y', m)"
  shows "k \<le> 5 * length (sy_threads y) + 1 \<and>
    ((\<exists>c. pc_exit joins (y', m) c) \<or> m = Thread_exit \<and> (\<forall>ph \<in> set (sy_threads y'). ph = Ended) \<or>
      m = Returned 1 \<and> (\<exists>i < length (sy_threads y). \<not> joins i)) \<and>
    (\<exists>z. sem_step\<^sup>*\<^sup>* (sem_init [7] 1) z \<and> sm_exiting z \<and> sem_exit (\<lambda>_. True) (z, Joining 0) (z, Joining 1) \<and>
      (\<nexists>c. sem_exit (\<lambda>_. True) (z, Joining 1) c))"
proof -
  have f: "pc_fifo y" using pc_main_init [OF assms(1)] pc_reachable_fifo [OF assms(2)] pc_init_fifo by metis
  let ?n = "length (sy_threads y)"
  have "exit_inv joins ?n (y, Joining 0)" using f assms(3) by (simp add: exit_inv_def)
  note keep = pc_exits_keep [OF assms(4) this]
  have "shutdown_work y \<le> sum_list (map (\<lambda>_. 4) (sy_threads y))"
    unfolding shutdown_work_def by (rule sum_list_mono) (rule steps_left_bound)
  then have "k \<le> 5 * ?n + 1" using keep by (simp add: exit_work_def main_left_def sum_list_triv mult.commute)
  moreover have "(\<exists>c. pc_exit joins (y', m) c) \<or> m = Thread_exit \<and> (\<forall>ph \<in> set (sy_threads y'). ph = Ended) \<or>
      m = Returned 1 \<and> (\<exists>i < ?n. \<not> joins i)"
    using pc_exit_stuck keep by blast
  moreover let ?z = "(sem_init [7] 1)\<lparr>sm_exiting := True, sm_threads := [Finished, CWaitItems]\<rparr>"
  have "\<nexists>c. sem_exit (\<lambda>_. True) (?z, Joining 1) c"
    by (auto elim!: sem_exit.cases sem_thread.cases simp: sem_init_def less_Suc_eq sem_join_step_def)
  moreover have "sem_exit (\<lambda>_. True) (?z, Joining 0) (?z, Joining 1)"
    by (intro sem_exit.sem_exit_main) (simp add: sem_join_step_def)
  ultimately show ?thesis using sem_demo_run by (intro conjI exI [of _ ?z]) auto
qed

text \<open>One consumer, told to exit before it has taken anything: two steps of its own and two of \<open>main\<close>.\<close>

theorem buffer_main_exits_witness:
  "\<exists>y y'. pc_step\<^sup>*\<^sup>* (pc_init [] 1) y \<and> sy_exiting y \<and> (pc_exit (\<lambda>_. True) ^^ 4) (y, Joining 0) (y', Thread_exit) \<and>
    sy_threads y' = [Ended] \<and> (4::nat) \<le> 5 * length (sy_threads y) + 1"
proof -
  let ?y = "(pc_init [] 1)\<lparr>sy_exiting := True\<rparr>"
  let ?c = "\<lambda>ph. ?y\<lparr>sy_threads := [ph]\<rparr>"
  have main: "pc_main (\<lambda>_. True) (\<lambda>_. 7) [''pc'', ''1'', ''0'', ''1''] = Inr (1, pc_init [] 1)" by code_simp
  have y: "pc_step\<^sup>*\<^sup>* (pc_init [] 1) ?y" by (blast intro: pc_step.set_exiting)
  have th: "pc_exit (\<lambda>_. True) (?c ph, Joining 0) (?c ph', Joining 0)"
    if "pc_thread_step 0 ph (?c ph) = Some (Inr (ph', ?c ph))" for ph ph'
    using that pc_thread.intros [of 0 "?c ph" 0] by (intro pc_exit.exit_thread) simp_all
  have e: "(pc_exit (\<lambda>_. True) ^^ Suc (Suc (Suc (Suc 0)))) (?c C_test, Joining 0) (?c Ended, Thread_exit)"
  proof (intro relpowp_Suc_I2)
    show "pc_exit (\<lambda>_. True) (?c C_test, Joining 0) (?c (C_return None), Joining 0)" by (rule th) simp
    show "pc_exit (\<lambda>_. True) (?c (C_return None), Joining 0) (?c Ended, Joining 0)" by (rule th) simp
    show "pc_exit (\<lambda>_. True) (?c Ended, Joining 0) (?c Ended, Joining 1)"
      by (intro pc_exit.exit_main) (simp add: pc_join_step_def)
    show "pc_exit (\<lambda>_. True) (?c Ended, Joining 1) (?c Ended, Thread_exit)"
      by (intro pc_exit.exit_main) (simp add: pc_join_step_def)
  qed simp
  have c: "?c C_test = ?y" by (simp add: pc_init_def)
  have "(pc_exit (\<lambda>_. True) ^^ 4) (?y, Joining 0) (?c Ended, Thread_exit)" using e unfolding c by (simp add: eval_nat_numeral)
  from buffer_main_exits [OF main y _ this] y this show ?thesis by (intro exI [of _ ?y] exI [of _ "?c Ended"]) simp
qed

end
