(* ===== verification/Signal_Prime.thy ===== *)
theory Signal_Prime
  imports C_Library
begin

text \<open>
  The program that tells its child process about prime numbers
  (\<open>workshop/signal-prime-number.c\<close>): the test by trial division, the loop of the parent over
  what \<open>scanf\<close> reads, and what the child prints for a signal. At the end of the input \<open>scanf\<close>
  returns a value that is not zero, so that the loop goes on; it is a partial function. The
  prompt and the error messages of the parent are not part of the result.
\<close>

section \<open>Operations\<close>

text \<open>\<open>for (i = n / 2; i >= 2; i--)\<close>, counting the candidates down.\<close>

fun factor_loop :: "int \<Rightarrow> nat \<Rightarrow> int" where
  "factor_loop n i =
     (if i < 2 then 1 else if n mod int i = 0 then 0 else factor_loop n (i - 1))"

declare factor_loop.simps [simp del]

definition isprimeno :: "int \<Rightarrow> int" where
  "isprimeno n = (if n < 2 then 0 else factor_loop n (nat (n div 2)))"

datatype user_signal = SIGUSR1 | SIGUSR2 | Other_signal

text \<open>What the child prints, and whether it exits.\<close>

definition prime_sighandler :: "user_signal \<Rightarrow> string \<times> bool" where
  "prime_sighandler signo =
     (case signo of
        SIGUSR1 \<Rightarrow> (''A prime number was found by the parent process'' @ [newline], False)
      | SIGUSR2 \<Rightarrow> (''Parent process is ending, I must go now. :('' @ [newline], True)
      | Other_signal \<Rightarrow> ([], False))"

text \<open>What a call of \<open>scanf\<close> finds; after the last one it is at the end of the input.\<close>

datatype scanned = Number int | No_number

text \<open>
  The loop of the parent: what is still to be read, the variable \<open>n\<close>, and the signals sent.
  \<open>kill_works\<close> tells whether a signal can be sent. The result are the signals and the value
  that \<open>main\<close> returns.
\<close>

partial_function (option) parent_loop ::
  "(user_signal \<Rightarrow> bool) \<Rightarrow> scanned list \<Rightarrow> int option \<Rightarrow> user_signal list \<Rightarrow> (user_signal list \<times> int) res option" where
  "parent_loop kill_works input n sent =
     (case input of
        No_number # rest \<Rightarrow>
          Some (Inr (if kill_works SIGUSR2 then (sent @ [SIGUSR2], 0) else (sent, 1)))
      | Number v # rest \<Rightarrow>
          (if isprimeno v \<noteq> 0
           then (if kill_works SIGUSR1 then parent_loop kill_works rest (Some v) (sent @ [SIGUSR1])
                 else Some (Inr (sent, 1)))
           else parent_loop kill_works rest (Some v) sent)
      | [] \<Rightarrow>
          (case n of
             None \<Rightarrow> Some (Inl UninitRead)
           | Some v \<Rightarrow>
               (if isprimeno v \<noteq> 0
                then (if kill_works SIGUSR1 then parent_loop kill_works [] n (sent @ [SIGUSR1])
                      else Some (Inr (sent, 1)))
                else parent_loop kill_works [] n sent)))"

text \<open>\<open>main\<close> of the parent: \<open>works\<close> tells whether the handlers can be set and a child forked.\<close>

definition prime_main ::
  "bool \<Rightarrow> (user_signal \<Rightarrow> bool) \<Rightarrow> scanned list \<Rightarrow> (user_signal list \<times> int) res option" where
  "prime_main works kill_works input =
     (if works then parent_loop kill_works input None [] else Some (Inr ([], 1)))"

section \<open>Primes\<close>

definition is_prime :: "int \<Rightarrow> bool" where
  "is_prime n \<longleftrightarrow> 2 \<le> n \<and> (\<forall>d. 0 < d \<and> d dvd n \<longrightarrow> d = 1 \<or> d = n)"

lemma factor_loop_result:
  "factor_loop n i = (if \<exists>k. 2 \<le> k \<and> k \<le> i \<and> int k dvd n then 0 else 1)"
proof (induction i rule: less_induct)
  case (less i)
  show ?case
  proof (cases "i < 2 \<or> n mod int i = 0")
    case True
    then show ?thesis by (subst factor_loop.simps) (auto simp: mod_eq_0_iff_dvd)
  next
    case False
    then have "factor_loop n i = factor_loop n (i - 1)" by (subst factor_loop.simps) simp
    moreover have "factor_loop n (i - 1) = (if \<exists>k. 2 \<le> k \<and> k \<le> i - 1 \<and> int k dvd n then 0 else 1)"
      using False less.IH [of "i - 1"] by simp
    moreover have "k \<le> i - 1 \<and> int k dvd n \<longleftrightarrow> k \<le> i \<and> int k dvd n" for k
    proof -
      have "int k dvd n \<Longrightarrow> k \<noteq> i" using False by (auto simp: mod_eq_0_iff_dvd)
      then show ?thesis using False by auto
    qed
    ultimately show ?thesis by simp
  qed
qed

lemma proper_divisor_bound:
  fixes d n :: int
  assumes "d dvd n" and "0 < d" and "d \<noteq> n" and "0 < n"
  shows "d \<le> n div 2"
proof -
  obtain k where k: "n = d * k" using assms(1) by auto
  have "0 < k" using k assms(2,4) by (simp add: zero_less_mult_iff)
  moreover have "k \<noteq> 1" using k assms(3) by auto
  ultimately have "2 \<le> k" by simp
  then have "d * 2 \<le> n" using k assms(2) by simp
  then show ?thesis by simp
qed

lemma isprimeno_iff: "isprimeno n = (if is_prime n then 1 else 0)"
proof (cases "n < 2")
  case True
  then show ?thesis by (simp add: isprimeno_def is_prime_def)
next
  case False
  have "(\<exists>k. 2 \<le> k \<and> k \<le> nat (n div 2) \<and> int k dvd n) \<longleftrightarrow> \<not> is_prime n"
  proof
    assume "\<exists>k. 2 \<le> k \<and> k \<le> nat (n div 2) \<and> int k dvd n"
    then obtain k where k: "2 \<le> k" "k \<le> nat (n div 2)" "int k dvd n" by blast
    then have "int k \<noteq> 1" "int k \<noteq> n" "0 < int k" using False by auto
    with k(3) show "\<not> is_prime n" unfolding is_prime_def by blast
  next
    assume "\<not> is_prime n"
    then obtain d where d: "0 < d" "d dvd n" "d \<noteq> 1" "d \<noteq> n" using False by (auto simp: is_prime_def)
    with proper_divisor_bound [of d n] False have "d \<le> n div 2" by simp
    with d show "\<exists>k. 2 \<le> k \<and> k \<le> nat (n div 2) \<and> int k dvd n" by (intro exI [of _ "nat d"]) auto
  qed
  with False show ?thesis by (simp add: isprimeno_def factor_loop_result)
qed

abbreviation always :: "user_signal \<Rightarrow> bool" where "always \<equiv> \<lambda>_. True"

lemma parent_loop_numbers:
  "parent_loop always (map Number vs @ No_number # rest) n sent =
    Some (Inr (sent @ replicate (length (filter is_prime vs)) SIGUSR1 @ [SIGUSR2], 0))"
proof (induction vs arbitrary: n sent)
  case Nil
  then show ?case by (subst parent_loop.simps) simp
next
  case (Cons v vs)
  then show ?case by (subst parent_loop.simps) (simp add: isprimeno_iff)
qed

lemma parent_loop_end_of_input: "parent_loop always [] (Some v) sent = None"
proof (rule ccontr)
  assume "parent_loop always [] (Some v) sent \<noteq> None"
  then obtain r where r: "parent_loop always [] (Some v) sent = Some r" by auto
  have "\<not> (always = always \<and> [] = ([] :: scanned list) \<and> Some v = Some v)"
  proof (rule parent_loop.raw_induct [where P = "\<lambda>w input n sent r. \<not> (w = always \<and> input = [] \<and> n = Some v)", OF _ r])
    fix rec w input n sent r
    assume IH: "\<And>w input n sent r. rec w input n sent = Some r \<Longrightarrow> \<not> (w = always \<and> input = [] \<and> n = Some v)"
      and body: "(case input of
          [] \<Rightarrow> (case n of None \<Rightarrow> Some (Inl UninitRead) | Some v \<Rightarrow>
            (if isprimeno v \<noteq> 0 then (if w SIGUSR1 then rec w [] n (sent @ [SIGUSR1]) else Some (Inr (sent, 1)))
             else rec w [] n sent))
        | Number v # rest \<Rightarrow>
            (if isprimeno v \<noteq> 0 then (if w SIGUSR1 then rec w rest (Some v) (sent @ [SIGUSR1]) else Some (Inr (sent, 1)))
             else rec w rest (Some v) sent)
        | No_number # rest \<Rightarrow> Some (Inr (if w SIGUSR2 then (sent @ [SIGUSR2], 0) else (sent, 1)))) = Some r"
    show "\<not> (w = always \<and> input = [] \<and> n = Some v)"
    proof
      assume args: "w = always \<and> input = [] \<and> n = Some v"
      then have "\<exists>sent'. rec always [] (Some v) sent' = Some r" using body by (auto split: if_splits)
      with IH show False by blast
    qed
  qed
  then show False by simp
qed

section \<open>Properties\<close>

text \<open>C37: The test by trial division returns 1 exactly for the prime numbers and 0 for all others,
  negative ones included. For numbers followed by something that is no number the parent
  sends one signal for each prime and then the one that ends the child; but when the input
  ends instead, the loop never ends.\<close>

theorem isprimeno_and_parent_loop:
  "isprimeno n = (if is_prime n then 1 else 0) \<and>
   prime_main True always (map Number vs @ No_number # rest) =
     Some (Inr (replicate (length (filter is_prime vs)) SIGUSR1 @ [SIGUSR2], 0)) \<and>
   prime_main True always (map Number (vs @ [v])) = None"
proof (intro conjI)
  show "isprimeno n = (if is_prime n then 1 else 0)" by (rule isprimeno_iff)
  show "prime_main True always (map Number vs @ No_number # rest) =
      Some (Inr (replicate (length (filter is_prime vs)) SIGUSR1 @ [SIGUSR2], 0))"
    by (simp add: prime_main_def parent_loop_numbers)
  have "parent_loop always (map Number (vs @ [v])) m sent = None" for m sent
  proof (induction vs arbitrary: m sent)
    case Nil
    then show ?case by (subst parent_loop.simps) (simp add: parent_loop_end_of_input)
  next
    case (Cons u vs)
    then show ?case by (subst parent_loop.simps) simp
  qed
  then show "prime_main True always (map Number (vs @ [v])) = None" by (simp add: prime_main_def)
qed

end
