(* ===== verification/My_Shell.thy ===== *)
theory My_Shell
  imports C_Library
begin

text \<open>
  The shell of \<open>workshop/my-shell.c\<close>: its own \<open>strcmp\<close> and \<open>strlen\<close>, the reading of a line into
  a buffer that grows, the splitting of a line into an array of strings that grows, and the
  main loop. Buffers and arrays have their allocated size, an access outside them is an
  error, and so is the use of an element that was never written: at the end of the input
  \<open>strscan\<close> looks at such a byte. Allocation and writing do not fail. A command that
  runs longer than the time-out of the shell is killed; one that never ends, without a
  time-out, keeps the shell waiting, which is \<open>None\<close>.
\<close>

section \<open>Strings\<close>

text \<open>The value of a \<open>char\<close>, which is signed.\<close>

definition schar :: "char \<Rightarrow> int" where
  "schar c = (let n = (of_char c :: int) in if n < 128 then n else n - 256)"

text \<open>The lists are the bytes from the pointers to the ends of their buffers.\<close>

fun sh_strcmp :: "string \<Rightarrow> string \<Rightarrow> int res" where
  "sh_strcmp (c # s1) (d # s2) =
     (if c \<noteq> NUL \<and> c = d then sh_strcmp s1 s2 else Inr (schar c - schar d))"
| "sh_strcmp s1 s2 = Inl OutOfBounds"

fun strlen_loop :: "string \<Rightarrow> nat \<Rightarrow> nat res" where
  "strlen_loop [] len = Inl OutOfBounds"
| "strlen_loop (c # str) len = (if c \<noteq> NUL then strlen_loop str (len + 1) else Inr len)"

definition sh_strlen :: "string \<Rightarrow> nat res" where
  "sh_strlen str = strlen_loop str 0"

section \<open>Reading a line\<close>

definition STRSCAN_INITIAL_MAX_STR_LEN :: nat where "STRSCAN_INITIAL_MAX_STR_LEN = 64"
definition STRSCAN_STR_LEN_GROW_FACTOR :: nat where "STRSCAN_STR_LEN_GROW_FACTOR = 2"

text \<open>\<open>realloc\<close>: the old contents, then elements that were never written.\<close>

definition regrow :: "nat \<Rightarrow> 'a option list \<Rightarrow> 'a option list" where
  "regrow n xs = take n xs @ replicate (n - length xs) None"

text \<open>The part of a buffer that has been written.\<close>

definition written :: "'a option list \<Rightarrow> 'a list" where
  "written s = map the (takeWhile (\<lambda>v. v \<noteq> None) s)"

text \<open>
  The loop of \<open>strscan\<close>: buffer, length, capacity, input. A \<open>read\<close> at the end of the input
  stores nothing and is not noticed, so that the test for a newline uses a byte that was never
  written. The result is the buffer and the input that is left.
\<close>

definition scan_room :: "char option list \<Rightarrow> nat \<Rightarrow> nat \<Rightarrow> char option list \<times> nat" where
  "scan_room s slen maxslen =
     (if slen \<ge> maxslen
      then let maxslen' = maxslen * STRSCAN_STR_LEN_GROW_FACTOR in (regrow (maxslen' + 1) s, maxslen')
      else (s, maxslen))"

fun scan_loop :: "char option list \<Rightarrow> nat \<Rightarrow> nat \<Rightarrow> string \<Rightarrow> (char option list \<times> string) res" where
  "scan_loop s slen maxslen [] = Inl UninitRead"
| "scan_loop s slen maxslen (c # input) =
     (case scan_room s slen maxslen of (s1, max1) \<Rightarrow>
        res_bind (write_at s1 slen (Some c)) (\<lambda>s2.
          if c = newline then res_bind (write_at s2 slen (Some NUL)) (\<lambda>s3. Inr (s3, input))
          else scan_loop s2 (slen + 1) max1 input))"

definition strscan :: "string \<Rightarrow> (char option list \<times> string) res" where
  "strscan input = scan_loop (replicate (STRSCAN_INITIAL_MAX_STR_LEN + 1) None) 0 STRSCAN_INITIAL_MAX_STR_LEN input"

section \<open>Splitting a line\<close>

definition STRSPLIT_INITIAL_MAX_STR_ARRAY_LEN :: nat where "STRSPLIT_INITIAL_MAX_STR_ARRAY_LEN = 1"
definition STRSPLIT_STR_ARRAY_LEN_GROW_FACTOR :: nat where "STRSPLIT_STR_ARRAY_LEN_GROW_FACTOR = 2"

text \<open>The inner loop: the end of the token that starts at \<open>j\<close>, with the rounds that are left.\<close>

fun token_end :: "string \<Rightarrow> char \<Rightarrow> nat \<Rightarrow> nat \<Rightarrow> nat res" where
  "token_end orig delimiter j 0 = Inr j"
| "token_end orig delimiter j (Suc left) =
     res_bind (read_at orig j) (\<lambda>c. if c = delimiter then Inr j else token_end orig delimiter (j + 1) left)"

text \<open>The copy of \<open>n\<close> characters from \<open>i\<close> on into a new token, position \<open>k\<close> next.\<close>

fun copy_token :: "string \<Rightarrow> nat \<Rightarrow> nat \<Rightarrow> nat \<Rightarrow> char option list \<Rightarrow> char option list res" where
  "copy_token orig i k 0 token = write_at token k (Some NUL)"
| "copy_token orig i k (Suc left) token =
     res_bind (read_at orig (i + k)) (\<lambda>c.
     res_bind (write_at token k (Some c)) (\<lambda>token'. copy_token orig i (k + 1) left token'))"

text \<open>
  An element of the array is \<open>Some (Some token)\<close>, \<open>Some None\<close> for the null pointer, or
  \<open>None\<close> when it was never written.
\<close>

type_synonym str_array = "string option option list"

definition store_token :: "str_array \<Rightarrow> nat \<Rightarrow> nat \<Rightarrow> string \<Rightarrow> (str_array \<times> nat) res" where
  "store_token strarray strarraylen maxlen token =
     (let (a, m) = (if strarraylen \<ge> maxlen
                    then let m = maxlen * STRSPLIT_STR_ARRAY_LEN_GROW_FACTOR in (regrow (m + 1) strarray, m)
                    else (strarray, maxlen))
      in res_bind (write_at a strarraylen (Some (Some token))) (\<lambda>a'. Inr (a', m)))"

text \<open>
  One round at a position \<open>i\<close> that is not past the end: the next position, the array, its
  length and its capacity.
\<close>

definition split_round ::
  "string \<Rightarrow> nat \<Rightarrow> char \<Rightarrow> nat \<Rightarrow> str_array \<Rightarrow> nat \<Rightarrow> nat \<Rightarrow> (nat \<times> str_array \<times> nat \<times> nat) res" where
  "split_round orig origstrlen delimiter i strarray strarraylen maxlen =
     res_bind (read_at orig i) (\<lambda>c.
       if c = delimiter then Inr (i + 1, strarray, strarraylen, maxlen)
       else res_bind (token_end orig delimiter i (origstrlen - i)) (\<lambda>j.
            res_bind (copy_token orig i 0 (j - i) (replicate (j - i + 1) None)) (\<lambda>token.
            res_bind (store_token strarray strarraylen maxlen (written token)) (\<lambda>(a, m).
              Inr (j, a, strarraylen + 1, m)))))"

lemma token_end_ge: "token_end orig d j n = Inr k \<Longrightarrow> j \<le> k"
  by (induction n arbitrary: j) (fastforce split: if_splits)+

lemma split_round_progress:
  assumes "split_round orig n d i a l m = Inr (j, a', l', m')" and "i < n"
  shows "i < j"
proof -
  obtain k where k: "n - i = Suc k" using assms(2) by (metis Suc_diff_Suc)
  from assms(1) show ?thesis
    by (auto simp: split_round_def k split: if_splits prod.splits dest!: token_end_ge)
qed

function split_loop :: "string \<Rightarrow> nat \<Rightarrow> char \<Rightarrow> nat \<Rightarrow> str_array \<Rightarrow> nat \<Rightarrow> nat \<Rightarrow> str_array res" where
  "split_loop orig origstrlen delimiter i strarray strarraylen maxlen =
     (if i < origstrlen
      then case split_round orig origstrlen delimiter i strarray strarraylen maxlen of
             Inl e \<Rightarrow> Inl e
           | Inr (i', a, l, m) \<Rightarrow> split_loop orig origstrlen delimiter i' a l m
      else write_at strarray strarraylen (Some None))"
  by pat_completeness auto
termination
  by (relation "measure (\<lambda>(orig, n, d, i, a, l, m). n - i)")
    (auto dest!: split_round_progress)

declare split_loop.simps [simp del]

definition strsplit :: "string \<Rightarrow> char \<Rightarrow> str_array res" where
  "strsplit orig delimiter =
     res_bind (sh_strlen orig) (\<lambda>origstrlen.
       split_loop orig origstrlen delimiter 0
         (replicate (STRSPLIT_INITIAL_MAX_STR_ARRAY_LEN + 1) None) 0 STRSPLIT_INITIAL_MAX_STR_ARRAY_LEN)"

text \<open>The strings of an array up to the null pointer, as \<open>freestrarray\<close> and \<open>execve\<close> walk it.\<close>

fun array_strings :: "str_array \<Rightarrow> string list res" where
  "array_strings [] = Inl OutOfBounds"
| "array_strings (None # a) = Inl UninitRead"
| "array_strings (Some None # a) = Inr []"
| "array_strings (Some (Some s) # a) = res_bind (array_strings a) (\<lambda>ss. Inr (s # ss))"

section \<open>The main loop\<close>

lemma scan_loop_rest: "scan_loop s l m input = Inr (s', rest) \<Longrightarrow> length rest < length input"
  by (induction input arbitrary: s l m) (force split: prod.splits if_splits)+

text \<open>A line read, split and walked: the argument vector, and the rest of the input.\<close>

definition read_command :: "string \<Rightarrow> (string list \<times> string) res" where
  "read_command input =
     res_bind (strscan input) (\<lambda>(cmd, rest).
     res_bind (strsplit (written cmd) (CHR '' '')) (\<lambda>strarray.
     res_bind (array_strings strarray) (\<lambda>cmdargv. Inr (cmdargv, rest))))"

lemma read_command_rest: "read_command input = Inr (cmdargv, rest) \<Longrightarrow> length rest < length input"
  by (auto simp: read_command_def strscan_def dest: scan_loop_rest)

text \<open>
  What the shell does: it prints, or it runs a command with an argument vector. It ends by
  returning a value or by a signal that it does not handle.
\<close>

datatype shell_event = Print string | Run "string list"

datatype shell_end = Returns int | Dies_of int

text \<open>Whether a child can be created, how many seconds a command runs, whether a child can be killed.\<close>

record shell_env =
  env_fork :: "string list \<Rightarrow> bool"
  env_duration :: "string list \<Rightarrow> nat option"
  env_kill :: bool

definition SIGALRM :: int where "SIGALRM = 14"

definition shell_sighandler :: "shell_env \<Rightarrow> int \<Rightarrow> shell_event list \<times> shell_end option" where
  "shell_sighandler E signo =
     (if signo = SIGALRM
      then ([Print (''Process timed out'' @ [newline])], if env_kill E then None else Some (Returns 1))
      else ([], None))"

text \<open>
  \<open>alarm (timeout)\<close>, \<open>wait\<close> and \<open>alarm (0)\<close>. The argument of \<open>alarm\<close> is unsigned, 0 sets no
  alarm, and the handler is set for a positive time-out only. A command that ends with the
  alarm ends in time; \<open>None\<close> is a wait without an end.
\<close>

definition wait_child :: "shell_env \<Rightarrow> int \<Rightarrow> string list \<Rightarrow> (shell_event list \<times> shell_end option) option" where
  "wait_child E timeout cmdargv =
     (let seconds = timeout mod 2 ^ 32;
          rings = (if timeout > 0 then shell_sighandler E SIGALRM else ([], Some (Dies_of SIGALRM)))
      in case env_duration E cmdargv of
           Some d \<Rightarrow> Some (if seconds = 0 \<or> int d \<le> seconds then ([], None) else rings)
         | None \<Rightarrow> if seconds = 0 then None else Some rings)"

type_synonym shell_result = "(shell_event list \<times> shell_end) res option"

definition emit :: "shell_event list \<Rightarrow> shell_result \<Rightarrow> shell_result" where
  "emit evs r = map_option (\<lambda>v. res_bind v (\<lambda>(es, e). Inr (evs @ es, e))) r"

function shell_loop :: "shell_env \<Rightarrow> int \<Rightarrow> string \<Rightarrow> shell_result" where
  "shell_loop E timeout input =
     (case read_command input of
        Inl e \<Rightarrow> Some (Inl e)
      | Inr (cmdargv, rest) \<Rightarrow>
          (case cmdargv of
             [] \<Rightarrow> emit [Print ''> ''] (shell_loop E timeout rest)
           | cmdfilename # args \<Rightarrow>
               (case sh_strcmp cmdfilename (''exit'' @ [NUL]) of
                  Inl e \<Rightarrow> Some (Inl e)
                | Inr differs \<Rightarrow>
                    if differs = 0 then Some (Inr ([Print ''> ''], Returns 0))
                    else if \<not> env_fork E cmdargv then Some (Inr ([Print ''> ''], Returns 1))
                    else case wait_child E timeout cmdargv of
                           None \<Rightarrow> None
                         | Some (evs, Some end) \<Rightarrow> Some (Inr (Print ''> '' # Run cmdargv # evs, end))
                         | Some (evs, None) \<Rightarrow>
                             emit (Print ''> '' # Run cmdargv # evs) (shell_loop E timeout rest))))"
  by pat_completeness auto
termination
  by (relation "measure (\<lambda>(E, timeout, input). length input)") (auto dest: read_command_rest)

declare shell_loop.simps [simp del]

definition shell_main :: "shell_env \<Rightarrow> bool \<Rightarrow> string list \<Rightarrow> string \<Rightarrow> shell_result" where
  "shell_main E signal_works argv input =
     (case if length argv > 1 then atoi (argv ! 1) else Inr 0 of
        Inl e \<Rightarrow> Some (Inl e)
      | Inr timeout \<Rightarrow>
          if timeout > 0 \<and> \<not> signal_works then Some (Inr ([], Returns 1))
          else shell_loop E timeout input)"

section \<open>Strings\<close>

lemma schar_inject: "schar c = schar d \<Longrightarrow> c = d"
proof -
  assume "schar c = schar d"
  moreover have "0 \<le> (of_char x :: int) \<and> (of_char x :: int) < 256" for x
    using pos_mod_bound [of 256 "of_char x :: int"] pos_mod_sign [of 256 "of_char x :: int"] by simp
  ultimately have "(of_char c :: int) = of_char d"
    by (smt (verit) schar_def)
  then show "c = d" by simp
qed

lemma sh_strcmp_result:
  assumes "NUL \<notin> set a" and "NUL \<notin> set b"
  shows "\<exists>r. sh_strcmp (a @ NUL # x) (b @ NUL # y) = Inr r \<and> (r = 0 \<longleftrightarrow> a = b)"
  using assms
proof (induction a arbitrary: b)
  case Nil
  then show ?case by (cases b) (auto dest: schar_inject)
next
  case (Cons c a)
  then show ?case
  proof (cases b)
    case Nil
    with Cons.prems show ?thesis by (auto dest: schar_inject)
  next
    case (Cons d b')
    with Cons.IH [of b'] Cons.prems show ?thesis by (auto dest: schar_inject)
  qed
qed

lemma strlen_loop_result: "NUL \<notin> set a \<Longrightarrow> strlen_loop (a @ NUL # x) n = Inr (n + length a)"
  by (induction a arbitrary: n) auto

section \<open>Lines\<close>

lemma regrow_written: "regrow (n + k) (map Some xs @ replicate (n - length xs) None) = map Some xs @ replicate (n + k - length xs) None"
  if "length xs \<le> n"
  using that by (simp add: regrow_def flip: replicate_add)

definition scan_buffer :: "string \<Rightarrow> nat \<Rightarrow> char option list" where
  "scan_buffer pre m = map Some pre @ replicate (m + 1 - length pre) None"

lemma scan_room_buffer:
  assumes "length pre \<le> m"
  shows "scan_room (scan_buffer pre m) (length pre) m =
    (let m1 = (if length pre = m then m * 2 else m) in (scan_buffer pre m1, m1))"
proof (cases "length pre = m")
  case True
  then have "regrow (m * 2 + 1) (scan_buffer pre m) = scan_buffer pre (m * 2)"
    using regrow_written [of pre "m + 1" m] assms by (simp add: scan_buffer_def mult_2_right)
  with True show ?thesis by (simp add: scan_room_def STRSCAN_STR_LEN_GROW_FACTOR_def)
qed (use assms in \<open>simp add: scan_room_def\<close>)

lemma scan_buffer_write:
  assumes "length pre \<le> m"
  shows "write_at (scan_buffer pre m) (length pre) (Some c) =
    Inr (map Some (pre @ [c]) @ replicate (m - length pre) None)"
proof -
  have "m + 1 - length pre = Suc (m - length pre)" using assms by simp
  then show ?thesis by (simp add: scan_buffer_def write_at_def list_update_append)
qed

lemma scan_loop_reads:
  assumes "newline \<notin> set line" and "length pre \<le> m" and "0 < m"
  shows "\<exists>k. scan_loop (scan_buffer pre m) (length pre) m (line @ newline # rest) =
    Inr (map Some (pre @ line @ [NUL]) @ replicate k None, rest)"
  using assms
proof (induction line arbitrary: pre m)
  case Nil
  let ?m = "if length pre = m then m * 2 else m"
  have "length pre \<le> ?m" using Nil.prems by simp
  from scan_buffer_write [OF this, of newline] scan_room_buffer [OF Nil.prems(2)] show ?case
    by (intro exI [of _ "?m - length pre"]) (simp add: Let_def write_at_def list_update_append)
next
  case (Cons c line)
  let ?m = "if length pre = m then m * 2 else m"
  have m: "length pre \<le> ?m" "length (pre @ [c]) \<le> ?m" "0 < ?m" using Cons.prems by auto
  have "map Some (pre @ [c]) @ replicate (?m - length pre) None = scan_buffer (pre @ [c]) ?m"
    using m by (simp add: scan_buffer_def)
  with scan_buffer_write [OF m(1), of c] scan_room_buffer [OF Cons.prems(2)] Cons.prems(1)
  have "scan_loop (scan_buffer pre m) (length pre) m ((c # line) @ newline # rest) =
      scan_loop (scan_buffer (pre @ [c]) ?m) (length (pre @ [c])) ?m (line @ newline # rest)"
    by (auto simp: Let_def)
  with Cons.IH [OF _ m(2,3)] Cons.prems(1) show ?case by simp
qed

lemma strscan_reads:
  assumes "newline \<notin> set line"
  shows "\<exists>k. strscan (line @ newline # rest) = Inr (map Some (line @ [NUL]) @ replicate k None, rest)"
  using scan_loop_reads [OF assms, of "[]" STRSCAN_INITIAL_MAX_STR_LEN rest]
  by (simp add: strscan_def scan_buffer_def STRSCAN_INITIAL_MAX_STR_LEN_def)

lemma written_map_Some: "written (map Some xs @ replicate k None) = xs"
  by (induction xs) (simp_all add: written_def takeWhile_replicate)

lemma scan_loop_no_newline: "newline \<notin> set input \<Longrightarrow> length s = m + 1 \<Longrightarrow> l \<le> m \<Longrightarrow> 0 < m \<Longrightarrow> scan_loop s l m input = Inl UninitRead"
proof (induction input arbitrary: s l m)
  case Nil
  then show ?case by (simp split: prod.splits)
next
  case (Cons c input)
  then have c: "c \<noteq> newline" by auto
  show ?case
  proof (cases "l \<ge> m")
    case True
    let ?s = "regrow (m * STRSCAN_STR_LEN_GROW_FACTOR + 1) s"
    have len: "length ?s = m * 2 + 1" using Cons.prems by (simp add: regrow_def STRSCAN_STR_LEN_GROW_FACTOR_def)
    have "scan_loop (?s[l := Some c]) (l + 1) (m * 2) input = Inl UninitRead"
      by (rule Cons.IH) (use Cons.prems len in auto)
    with True c Cons.prems len show ?thesis
      by (simp add: scan_room_def Let_def write_at_def STRSCAN_STR_LEN_GROW_FACTOR_def)
  next
    case False
    have "scan_loop (s[l := Some c]) (l + 1) m input = Inl UninitRead"
      by (rule Cons.IH) (use Cons.prems False in auto)
    with False c Cons.prems show ?thesis by (simp add: scan_room_def write_at_def)
  qed
qed

section \<open>Words\<close>

text \<open>The reference: the maximal parts of a string without the delimiter.\<close>

function split_words :: "char \<Rightarrow> string \<Rightarrow> string list" where
  "split_words d str =
     (case dropWhile (\<lambda>c. c = d) str of
        [] \<Rightarrow> []
      | c # s \<Rightarrow> (c # takeWhile (\<lambda>c. c \<noteq> d) s) # split_words d (dropWhile (\<lambda>c. c \<noteq> d) s))"
  by pat_completeness auto
termination
proof (relation "measure (\<lambda>(d, str). length str)", goal_cases)
  case (2 d str c s)
  then have "length (c # s) \<le> length str" by (metis length_dropWhile_le)
  then show ?case using length_dropWhile_le [of "\<lambda>c. c \<noteq> d" s] by simp
qed simp

declare split_words.simps [simp del]

lemma split_words_simps:
  "split_words d [] = []"
  "split_words d (d # s) = split_words d s"
  "c \<noteq> d \<Longrightarrow> split_words d (c # s) = (c # takeWhile (\<lambda>c. c \<noteq> d) s) # split_words d (dropWhile (\<lambda>c. c \<noteq> d) s)"
  by (simp_all add: split_words.simps [of d "[]"] split_words.simps [of d "c # s"]
      split_words.simps [of d "d # s"] split_words.simps [of d s])

lemma token_end_result:
  assumes "j + n \<le> length str"
  shows "token_end (str @ rest) d j n = Inr (j + length (takeWhile (\<lambda>c. c \<noteq> d) (take n (drop j str))))"
  using assms
proof (induction n arbitrary: j)
  case 0
  then show ?case by simp
next
  case (Suc n)
  have "drop j str = str ! j # drop (Suc j) str" using Suc.prems by (simp add: Cons_nth_drop_Suc)
  with Suc show ?case by (simp add: read_at_def nth_append)
qed

lemma copy_token_result:
  assumes "i + k + n \<le> length orig" and "length pre = k" and "length todo = n + 1"
  shows "copy_token orig i k n (pre @ todo) = Inr (pre @ map Some (take n (drop (i + k) orig) @ [NUL]))"
  using assms
proof (induction n arbitrary: k pre todo)
  case 0
  then obtain x where "todo = [x]" by (cases todo) auto
  with 0 show ?case by (simp add: write_at_def list_update_append)
next
  case (Suc n)
  obtain x xs where todo: "todo = x # xs" using Suc.prems(3) by (cases todo) auto
  let ?c = "orig ! (i + k)"
  have "copy_token orig i k (Suc n) (pre @ todo) = copy_token orig i (k + 1) n ((pre @ [Some ?c]) @ xs)"
    using Suc.prems by (simp add: todo write_at_def list_update_append)
  also have "\<dots> = Inr ((pre @ [Some ?c]) @ map Some (take n (drop (i + (k + 1)) orig) @ [NUL]))"
    by (rule Suc.IH) (use Suc.prems todo in auto)
  also have "\<dots> = Inr (pre @ map Some (take (Suc n) (drop (i + k) orig) @ [NUL]))"
    using Suc.prems by (simp add: Cons_nth_drop_Suc [symmetric])
  finally show ?case .
qed

text \<open>The array that holds some tokens, with its capacity.\<close>

definition token_array :: "string list \<Rightarrow> nat \<Rightarrow> str_array" where
  "token_array toks m = map (\<lambda>t. Some (Some t)) toks @ replicate (m + 1 - length toks) None"

lemma token_array_write:
  assumes "length toks \<le> m"
  shows "write_at (token_array toks m) (length toks) v =
    Inr (map (\<lambda>t. Some (Some t)) toks @ v # replicate (m - length toks) None)"
proof -
  have "m + 1 - length toks = Suc (m - length toks)" using assms by simp
  then show ?thesis by (simp add: token_array_def write_at_def list_update_append)
qed

lemma store_token_result:
  assumes "length toks \<le> m" and "0 < m"
  shows "\<exists>m'. store_token (token_array toks m) (length toks) m t = Inr (token_array (toks @ [t]) m', m') \<and>
    length (toks @ [t]) \<le> m' \<and> 0 < m'"
proof -
  let ?m = "if length toks = m then m * 2 else m"
  have grow: "regrow (m * 2 + 1) (token_array toks m) = token_array toks (m * 2)" if "length toks = m"
    using that by (simp add: regrow_def token_array_def mult_2_right flip: replicate_add)
  have m: "length toks \<le> ?m" "length (toks @ [t]) \<le> ?m" using assms by auto
  have "map (\<lambda>t. Some (Some t)) toks @ Some (Some t) # replicate (?m - length toks) None = token_array (toks @ [t]) ?m"
    using m by (simp add: token_array_def)
  with token_array_write [OF m(1), of "Some (Some t)"] assms grow
  have "store_token (token_array toks m) (length toks) m t = Inr (token_array (toks @ [t]) ?m, ?m)"
    by (auto simp: store_token_def Let_def STRSPLIT_STR_ARRAY_LEN_GROW_FACTOR_def)
  with m assms show ?thesis by auto
qed

lemma array_strings_tokens: "array_strings (map (\<lambda>t. Some (Some t)) toks @ Some None # a) = Inr toks"
  by (induction toks) auto

lemma split_loop_result:
  assumes "NUL \<notin> set str" and "i \<le> length str" and "length toks \<le> m" and "0 < m"
  shows "\<exists>a. split_loop (str @ NUL # junk) (length str) d i (token_array toks m) (length toks) m = Inr a \<and>
    array_strings a = Inr (toks @ map (\<lambda>w. w @ [NUL]) (split_words d (drop i str)))"
  using assms(2-4)
proof (induction "length str - i" arbitrary: i toks m rule: less_induct)
  case less
  let ?orig = "str @ NUL # junk"
  show ?case
  proof (cases "i < length str")
    case False
    with less.prems have "i = length str" by simp
    with token_array_write [OF less.prems(2), of "Some None"] show ?thesis
      by (subst split_loop.simps) (simp add: array_strings_tokens split_words_simps)
  next
    case True
    have drop: "drop i str = str ! i # drop (Suc i) str" using True by (simp add: Cons_nth_drop_Suc)
    have read: "read_at ?orig i = Inr (str ! i)" using True by (simp add: read_at_def nth_append)
    show ?thesis
    proof (cases "str ! i = d")
      case True
      with \<open>i < length str\<close> read less.hyps [of "Suc i" toks m] less.prems show ?thesis
        by (subst split_loop.simps) (simp add: split_round_def drop split_words_simps)
    next
      case False
      let ?w = "takeWhile (\<lambda>c. c \<noteq> d) (drop i str)"
      let ?j = "i + length ?w"
      have w: "?w = str ! i # takeWhile (\<lambda>c. c \<noteq> d) (drop (Suc i) str)" using False drop by simp
      have j: "i < ?j" "?j \<le> length str"
        using w length_takeWhile_le [of "\<lambda>c. c \<noteq> d" "drop i str"] True by auto
      have tw: "take (length ?w) (drop i ?orig) = ?w"
        using j(2) takeWhile_eq_take [of "\<lambda>c. c \<noteq> d" "drop i str"] by simp
      have tend: "token_end ?orig d i (length str - i) = Inr ?j"
        using token_end_result [of i "length str - i" str "NUL # junk" d] True by simp
      have copy: "copy_token ?orig i 0 (length ?w) (replicate (length ?w + 1) None) = Inr (map Some (?w @ [NUL]))"
        using copy_token_result [of i 0 "length ?w" ?orig "[]" "replicate (length ?w + 1) None"] j(2) tw by simp
      from store_token_result [OF less.prems(2,3), of "?w @ [NUL]"] obtain m' where
        st: "store_token (token_array toks m) (length toks) m (?w @ [NUL]) = Inr (token_array (toks @ [?w @ [NUL]]) m', m')"
          "length (toks @ [?w @ [NUL]]) \<le> m'" "0 < m'" by blast
      have "split_round ?orig (length str) d i (token_array toks m) (length toks) m =
          Inr (?j, token_array (toks @ [?w @ [NUL]]) m', length toks + 1, m')"
        using False read tend copy st(1) written_map_Some [of "?w @ [NUL]" 0] by (simp add: split_round_def)
      then have step: "split_loop ?orig (length str) d i (token_array toks m) (length toks) m =
          split_loop ?orig (length str) d ?j (token_array (toks @ [?w @ [NUL]]) m') (length (toks @ [?w @ [NUL]])) m'"
        using True by (subst split_loop.simps) simp
      have "split_words d (drop i str) = ?w # split_words d (drop ?j str)"
        using False split_words_simps(3) [of "str ! i" d "drop (Suc i) str"]
        by (simp add: drop w dropWhile_eq_drop add.commute)
      moreover have "length str - ?j < length str - i" using j by linarith
      from less.hyps [OF this j(2) st(2,3)] obtain a where
        "split_loop ?orig (length str) d ?j (token_array (toks @ [?w @ [NUL]]) m') (length (toks @ [?w @ [NUL]])) m' = Inr a"
        "array_strings a = Inr ((toks @ [?w @ [NUL]]) @ map (\<lambda>w. w @ [NUL]) (split_words d (drop ?j str)))" by blast
      ultimately show ?thesis unfolding step by simp
    qed
  qed
qed

lemma strsplit_words:
  assumes "NUL \<notin> set str"
  shows "\<exists>a. strsplit (str @ NUL # junk) d = Inr a \<and>
    array_strings a = Inr (map (\<lambda>w. w @ [NUL]) (split_words d str))"
  using split_loop_result [OF assms, of 0 "[]" STRSPLIT_INITIAL_MAX_STR_ARRAY_LEN junk d] strlen_loop_result [OF assms]
  by (simp add: strsplit_def sh_strlen_def token_array_def STRSPLIT_INITIAL_MAX_STR_ARRAY_LEN_def)

section \<open>Commands\<close>

abbreviation space :: char where "space \<equiv> CHR '' ''"

definition command_argv :: "string \<Rightarrow> string list" where
  "command_argv line = map (\<lambda>w. w @ [NUL]) (split_words space line)"

lemma split_words_no_NUL: "w \<in> set (split_words d str) \<Longrightarrow> set w \<subseteq> set str"
proof (induction d str rule: split_words.induct)
  case (1 d str)
  show ?case
  proof (cases "dropWhile (\<lambda>c. c = d) str")
    case Nil
    with 1(2) show ?thesis by (simp add: split_words.simps [of d str])
  next
    case (Cons c s)
    have sub: "set (c # s) \<subseteq> set str" using Cons set_dropWhileD by (metis subsetI)
    from 1(2) Cons consider "w = c # takeWhile (\<lambda>c. c \<noteq> d) s" | "w \<in> set (split_words d (dropWhile (\<lambda>c. c \<noteq> d) s))"
      by (auto simp: split_words.simps [of d str])
    then show ?thesis
    proof cases
      case 1
      with sub show ?thesis by (auto dest: set_takeWhileD)
    next
      case 2
      from "1.IH" [OF Cons this] sub show ?thesis by (auto dest: set_dropWhileD)
    qed
  qed
qed

text \<open>One round of the shell on a line.\<close>

lemma read_command_line:
  assumes "newline \<notin> set line" and "NUL \<notin> set line"
  shows "read_command (line @ newline # rest) = Inr (command_argv line, rest)"
proof -
  from strscan_reads [OF assms(1), of rest] obtain k where
    scan: "strscan (line @ newline # rest) = Inr (map Some (line @ [NUL]) @ replicate k None, rest)" by blast
  have wr: "written (map Some (line @ [NUL]) @ replicate k None) = line @ NUL # []"
    by (simp only: written_map_Some)
  from strsplit_words [OF assms(2), of "[]" space] obtain a where
    "strsplit (line @ NUL # []) space = Inr a" "array_strings a = Inr (command_argv line)"
    by (auto simp: command_argv_def)
  then show ?thesis unfolding read_command_def by (simp only: scan wr res_bind_simps prod.case)
qed

lemma shell_loop_line:
  assumes "newline \<notin> set line" and "NUL \<notin> set line"
  shows "shell_loop E timeout (line @ newline # rest) =
    (case split_words space line of
       [] \<Rightarrow> emit [Print ''> ''] (shell_loop E timeout rest)
     | w # ws \<Rightarrow>
         if w = ''exit'' then Some (Inr ([Print ''> ''], Returns 0))
         else if \<not> env_fork E (command_argv line) then Some (Inr ([Print ''> ''], Returns 1))
         else case wait_child E timeout (command_argv line) of
                None \<Rightarrow> None
              | Some (evs, Some end) \<Rightarrow> Some (Inr (Print ''> '' # Run (command_argv line) # evs, end))
              | Some (evs, None) \<Rightarrow>
                  emit (Print ''> '' # Run (command_argv line) # evs) (shell_loop E timeout rest))"
proof (cases "split_words space line")
  case Nil
  then show ?thesis
    by (subst shell_loop.simps) (simp add: read_command_line [OF assms] command_argv_def)
next
  case (Cons w ws)
  have "NUL \<notin> set w" using split_words_no_NUL [of w space line] Cons assms(2) by auto
  then obtain r where r: "sh_strcmp (w @ [NUL]) (''exit'' @ [NUL]) = Inr r" "r = 0 \<longleftrightarrow> w = ''exit''"
    using sh_strcmp_result [of w "''exit''" "[]" "[]"] by (auto simp: NUL_def)
  have c: "command_argv line = (w @ [NUL]) # map (\<lambda>w. w @ [NUL]) ws" using Cons by (simp add: command_argv_def)
  show ?thesis
    by (subst shell_loop.simps)
      (simp only: read_command_line [OF assms] sum.case prod.case c list.case r Cons)
qed



lemma emit_Some [simp]: "emit evs (Some (Inr (es, e))) = Some (Inr (evs @ es, e))"
  by (simp add: emit_def)

lemma split_words_join:
  assumes "\<forall>w \<in> set ws. w \<noteq> [] \<and> d \<notin> set w"
  shows "split_words d (concat (map (\<lambda>w. w @ [d]) ws)) = ws"
  using assms
proof (induction ws)
  case Nil
  then show ?case by (simp add: split_words_simps)
next
  case (Cons w ws)
  then obtain c s where w: "w = c # s" "c \<noteq> d" "d \<notin> set s" by (cases w) auto
  have "takeWhile (\<lambda>c. c \<noteq> d) (s @ d # x) = s" "dropWhile (\<lambda>c. c \<noteq> d) (s @ d # x) = d # x" for x
    using w(3) by (subst takeWhile_append2 dropWhile_append2; force)+
  with Cons w show ?case by (simp add: split_words_simps)
qed

section \<open>Properties\<close>

text \<open>C15: \<open>strsplit\<close> of a string gives an array that ends with a null pointer and before it holds the
  words of the string, the maximal parts without the delimiter, each as a string of its own
  that ends with a null byte; no access is outside the string, the tokens or the growing
  array. Joining words with the delimiter and splitting gives the words again.\<close>

theorem strsplit_correct:
  assumes "NUL \<notin> set str" and "\<forall>w \<in> set ws. w \<noteq> [] \<and> d \<notin> set w \<and> NUL \<notin> set w" and "d \<noteq> NUL"
  shows "(\<exists>a. strsplit (str @ NUL # junk) d = Inr a \<and>
      array_strings a = Inr (map (\<lambda>w. w @ [NUL]) (split_words d str))) \<and>
    (\<exists>a. strsplit (concat (map (\<lambda>w. w @ [d]) ws) @ [NUL]) d = Inr a \<and>
      array_strings a = Inr (map (\<lambda>w. w @ [NUL]) ws))"
proof -
  have "NUL \<notin> set (concat (map (\<lambda>w. w @ [d]) ws))" using assms(2,3) by auto
  from strsplit_words [OF this, of "[]" d] split_words_join [of ws d] assms(2)
  show ?thesis using strsplit_words [OF assms(1), of junk d] by simp
qed

theorem strsplit_correct_witness:
  "(\<exists>a. strsplit (''  ls -l  '' @ [NUL]) space = Inr a \<and> array_strings a = Inr [''ls'' @ [NUL], ''-l'' @ [NUL]]) \<and>
   (\<exists>a. strsplit (''ls -l '' @ [NUL]) space = Inr a \<and> array_strings a = Inr [''ls'' @ [NUL], ''-l'' @ [NUL]])"
proof -
  have "split_words space ''  ls -l  '' = [''ls'', ''-l'']" by code_simp
  with strsplit_correct [of "''  ls -l  ''" "[''ls'', ''-l'']" space "[]"] show ?thesis by (simp add: NUL_def)
qed



text \<open>Without a time-out a command that never ends keeps the shell waiting.\<close>

lemma shell_waits_forever:
  assumes "newline \<notin> set line" and "NUL \<notin> set line" and "split_words space line \<noteq> []"
    and "take 1 (split_words space line) \<noteq> [''exit'']"
    and "env_fork E (command_argv line)" and "env_duration E (command_argv line) = None"
  shows "shell_main E works [prog] (line @ newline # rest) = None"
  using shell_loop_line [OF assms(1,2), of E 0 rest] assms(3-6)
  by (auto simp: shell_main_def wait_child_def split: list.splits)

text \<open>At the end of the input the shell does not end: it uses a byte that was never written.\<close>

lemma shell_loop_end_of_input:
  assumes "newline \<notin> set input"
  shows "shell_loop E timeout input = Some (Inl UninitRead)"
proof -
  have "strscan input = Inl UninitRead"
    unfolding strscan_def by (rule scan_loop_no_newline [OF assms]) (simp_all add: STRSCAN_INITIAL_MAX_STR_LEN_def)
  then show ?thesis by (subst shell_loop.simps) (simp add: read_command_def)
qed

end
