(* ===== verification/String_Helpers.thy ===== *)
theory String_Helpers
  imports My_Shell
begin

text \<open>
  The helper functions that were handed out for the shell
  (\<open>workshop/sample_code/workshop(lab)3/string-helper-functions.c\<close>). Buffers have their
  allocated size. \<open>tokenizer\<close> overwrites the null byte of its argument and looks at the byte
  after it, so that it works only when a second null byte follows; and it leaves an element
  of its array unwritten when the string is empty or ends with the delimiter.
\<close>

section \<open>Counting, copying and comparing\<close>





fun strcpy_loop :: "char option list \<Rightarrow> nat \<Rightarrow> string \<Rightarrow> char option list res" where
  "strcpy_loop dst k [] = Inl OutOfBounds"
| "strcpy_loop dst k (c # src) =
     res_bind (write_at dst k (Some c)) (\<lambda>dst'.
       if c \<noteq> NUL then strcpy_loop dst' (k + 1) src else Inr dst')"

definition m_strcpy :: "char option list \<Rightarrow> string \<Rightarrow> char option list res" where
  "m_strcpy dst src = strcpy_loop dst 0 src"

fun m_strcmp :: "string \<Rightarrow> string \<Rightarrow> int res" where
  "m_strcmp (c # a) (d # b) = (if c = d \<and> c \<noteq> NUL then m_strcmp a b else Inr (schar c - schar d))"
| "m_strcmp a b = Inl OutOfBounds"

fun m_strlen_loop :: "string \<Rightarrow> int \<Rightarrow> int res" where
  "m_strlen_loop [] i = Inl OutOfBounds"
| "m_strlen_loop (c # str) i = (if c \<noteq> NUL then res_bind (c_int (i + 1)) (m_strlen_loop str) else Inr i)"

definition m_strlen :: "string \<Rightarrow> int res" where
  "m_strlen str = m_strlen_loop str 0"

section \<open>The tokenizer\<close>











section \<open>Splitting at every delimiter\<close>

text \<open>What the tokens should be: the parts between delimiters, empty ones included.\<close>

fun split_on :: "char \<Rightarrow> string \<Rightarrow> string list" where
  "split_on d [] = [[]]"
| "split_on d (c # s) =
     (if c = d then [] # split_on d s
      else case split_on d s of [] \<Rightarrow> [[c]] | w # ws \<Rightarrow> (c # w) # ws)"

fun join_with :: "char \<Rightarrow> string list \<Rightarrow> string" where
  "join_with d [] = []"
| "join_with d [w] = w"
| "join_with d (w # ws) = w @ d # join_with d ws"

section \<open>What the functions compute\<close>

lemma split_on_Cons: "\<exists>w ws. split_on d s = w # ws"
  by (induction s) auto



lemma split_on_append: "d \<notin> set w \<Longrightarrow> split_on d (w @ d # s) = w # split_on d s"
  by (induction w) auto

lemma split_on_word: "d \<notin> set w \<Longrightarrow> split_on d w = [w]"
  by (induction w) auto

lemma split_on_join: "ws \<noteq> [] \<Longrightarrow> \<forall>w \<in> set ws. d \<notin> set w \<Longrightarrow> split_on d (join_with d ws) = ws"
  by (induction d ws rule: join_with.induct) (auto simp: split_on_append split_on_word)

lemma split_on_parts: "w \<in> set (split_on d s) \<Longrightarrow> set w \<subseteq> set s \<and> d \<notin> set w"
proof (induction s arbitrary: w)
  case (Cons c s)
  obtain v vs where "split_on d s = v # vs" using split_on_Cons by blast
  with Cons show ?case by (fastforce split: if_splits)
qed simp


lemma m_strlen_result:
  assumes "NUL \<notin> set str" and "int (length str) \<le> INT_MAX"
  shows "m_strlen (str @ NUL # rest) = Inr (int (length str))"
proof -
  have "m_strlen_loop (str @ NUL # rest) n = Inr (n + int (length str))"
    if "NUL \<notin> set str" "0 \<le> n" "n + int (length str) \<le> INT_MAX" for n
    using that by (induction str arbitrary: n) (auto simp: int_rangeI)
  from this [of 0] assms show ?thesis by (simp add: m_strlen_def)
qed





lemma written_Some [simp]: "written (map Some xs) = xs"
  by (induction xs) (auto simp: written_def)














section \<open>The other helpers\<close>

text \<open>Copies are exact when the destination has room for the string and its null byte, and an error otherwise.\<close>

lemma strcpy_loop_result:
  "NUL \<notin> set w \<Longrightarrow> k = length pre \<Longrightarrow>
   strcpy_loop (pre @ todo) k (w @ NUL # rest) =
     (if length w < length todo then Inr (pre @ map Some (w @ [NUL]) @ drop (length w + 1) todo) else Inl OutOfBounds)"
proof (induction w arbitrary: pre k todo)
  case Nil
  then show ?case by (cases todo) (auto simp: write_at_def list_update_append)
next
  case (Cons c w)
  show ?case
  proof (cases todo)
    case Nil
    with Cons.prems show ?thesis by (simp add: write_at_def)
  next
    case (Cons x xs)
    with Cons.IH [of "Suc k" "pre @ [Some c]" xs] Cons.prems show ?thesis
      by (auto simp: write_at_def list_update_append)
  qed
qed

lemma m_strcpy_result:
  assumes "NUL \<notin> set w"
  shows "m_strcpy dst (w @ NUL # rest) =
    (if length w < length dst then Inr (map Some (w @ [NUL]) @ drop (length w + 1) dst) else Inl OutOfBounds)"
  using strcpy_loop_result [OF assms, of 0 "[]" dst rest] by (simp add: m_strcpy_def)

text \<open>\<open>m_strcmp\<close> and the \<open>strcmp\<close> of the shell are the same function.\<close>

lemma m_strcmp_sh_strcmp: "m_strcmp a b = sh_strcmp a b"
  by (induction a b rule: m_strcmp.induct) auto

lemma sh_strlen_m_strlen:
  assumes "NUL \<notin> set str" and "int (length str) \<le> INT_MAX"
  shows "m_strlen (str @ NUL # rest) = map_sum id int (sh_strlen (str @ NUL # rest))"
proof -
  have "strlen_loop (str @ NUL # rest) n = Inr (n + length str)" for n
    using assms(1) by (induction str arbitrary: n) auto
  then show ?thesis using m_strlen_result [OF assms] by (simp add: sh_strlen_def)
qed

end
