(* ===== verification/Race_Samples.thy ===== *)
theory Race_Samples
  imports Thread_Programs
begin

text \<open>
  Two threads that count in a shared variable: without a lock
  (\<open>workshop/sample_code/threads/thread2.c\<close>), where \<open>count++\<close> is a load and a store, and with
  a mutex around the whole loop (\<open>threads/no-race-mutex.c\<close>). The results the first program
  can have are determined exactly; the second one has a single result.
\<close>

section \<open>Counting without a lock (thread2.c)\<close>

text \<open>
  The points of \<open>work_function\<close>: the test of the loop, the load and the store of \<open>count++\<close>
  with the value that was loaded, and the final \<open>printf\<close>. The shared variables are \<open>count\<close>
  and the values that were printed; the numbers of process and thread are left out.
\<close>

datatype work_phase = WTest int | WLoad int | WStore int int | WReport | WEnded

record race_state =
  race_count :: int
  race_printed :: "int list"

fun work_function :: "int \<Rightarrow> (work_phase, race_state) thread" where
  "work_function max_iter t (WTest i) s = Some (Inr (if i < max_iter then WLoad i else WReport, s))"
| "work_function max_iter t (WLoad i) s = Some (Inr (WStore i (race_count s), s))"
| "work_function max_iter t (WStore i temp) s =
     Some (res_bind (c_int (temp + 1)) (\<lambda>v. res_bind (c_int (i + 1)) (\<lambda>i'.
       Inr (WTest i', s\<lparr>race_count := v\<rparr>))))"
| "work_function max_iter t WReport s =
     Some (Inr (WEnded, s\<lparr>race_printed := race_printed s @ [race_count s]\<rparr>))"
| "work_function max_iter t WEnded s = None"

text \<open>
  \<open>main\<close> until both threads run; \<open>creates\<close> says which calls of \<open>pthread_create\<close> succeed. Their
  results are not looked at: \<open>pthread_join\<close> then uses a thread number that was never stored.
\<close>

definition thread2_main :: "(nat \<Rightarrow> bool) \<Rightarrow> string list \<Rightarrow> (int \<times> work_phase list \<times> race_state) res" where
  "thread2_main creates argv =
     (case argv of
        prog # arg # _ \<Rightarrow>
          res_bind (atoi arg) (\<lambda>iterations.
            if creates 0 \<and> creates 1
            then Inr (iterations, [WTest 0, WTest 0], \<lparr>race_count = 0, race_printed = []\<rparr>)
            else Inl UninitRead)
      | _ \<Rightarrow> Inl NullDeref)"

text \<open>What \<open>main\<close> prints after both threads have been joined; \<open>iterations * 2\<close> is a \<open>long\<close>.\<close>

definition thread2_report :: "int \<Rightarrow> race_state \<Rightarrow> string" where
  "thread2_report iterations s =
     (if race_count s \<noteq> iterations * 2 then ''Error: '' @ show_int (race_count s) @ [newline]
      else ''Value as expected: count = '' @ show_int (race_count s) @ [newline])"

text \<open>The values \<open>count\<close> can have when both threads have ended.\<close>

definition race_results :: "int \<Rightarrow> int set" where
  "race_results n = {race_count s |ts ps s.
     run_threads (work_function n) ts ([WTest 0, WTest 0], \<lparr>race_count = 0, race_printed = []\<rparr>)
       = Some (Inr (ps, s)) \<and> ps = [WEnded, WEnded]}"

section \<open>Counting with a lock (no-race-mutex.c)\<close>

definition ITERATIONS :: int where "ITERATIONS = 1000000"

datatype runner_phase =
  RLock | RTest int | RLoad int | RAdd int int | RStore int int | RUnlock | REnded

record lock_state =
  lock_held :: bool
  lock_count :: int

fun runner :: "(runner_phase, lock_state) thread" where
  "runner t RLock s = (if lock_held s then None else Some (Inr (RTest 0, s\<lparr>lock_held := True\<rparr>)))"
| "runner t (RTest i) s = Some (Inr (if i < ITERATIONS then RLoad i else RUnlock, s))"
| "runner t (RLoad i) s = Some (Inr (RAdd i (lock_count s), s))"
| "runner t (RAdd i temp) s = Some (res_bind (c_int (temp + 1)) (\<lambda>v. Inr (RStore i v, s)))"
| "runner t (RStore i temp) s =
     Some (res_bind (c_int (i + 1)) (\<lambda>i'. Inr (RTest i', s\<lparr>lock_count := temp\<rparr>)))"
| "runner t RUnlock s = Some (Inr (REnded, s\<lparr>lock_held := False\<rparr>))"
| "runner t REnded s = None"

datatype race_call = Mutex_init | Create_runner nat

definition no_race_main :: "(race_call \<Rightarrow> bool) \<Rightarrow> (runner_phase list \<times> lock_state) res" where
  "no_race_main works =
     res_bind (run_setup works [Mutex_init, Create_runner 1, Create_runner 2]) (\<lambda>_.
       Inr ([RLock, RLock], \<lparr>lock_held = False, lock_count = 0\<rparr>))"

definition no_race_report :: "lock_state \<Rightarrow> string" where
  "no_race_report s =
     (if lock_count s < 2 * ITERATIONS
      then newline # '' ** ERROR ** count is ['' @ show_int (lock_count s) @ ''], should be '' @
           show_int (2 * ITERATIONS) @ [newline]
      else newline # '' OK! count is ['' @ show_int (lock_count s) @ '']'' @ [newline])"

section \<open>One thread after the other (thread1.c)\<close>

datatype hello_phase = HJoin | HFirst | HSecond | HEnded

text \<open>The shared state: whether the second thread has ended, and what was printed.\<close>

fun hello_thread :: "(hello_phase, bool \<times> string) thread" where
  "hello_thread t HJoin (joined, out) = (if joined then Some (Inr (HFirst, joined, out)) else None)"
| "hello_thread t HFirst (joined, out) =
     Some (Inr (HEnded, joined, out @ ''Hello from first thread'' @ [newline]))"
| "hello_thread t HSecond (joined, out) =
     Some (Inr (HEnded, True, out @ ''Hello from second thread'' @ [newline]))"
| "hello_thread t HEnded s = None"

definition hello_main :: "bool \<Rightarrow> (hello_phase list \<times> bool \<times> string) res" where
  "hello_main created = (if created then Inr ([HJoin, HSecond], False, []) else Inl UninitRead)"

section \<open>What the unlocked counter can end with\<close>

text \<open>How often a thread has stored, and the steps it has left.\<close>

fun stores :: "int \<Rightarrow> work_phase \<Rightarrow> int" where
  "stores n (WTest i) = i"
| "stores n (WLoad i) = i"
| "stores n (WStore i temp) = i"
| "stores n WReport = max 0 n"
| "stores n WEnded = max 0 n"

fun work_left :: "int \<Rightarrow> work_phase \<Rightarrow> nat" where
  "work_left n (WTest i) = 3 * nat (n - i) + 2"
| "work_left n (WLoad i) = 3 * nat (n - i) + 1"
| "work_left n (WStore i temp) = 3 * nat (n - i)"
| "work_left n WReport = 1"
| "work_left n WEnded = 0"

text \<open>A thread's own counter is in range; a loaded value lies between what must and can be there.\<close>

fun phase_ok :: "int \<Rightarrow> int \<Rightarrow> work_phase \<Rightarrow> bool" where
  "phase_ok n tot (WTest i) \<longleftrightarrow> 0 \<le> i \<and> i \<le> max 0 n"
| "phase_ok n tot (WLoad i) \<longleftrightarrow> 0 \<le> i \<and> i < n"
| "phase_ok n tot (WStore i temp) \<longleftrightarrow> 0 \<le> i \<and> i < n \<and> min 1 i \<le> temp \<and> temp \<le> tot"
| "phase_ok n tot WReport \<longleftrightarrow> True"
| "phase_ok n tot WEnded \<longleftrightarrow> True"

definition pair_ok :: "int \<Rightarrow> work_phase \<Rightarrow> work_phase \<Rightarrow> int \<Rightarrow> bool" where
  "pair_ok n p q c \<longleftrightarrow>
     2 * n \<le> INT_MAX \<and> phase_ok n (stores n p + stores n q) p \<and> phase_ok n (stores n p + stores n q) q \<and>
     min 1 (stores n p + stores n q) \<le> c \<and> c \<le> stores n p + stores n q \<and>
     (stores n p = max 0 n \<longrightarrow> stores n q = max 0 n \<longrightarrow> min 2 (max 0 n) \<le> c)"

lemma pair_ok_sym: "pair_ok n p q c \<longleftrightarrow> pair_ok n q p c"
  by (auto simp: pair_ok_def add.commute)

lemma stores_range: "phase_ok n k p \<Longrightarrow> 0 \<le> stores n p \<and> stores n p \<le> max 0 n"
  by (cases p) auto

lemma phase_ok_mono: "phase_ok n k p \<Longrightarrow> k \<le> k' \<Longrightarrow> phase_ok n k' p"
  by (cases p) auto

lemma work_function_pair_ok:
  assumes ok: "pair_ok n p q (race_count s)" and step: "work_function n t p s = Some r"
  shows "\<exists>p' s'. r = Inr (p', s') \<and> pair_ok n p' q (race_count s') \<and> work_left n p' < work_left n p"
proof -
  from ok have q: "0 \<le> stores n q" "stores n q \<le> max 0 n"
    using stores_range [of n _ q] by (auto simp: pair_ok_def)
  show ?thesis
  proof (cases p)
    case (WTest i)
    have "i = max 0 n" if "\<not> i < n" using that ok WTest by (auto simp: pair_ok_def)
    with ok step WTest show ?thesis by (cases "i < n") (auto simp: pair_ok_def)
  next
    case (WLoad i)
    with ok step q show ?thesis by (auto simp: pair_ok_def)
  next
    case (WStore i temp)
    with ok have b: "0 \<le> i" "i < n" "min 1 i \<le> temp" "temp \<le> i + stores n q" "2 * n \<le> INT_MAX"
      by (auto simp: pair_ok_def)
    then have "int_range (temp + 1)" "int_range (i + 1)" using q by (auto intro!: int_rangeI)
    with step WStore have "r = Inr (WTest (i + 1), s\<lparr>race_count := temp + 1\<rparr>)" by simp
    moreover have "phase_ok n (i + 1 + stores n q) q"
      by (rule phase_ok_mono [of n "i + stores n q"]) (use ok WStore in \<open>auto simp: pair_ok_def\<close>)
    ultimately show ?thesis using b q WStore by (auto simp: pair_ok_def)
  next
    case WReport
    with ok step show ?thesis by (auto simp: pair_ok_def)
  next
    case WEnded
    with step show ?thesis by simp
  qed
qed

fun race_inv :: "int \<Rightarrow> work_phase list \<Rightarrow> race_state \<Rightarrow> bool" where
  "race_inv n [p, q] s = pair_ok n p q (race_count s)"
| "race_inv n _ s = False"

lemma race_invE:
  assumes "race_inv n ps s"
  obtains p q where "ps = [p, q]" "pair_ok n p q (race_count s)"
  using assms by (cases "(n, ps, s)" rule: race_inv.cases) auto

interpretation race: thread_program "work_function n" "race_inv n" "work_left n" "\<lambda>p. p = WEnded" for n
proof
  fix ps s t r
  assume inv: "race_inv n ps s" and t: "t < length ps" and step: "work_function n t (ps ! t) s = Some r"
  from inv obtain p q where ps: "ps = [p, q]" "pair_ok n p q (race_count s)" by (rule race_invE)
  with t consider "t = 0" | "t = 1" by fastforce
  then show "\<exists>p s'. r = Inr (p, s') \<and> race_inv n (ps[t := p]) s' \<and> work_left n p < work_left n (ps ! t)"
  proof cases
    case 1
    with ps step work_function_pair_ok [of n p q s t r] show ?thesis by auto
  next
    case 2
    with ps step work_function_pair_ok [of n q p s t r] show ?thesis by (auto simp: pair_ok_sym)
  qed
next
  fix ps s u
  assume "race_inv n ps s" and "u < length ps" and "ps ! u \<noteq> WEnded"
  then show "\<exists>t < length ps. work_function n t (ps ! t) s \<noteq> None"
    by (cases "ps ! u") (force intro!: exI [of _ u])+
qed

text \<open>A thread that runs alone for \<open>k\<close> rounds adds \<open>k\<close>; at the end of its loop it ends.\<close>

lemma work_function_rounds:
  "ps ! t = WTest i \<Longrightarrow> t < length ps \<Longrightarrow> 0 \<le> i \<Longrightarrow> i + int k \<le> n \<Longrightarrow> n \<le> INT_MAX \<Longrightarrow>
   0 \<le> race_count s \<Longrightarrow> race_count s + int k \<le> INT_MAX \<Longrightarrow>
   reaches (work_function n) (ps, s) (ps[t := WTest (i + int k)], s\<lparr>race_count := race_count s + int k\<rparr>)"
proof (induction k arbitrary: ps s i)
  case 0
  then have "ps[t := WTest (i + int 0)] = ps" by (metis add.right_neutral list_update_id of_nat_0)
  then show ?case by (simp add: reaches_refl)
next
  case (Suc k)
  have r: "int_range (race_count s + 1)" "int_range (i + 1)" using Suc.prems by (auto intro!: int_rangeI)
  have "reaches (work_function n) (ps, s) (ps[t := WLoad i], s)"
    using Suc.prems by (intro reaches_step) auto
  also have "reaches (work_function n) (ps[t := WLoad i], s) (ps[t := WStore i (race_count s)], s)"
    using Suc.prems reaches_step [of t "ps[t := WLoad i]" "work_function n" s] by simp
  also have "reaches (work_function n) (ps[t := WStore i (race_count s)], s)
      (ps[t := WTest (i + 1)], s\<lparr>race_count := race_count s + 1\<rparr>)"
    using Suc.prems reaches_step [of t "ps[t := WStore i (race_count s)]" "work_function n" s] r by simp
  also have "reaches (work_function n) (ps[t := WTest (i + 1)], s\<lparr>race_count := race_count s + 1\<rparr>)
      (ps[t := WTest (i + int (Suc k))], s\<lparr>race_count := race_count s + int (Suc k)\<rparr>)"
    using Suc.IH [of "ps[t := WTest (i + 1)]" "i + 1" "s\<lparr>race_count := race_count s + 1\<rparr>"] Suc.prems
    by (simp add: add.assoc)
  finally show ?case .
qed

lemma work_function_alone:
  assumes "ps ! t = WTest i" "t < length ps" "0 \<le> i" "i \<le> j" "j \<le> n" "n \<le> INT_MAX"
    "0 \<le> race_count s" "race_count s + (j - i) \<le> INT_MAX"
  shows "reaches (work_function n) (ps, s) (ps[t := WTest j], s\<lparr>race_count := race_count s + (j - i)\<rparr>)"
  using work_function_rounds [of ps t i "nat (j - i)" n s] assms by simp

lemma work_function_load:
  "ps ! t = WTest i \<Longrightarrow> t < length ps \<Longrightarrow> i < n \<Longrightarrow>
   reaches (work_function n) (ps, s) (ps[t := WStore i (race_count s)], s)"
  by (rule reaches_trans [of _ _ "(ps[t := WLoad i], s)"])
    (use reaches_step [of t ps "work_function n" s] reaches_step [of t "ps[t := WLoad i]" "work_function n" s]
      in auto)

lemma work_function_store:
  "ps ! t = WStore i temp \<Longrightarrow> t < length ps \<Longrightarrow> int_range (temp + 1) \<Longrightarrow> int_range (i + 1) \<Longrightarrow>
   reaches (work_function n) (ps, s) (ps[t := WTest (i + 1)], s\<lparr>race_count := temp + 1\<rparr>)"
  by (rule reaches_step) simp_all

lemma work_function_report:
  assumes "ps ! t = WTest i" "t < length ps" "n \<le> i"
  shows "\<exists>s'. reaches (work_function n) (ps, s) (ps[t := WEnded], s') \<and> race_count s' = race_count s"
proof -
  have "reaches (work_function n) (ps, s) (ps[t := WReport], s)"
    using assms by (intro reaches_step) auto
  also have "reaches (work_function n) (ps[t := WReport], s)
      (ps[t := WEnded], s\<lparr>race_printed := race_printed s @ [race_count s]\<rparr>)"
    using assms reaches_step [of t "ps[t := WReport]" "work_function n" s] by simp
  finally show ?thesis by force
qed

abbreviation race_start :: "work_phase list \<times> race_state" where
  "race_start \<equiv> ([WTest 0, WTest 0], \<lparr>race_count = 0, race_printed = []\<rparr>)"

text \<open>It is enough to bring both threads to the end of their loops.\<close>

lemma race_resultsI:
  assumes "reaches (work_function n) race_start ([WTest i, WTest j], s)" and "n \<le> i" and "n \<le> j"
  shows "race_count s \<in> race_results n"
proof -
  from work_function_report [of "[WTest i, WTest j]" 0 i n s] assms(2) obtain s' where
    1: "reaches (work_function n) ([WTest i, WTest j], s) ([WEnded, WTest j], s')" "race_count s' = race_count s"
    by auto
  from work_function_report [of "[WEnded, WTest j]" 1 j n s'] assms(3) obtain s'' where
    2: "reaches (work_function n) ([WEnded, WTest j], s') ([WEnded, WEnded], s'')" "race_count s'' = race_count s'"
    by auto
  from assms(1) 1(1) 2(1) have "reaches (work_function n) race_start ([WEnded, WEnded], s'')"
    by (blast intro: reaches_trans)
  then have "race_count s'' \<in> race_results n" unfolding reaches_def race_results_def by blast
  with 1(2) 2(2) show ?thesis by simp
qed

text \<open>
  The first thread loads 0, the second one makes \<open>d\<close> rounds, and the first thread's store
  loses them.
\<close>

lemma race_lose_rounds:
  assumes "1 \<le> n" "2 * n \<le> INT_MAX" "0 \<le> d" "d \<le> n"
  shows "reaches (work_function n) race_start ([WTest 1, WTest d], \<lparr>race_count = 1, race_printed = []\<rparr>)"
proof -
  let ?s = "\<lambda>c. \<lparr>race_count = c, race_printed = []\<rparr>"
  have "reaches (work_function n) race_start ([WStore 0 0, WTest 0], ?s 0)"
    using work_function_load [of "[WTest 0, WTest 0]" 0 0 n "?s 0"] assms by simp
  also have "reaches (work_function n) \<dots> ([WStore 0 0, WTest d], ?s d)"
    using work_function_alone [of "[WStore 0 0, WTest 0]" 1 0 d n "?s 0"] assms by simp
  also have "reaches (work_function n) \<dots> ([WTest 1, WTest d], ?s 1)"
    using work_function_store [of "[WStore 0 0, WTest d]" 0 0 0 n "?s d"] assms
    by (simp add: int_range_def INT_MIN_def INT_MAX_def)
  finally show ?thesis .
qed

text \<open>After that the two threads run one after the other.\<close>

lemma race_results_high:
  assumes "1 \<le> n" "2 * n \<le> INT_MAX" "n \<le> c" "c \<le> 2 * n"
  shows "c \<in> race_results n"
proof -
  let ?s = "\<lambda>c. \<lparr>race_count = c, race_printed = []\<rparr>" and ?d = "2 * n - c"
  have "reaches (work_function n) race_start ([WTest 1, WTest ?d], ?s 1)"
    using assms by (intro race_lose_rounds) auto
  also have "reaches (work_function n) \<dots> ([WTest n, WTest ?d], ?s n)"
    using work_function_alone [of "[WTest 1, WTest ?d]" 0 1 n n "?s 1"] assms by simp
  also have "reaches (work_function n) \<dots> ([WTest n, WTest n], ?s c)"
    using work_function_alone [of "[WTest n, WTest ?d]" 1 ?d n n "?s n"] assms by simp
  finally show ?thesis using race_resultsI [of n n n "?s c"] by simp
qed

text \<open>
  The second thread keeps one round, which it starts when \<open>count\<close> is \<open>c - 1\<close>; its store at the end
  loses the other rounds of the first thread too.
\<close>

lemma race_results_low:
  assumes "1 \<le> n" "2 * n \<le> INT_MAX" "2 \<le> c" "c \<le> n + 1"
  shows "c \<in> race_results n"
proof -
  let ?s = "\<lambda>c. \<lparr>race_count = c, race_printed = []\<rparr>"
  have "reaches (work_function n) race_start ([WTest 1, WTest (n - 1)], ?s 1)"
    using assms by (intro race_lose_rounds) auto
  also have "reaches (work_function n) \<dots> ([WTest (c - 1), WTest (n - 1)], ?s (c - 1))"
    using work_function_alone [of "[WTest 1, WTest (n - 1)]" 0 1 "c - 1" n "?s 1"] assms by simp
  also have "reaches (work_function n) \<dots> ([WTest (c - 1), WStore (n - 1) (c - 1)], ?s (c - 1))"
    using work_function_load [of "[WTest (c - 1), WTest (n - 1)]" 1 "n - 1" n "?s (c - 1)"] assms by simp
  also have "reaches (work_function n) \<dots> ([WTest n, WStore (n - 1) (c - 1)], ?s n)"
    using work_function_alone [of "[WTest (c - 1), WStore (n - 1) (c - 1)]" 0 "c - 1" n n "?s (c - 1)"] assms
    by simp
  also have "reaches (work_function n) \<dots> ([WTest n, WTest n], ?s c)"
    using work_function_store [of "[WTest n, WStore (n - 1) (c - 1)]" 1 "n - 1" "c - 1" n "?s n"] assms
    by (simp add: int_rangeI)
  finally show ?thesis using race_resultsI [of n n n "?s c"] by simp
qed

lemma race_results_bounds:
  assumes n: "2 * n \<le> INT_MAX" and c: "c \<in> race_results n"
  shows "min 2 (max 0 n) \<le> c \<and> c \<le> 2 * max 0 n"
proof -
  from c obtain ts s where run: "run_threads (work_function n) ts race_start = Some (Inr ([WEnded, WEnded], s))"
    and s: "c = race_count s" unfolding race_results_def by blast
  have "race_inv n [WTest 0, WTest 0] \<lparr>race_count = 0, race_printed = []\<rparr>"
    using n by (simp add: pair_ok_def)
  from race.run_keeps [OF this run] have "race_inv n [WEnded, WEnded] s" by auto
  then show ?thesis by (simp add: pair_ok_def s)
qed

lemma race_results_zero: "n \<le> 0 \<Longrightarrow> 0 \<in> race_results n"
  using race_resultsI [of n 0 0 "\<lparr>race_count = 0, race_printed = []\<rparr>"] by (simp add: reaches_refl)

text \<open>C25:
  Two threads that each execute \<open>count++\<close> \<open>n\<close> times without a lock always end, without an
  overflow, after at most \<open>6 n + 4\<close> steps; the values \<open>count\<close> can have then are exactly
  those from \<open>min 2 n\<close> to \<open>2 n\<close> (0 when \<open>n\<close> is not positive). For \<open>n \<ge> 2\<close> all but two increments can get
  lost and one increment never does.
\<close>

theorem thread2_outcomes:
  assumes "2 * n \<le> INT_MAX"
    and "thread2_main creates argv = Inr (n, c)"
  shows "always_ends (work_function n) (\<lambda>p. p = WEnded) (6 * nat n + 4)
      (\<lambda>s. race_count s \<in> race_results n) c \<and>
    race_results n = {min 2 (max 0 n) .. 2 * max 0 n}"
proof (rule conjI [rotated])
  show r: "race_results n = {min 2 (max 0 n) .. 2 * max 0 n}"
  proof (intro set_eqI iffI)
    fix c
    assume "c \<in> race_results n"
    from race_results_bounds [OF assms(1) this] show "c \<in> {min 2 (max 0 n) .. 2 * max 0 n}" by simp
  next
    fix c
    assume c: "c \<in> {min 2 (max 0 n) .. 2 * max 0 n}"
    consider "n \<le> 0" | "1 \<le> n" "n \<le> c" | "1 \<le> n" "c < n" by linarith
    then show "c \<in> race_results n"
      using c assms(1) race_results_zero [of n] race_results_high [of n c] race_results_low [of n c]
      by cases (auto simp: min_def split: if_splits)
  qed
  have c: "c = race_start" using assms(2) by (auto simp: thread2_main_def split: list.splits if_splits)
  show "always_ends (work_function n) (\<lambda>p. p = WEnded) (6 * nat n + 4)
      (\<lambda>s. race_count s \<in> race_results n) c"
    unfolding c
  proof (rule race.ends_always)
    show "race_inv n [WTest 0, WTest 0] \<lparr>race_count = 0, race_printed = []\<rparr>"
      using assms(1) by (simp add: pair_ok_def)
    show "race.total_work n [WTest 0, WTest 0] \<le> 6 * nat n + 4"
      by (simp add: race.total_work_def)
    fix ps :: "work_phase list" and s :: race_state
    assume "race_inv n ps s" and "\<forall>p \<in> set ps. p = WEnded"
    then show "race_count s \<in> race_results n"
      unfolding r by (auto elim!: race_invE simp: pair_ok_def)
  qed
qed

theorem thread2_outcomes_witness:
  "race_results 2 = {2 .. 4} \<and> (\<exists>c. thread2_main (\<lambda>_. True) [''a.out'', ''2''] = Inr (2, c) \<and>
     always_ends (work_function 2) (\<lambda>p. p = WEnded) 16 (\<lambda>s. race_count s \<in> {2 .. 4}) c)"
proof -
  let ?c = "([WTest 0, WTest 0], \<lparr>race_count = 0, race_printed = []\<rparr>)"
  have m: "thread2_main (\<lambda>_. True) [''a.out'', ''2''] = Inr (2, ?c)" by code_simp
  have n: "2 * 2 \<le> INT_MAX" by (simp add: INT_MAX_def)
  show ?thesis using thread2_outcomes [OF n m] m by auto
qed

section \<open>The locked counter has one result\<close>

fun critical :: "runner_phase \<Rightarrow> bool" where
  "critical RLock = False"
| "critical REnded = False"
| "critical _ = True"

fun rounds :: "runner_phase \<Rightarrow> int" where
  "rounds RLock = 0"
| "rounds (RTest i) = i"
| "rounds (RLoad i) = i"
| "rounds (RAdd i temp) = i"
| "rounds (RStore i temp) = i"
| "rounds RUnlock = ITERATIONS"
| "rounds REnded = ITERATIONS"

fun runner_left :: "runner_phase \<Rightarrow> nat" where
  "runner_left RLock = 4 * nat ITERATIONS + 3"
| "runner_left (RTest i) = 4 * nat (ITERATIONS - i) + 2"
| "runner_left (RLoad i) = 4 * nat (ITERATIONS - i) + 1"
| "runner_left (RAdd i temp) = 4 * nat (ITERATIONS - i)"
| "runner_left (RStore i temp) = 4 * nat (ITERATIONS - i) - 1"
| "runner_left RUnlock = 1"
| "runner_left REnded = 0"

fun runner_ok :: "int \<Rightarrow> runner_phase \<Rightarrow> bool" where
  "runner_ok c (RTest i) \<longleftrightarrow> 0 \<le> i \<and> i \<le> ITERATIONS"
| "runner_ok c (RLoad i) \<longleftrightarrow> 0 \<le> i \<and> i < ITERATIONS"
| "runner_ok c (RAdd i temp) \<longleftrightarrow> 0 \<le> i \<and> i < ITERATIONS \<and> temp = c"
| "runner_ok c (RStore i temp) \<longleftrightarrow> 0 \<le> i \<and> i < ITERATIONS \<and> temp = c + 1"
| "runner_ok c _ \<longleftrightarrow> True"

definition lock_ok :: "runner_phase \<Rightarrow> runner_phase \<Rightarrow> lock_state \<Rightarrow> bool" where
  "lock_ok p q s \<longleftrightarrow> runner_ok (lock_count s) p \<and> runner_ok (lock_count s) q \<and>
     lock_count s = rounds p + rounds q \<and>
     lock_held s = (critical p \<or> critical q) \<and> \<not> (critical p \<and> critical q)"

lemma lock_ok_sym: "lock_ok p q s \<longleftrightarrow> lock_ok q p s"
  by (auto simp: lock_ok_def)

lemma ITERATIONS_range: "0 \<le> ITERATIONS" "2 * ITERATIONS \<le> INT_MAX"
  by (simp_all add: ITERATIONS_def INT_MAX_def)

lemma not_critical_ok: "\<not> critical q \<Longrightarrow> runner_ok c q \<and> 0 \<le> rounds q \<and> rounds q \<le> ITERATIONS"
  by (cases q) (simp_all add: ITERATIONS_range)

lemma runner_lock_ok:
  assumes ok: "lock_ok p q s" and step: "runner t p s = Some r"
  shows "\<exists>p' s'. r = Inr (p', s') \<and> lock_ok p' q s' \<and> runner_left p' < runner_left p"
proof (cases "critical p")
  case True
  with ok have q: "\<not> critical q" by (simp add: lock_ok_def)
  note q' = not_critical_ok [OF q]
  show ?thesis
  proof (cases p)
    case (RTest i)
    with ok step q show ?thesis by (cases "i < ITERATIONS") (auto simp: lock_ok_def)
  next
    case (RAdd i temp)
    with ok have "int_range (temp + 1)"
      using q' [of 0] ITERATIONS_range by (auto simp: lock_ok_def intro!: int_rangeI)
    with RAdd ok step q show ?thesis by (auto simp: lock_ok_def)
  next
    case (RStore i temp)
    with ok have "int_range (i + 1)" using ITERATIONS_range by (auto simp: lock_ok_def intro!: int_rangeI)
    with RStore ok step q q' show ?thesis by (auto simp: lock_ok_def)
  qed (use True ok step q in \<open>auto simp: lock_ok_def\<close>)
next
  case False
  with ok step show ?thesis
    by (cases p) (auto simp: lock_ok_def ITERATIONS_range split: if_splits)
qed

fun lock_inv :: "runner_phase list \<Rightarrow> lock_state \<Rightarrow> bool" where
  "lock_inv [p, q] s = lock_ok p q s"
| "lock_inv _ s = False"

lemma lock_invE:
  assumes "lock_inv ps s"
  obtains p q where "ps = [p, q]" "lock_ok p q s"
  using assms by (cases "(ps, s)" rule: lock_inv.cases) auto

text \<open>A thread can only wait while the other one is inside.\<close>

lemma runner_not_stuck:
  assumes "lock_ok p q s" "p \<noteq> REnded"
  shows "runner t p s \<noteq> None \<or> runner u q s \<noteq> None"
  using assms by (cases p; cases q) (auto simp: lock_ok_def)

interpretation locked: thread_program runner lock_inv runner_left "\<lambda>p. p = REnded"
proof
  fix ps s t r
  assume inv: "lock_inv ps s" and t: "t < length ps" and step: "runner t (ps ! t) s = Some r"
  from inv obtain p q where ps: "ps = [p, q]" "lock_ok p q s" by (rule lock_invE)
  with t consider "t = 0" | "t = 1" by fastforce
  then show "\<exists>p s'. r = Inr (p, s') \<and> lock_inv (ps[t := p]) s' \<and> runner_left p < runner_left (ps ! t)"
  proof cases
    case 1
    with ps step runner_lock_ok [of p q s t r] show ?thesis by auto
  next
    case 2
    with ps step runner_lock_ok [of q p s t r] show ?thesis by (auto simp: lock_ok_sym)
  qed
next
  fix ps s u
  assume "lock_inv ps s" and u: "u < length ps" "ps ! u \<noteq> REnded"
  then obtain p q where ps: "ps = [p, q]" "lock_ok p q s" by (auto elim: lock_invE)
  with u consider "p \<noteq> REnded" | "q \<noteq> REnded" by (cases u) auto
  then have "runner 0 p s \<noteq> None \<or> runner 1 q s \<noteq> None"
    using ps(2) runner_not_stuck [of p q s 0 1] runner_not_stuck [of q p s 1 0] by cases (auto simp: lock_ok_sym)
  with ps(1) show "\<exists>t < length ps. runner t (ps ! t) s \<noteq> None" by (auto simp: Ex_less_Suc2)
qed

text \<open>
  With the lock around the loop, at most one thread is between \<open>pthread_mutex_lock\<close> and
  \<open>pthread_mutex_unlock\<close> at any time, no schedule leads to a deadlock or an overflow, and every run ends
  with \<open>count\<close> equal to twice \<open>ITERATIONS\<close>, so that the program reports success.
\<close>

theorem no_race_counts_all:
  assumes "no_race_main works = Inr c"
  shows "always_ends runner (\<lambda>p. p = REnded) (8 * nat ITERATIONS + 6)
      (\<lambda>s. lock_count s = 2 * ITERATIONS \<and> no_race_report s = newline # '' OK! count is [2000000]'' @ [newline]) c \<and>
    (\<forall>ps s. reaches runner c (ps, s) \<longrightarrow> length (filter critical ps) \<le> 1)"
proof (intro conjI allI impI)
  let ?ps = "[RLock, RLock]" and ?s = "\<lparr>lock_held = False, lock_count = 0\<rparr>"
  have c: "c = (?ps, ?s)" using assms by (auto simp: no_race_main_def)
  have start: "lock_inv ?ps ?s" by (simp add: lock_ok_def)
  have "digit_char 0 = CHR ''0''" "digit_char 2 = CHR ''2''" by code_simp+
  then have shown: "show_int 2000000 = ''2000000''" by (simp add: show_int_def show_nat.simps)
  show "always_ends runner (\<lambda>p. p = REnded) (8 * nat ITERATIONS + 6)
      (\<lambda>s. lock_count s = 2 * ITERATIONS \<and> no_race_report s = newline # '' OK! count is [2000000]'' @ [newline]) c"
    unfolding c
  proof (rule locked.ends_always [OF start])
    show "locked.total_work ?ps \<le> 8 * nat ITERATIONS + 6" by (simp add: locked.total_work_def)
    fix ps :: "runner_phase list" and s :: lock_state
    assume "lock_inv ps s" and "\<forall>p \<in> set ps. p = REnded"
    then have "lock_count s = 2 * ITERATIONS" by (auto elim!: lock_invE simp: lock_ok_def)
    then show "lock_count s = 2 * ITERATIONS \<and> no_race_report s = newline # '' OK! count is [2000000]'' @ [newline]"
      by (simp add: no_race_report_def ITERATIONS_def shown)
  qed
  fix ps s
  assume "reaches runner c (ps, s)"
  then obtain ts where "run_threads runner ts (?ps, ?s) = Some (Inr (ps, s))" by (auto simp: reaches_def c)
  from locked.run_keeps [OF start this] show "length (filter critical ps) \<le> 1"
    by (auto elim!: lock_invE simp: lock_ok_def)
qed

theorem no_race_counts_all_witness:
  "\<exists>c. no_race_main (\<lambda>_. True) = Inr c \<and>
     always_ends runner (\<lambda>p. p = REnded) (8 * nat ITERATIONS + 6)
       (\<lambda>s. lock_count s = 2 * ITERATIONS \<and> no_race_report s = newline # '' OK! count is [2000000]'' @ [newline]) c"
proof -
  have m: "no_race_main (\<lambda>_. True) = Inr ([RLock, RLock], \<lparr>lock_held = False, lock_count = 0\<rparr>)"
    by code_simp
  from no_race_counts_all [OF m] m show ?thesis by blast
qed

section \<open>Joining a thread\<close>

fun hello_inv :: "hello_phase list \<Rightarrow> bool \<times> string \<Rightarrow> bool" where
  "hello_inv [p, q] (joined, out) \<longleftrightarrow>
     (p, q, joined, out) \<in> {(HJoin, HSecond, False, []),
       (HJoin, HEnded, True, ''Hello from second thread'' @ [newline]),
       (HFirst, HEnded, True, ''Hello from second thread'' @ [newline]),
       (HEnded, HEnded, True, ''Hello from second thread'' @ [newline] @ ''Hello from first thread'' @ [newline])}"
| "hello_inv _ _ \<longleftrightarrow> False"

fun hello_left :: "hello_phase \<Rightarrow> nat" where
  "hello_left HJoin = 2"
| "hello_left HFirst = 1"
| "hello_left HSecond = 1"
| "hello_left HEnded = 0"

lemma hello_invE:
  assumes "hello_inv ps s"
  obtains p q joined out where "ps = [p, q]" "s = (joined, out)" "hello_inv [p, q] (joined, out)"
  using assms by (cases "(ps, s)" rule: hello_inv.cases) auto

interpretation hello: thread_program hello_thread hello_inv hello_left "\<lambda>p. p = HEnded"
proof
  fix ps s t r
  assume inv: "hello_inv ps s" and t: "t < length ps" and step: "hello_thread t (ps ! t) s = Some r"
  from inv obtain p q joined out where
    ps: "ps = [p, q]" "s = (joined, out)" "hello_inv [p, q] (joined, out)" by (rule hello_invE)
  with t consider "t = 0" | "t = 1" by fastforce
  then show "\<exists>p s'. r = Inr (p, s') \<and> hello_inv (ps[t := p]) s' \<and> hello_left p < hello_left (ps ! t)"
    using ps step by cases (auto simp: ex_bool_eq)
next
  fix ps s u
  assume inv: "hello_inv ps s" and u: "u < length ps" "ps ! u \<noteq> HEnded"
  from inv obtain p q joined out where
    "ps = [p, q]" "s = (joined, out)" "hello_inv [p, q] (joined, out)" by (rule hello_invE)
  with u show "\<exists>t < length ps. hello_thread t (ps ! t) s \<noteq> None"
    by (auto simp: Ex_less_Suc2 less_Suc_eq)
qed

text \<open>The order of the two lines of \<open>thread1.c\<close> does not depend on the schedule.\<close>

lemma hello_output:
  assumes "hello_main True = Inr c"
  shows "always_ends hello_thread (\<lambda>p. p = HEnded) 3
    (\<lambda>(joined, out). out = ''Hello from second thread'' @ [newline] @ ''Hello from first thread'' @ [newline]) c"
proof -
  have c: "c = ([HJoin, HSecond], False, [])" using assms by (simp add: hello_main_def)
  show ?thesis
    unfolding c
  proof (rule hello.ends_always)
    show "hello_inv [HJoin, HSecond] (False, [])" by simp
    show "hello.total_work [HJoin, HSecond] \<le> 3" by (simp add: hello.total_work_def)
    fix ps :: "hello_phase list" and s :: "bool \<times> string"
    assume "\<forall>p \<in> set ps. p = HEnded" and "hello_inv ps s"
    then show "case s of (joined, out) \<Rightarrow>
        out = ''Hello from second thread'' @ [newline] @ ''Hello from first thread'' @ [newline]"
      by (elim hello_invE [of ps s]) auto
  qed
qed

end
