(* ===== verification/Semaphore_Samples.thy ===== *)
theory Semaphore_Samples
  imports Thread_Programs
begin

text \<open>
  Two samples that order threads by semaphores: a producer and a consumer that take turns
  (\<open>workshop/sample_code/threads/producer-consumer.c\<close>) and two threads that meet at a barrier
  (\<open>threads/semaphores.c\<close>).
\<close>

section \<open>Taking turns (producer-consumer.c)\<close>

text \<open>
  The points of \<open>produce\<close> and \<open>consume\<close>, with the loop counter; \<open>n++\<close> is a load and a
  store.
\<close>

datatype turn_phase =
    PTest int | PWait int | PLoad int | PStore int int | PPost int
  | CTest int | CWait int | CPrint int | CPost int
  | TEnded

record turn_state =
  produced :: int
  consumed :: int
  turn_n :: int
  turn_out :: "int list"

definition next_round :: "(int \<Rightarrow> turn_phase) \<Rightarrow> int \<Rightarrow> turn_state \<Rightarrow> (turn_phase \<times> turn_state) res option" where [simp]:
  "next_round test i s = Some (res_bind (c_int (i + 1)) (\<lambda>i'. Inr (test i', s)))"

fun produce_consume :: "int \<Rightarrow> (turn_phase, turn_state) thread" where
  "produce_consume loopcnt t (PTest i) s = Some (Inr (if i < loopcnt then PWait i else TEnded, s))"
| "produce_consume loopcnt t (PWait i) s =
     (if consumed s > 0 then Some (Inr (PLoad i, s\<lparr>consumed := consumed s - 1\<rparr>)) else None)"
| "produce_consume loopcnt t (PLoad i) s = Some (Inr (PStore i (turn_n s), s))"
| "produce_consume loopcnt t (PStore i temp) s =
     Some (res_bind (c_int (temp + 1)) (\<lambda>v. Inr (PPost i, s\<lparr>turn_n := v\<rparr>)))"
| "produce_consume loopcnt t (PPost i) s = next_round PTest i (s\<lparr>produced := produced s + 1\<rparr>)"
| "produce_consume loopcnt t (CTest i) s = Some (Inr (if i < loopcnt then CWait i else TEnded, s))"
| "produce_consume loopcnt t (CWait i) s =
     (if produced s > 0 then Some (Inr (CPrint i, s\<lparr>produced := produced s - 1\<rparr>)) else None)"
| "produce_consume loopcnt t (CPrint i) s = Some (Inr (CPost i, s\<lparr>turn_out := turn_out s @ [turn_n s]\<rparr>))"
| "produce_consume loopcnt t (CPost i) s = next_round CTest i (s\<lparr>consumed := consumed s + 1\<rparr>)"
| "produce_consume loopcnt t TEnded s = None"

datatype turn_call = Init_consumed int | Init_produced int | Create_produce | Create_consume

definition turn_start :: "turn_phase list \<times> turn_state" where
  "turn_start = ([PTest 0, CTest 0], \<lparr>produced = 1, consumed = 0, turn_n = 0, turn_out = []\<rparr>)"

definition turn_main :: "(turn_call \<Rightarrow> bool) \<Rightarrow> (int \<times> turn_phase list \<times> turn_state) res" where
  "turn_main works =
     (let loopcnt = 5 in
      res_bind (run_setup works [Init_consumed 0, Init_produced 1, Create_produce, Create_consume])
        (\<lambda>_. Inr (loopcnt, turn_start)))"

section \<open>A barrier (semaphores.c)\<close>

datatype barrier_phase = BBefore | BPost | BWait | BAfter | BEnded

datatype barrier_line = Before nat | After nat

record barrier_state =
  semA :: int
  semB :: int
  barrier_out :: "barrier_line list"

text \<open>Thread 0 runs \<open>simple1\<close>, thread 1 runs \<open>simple2\<close>.\<close>

definition simple1 :: "barrier_phase \<Rightarrow> barrier_state \<Rightarrow> (barrier_phase \<times> barrier_state) res option" where
  "simple1 p s =
     (case p of
        BBefore \<Rightarrow> Some (Inr (BPost, s\<lparr>barrier_out := barrier_out s @ [Before 1]\<rparr>))
      | BPost \<Rightarrow> Some (Inr (BWait, s\<lparr>semB := semB s + 1\<rparr>))
      | BWait \<Rightarrow> (if semA s > 0 then Some (Inr (BAfter, s\<lparr>semA := semA s - 1\<rparr>)) else None)
      | BAfter \<Rightarrow> Some (Inr (BEnded, s\<lparr>barrier_out := barrier_out s @ [After 1]\<rparr>))
      | BEnded \<Rightarrow> None)"

definition simple2 :: "barrier_phase \<Rightarrow> barrier_state \<Rightarrow> (barrier_phase \<times> barrier_state) res option" where
  "simple2 p s =
     (case p of
        BBefore \<Rightarrow> Some (Inr (BPost, s\<lparr>barrier_out := barrier_out s @ [Before 2]\<rparr>))
      | BPost \<Rightarrow> Some (Inr (BWait, s\<lparr>semA := semA s + 1\<rparr>))
      | BWait \<Rightarrow> (if semB s > 0 then Some (Inr (BAfter, s\<lparr>semB := semB s - 1\<rparr>)) else None)
      | BAfter \<Rightarrow> Some (Inr (BEnded, s\<lparr>barrier_out := barrier_out s @ [After 2]\<rparr>))
      | BEnded \<Rightarrow> None)"

definition barrier_thread :: "(barrier_phase, barrier_state) thread" where
  "barrier_thread t p s = (if t = 0 then simple1 p s else simple2 p s)"

definition barrier_line_text :: "barrier_line \<Rightarrow> string" where
  "barrier_line_text l =
     (case l of
        Before t \<Rightarrow> ''Thread '' @ show_nat t @ '' here, before the barrier.'' @ [newline]
      | After t \<Rightarrow> ''Thread '' @ show_nat t @ '' after the barrier.'' @ [newline])"

definition NUM_THREADS :: nat where "NUM_THREADS = 2"

definition barrier_start :: "barrier_phase list \<times> barrier_state" where
  "barrier_start = (replicate NUM_THREADS BBefore, \<lparr>semA = 0, semB = 0, barrier_out = []\<rparr>)"

text \<open>What is on the terminal when \<open>main\<close> returns: the lines of the threads and its own.\<close>

definition barrier_main_out :: "barrier_state \<Rightarrow> string" where
  "barrier_main_out s = concat (map barrier_line_text (barrier_out s)) @
     newline # ''main() reporting that all '' @ show_nat NUM_THREADS @ '' threads have terminated'' @ [newline]"

section \<open>The turns\<close>

text \<open>
  The number of increments the producer and of lines the consumer has made, and where the one
  permission to go on is.
\<close>

fun made :: "int \<Rightarrow> turn_phase \<Rightarrow> int" where
  "made k (PTest i) = i" | "made k (PWait i) = i" | "made k (PLoad i) = i" | "made k (PStore i temp) = i"
| "made k (PPost i) = i + 1"
| "made k (CTest i) = i" | "made k (CWait i) = i" | "made k (CPrint i) = i"
| "made k (CPost i) = i + 1"
| "made k TEnded = k"

fun round_ok :: "int \<Rightarrow> turn_phase \<Rightarrow> bool" where
  "round_ok k (PTest i) \<longleftrightarrow> 0 \<le> i \<and> i \<le> k"
| "round_ok k (CTest i) \<longleftrightarrow> 0 \<le> i \<and> i \<le> k"
| "round_ok k TEnded \<longleftrightarrow> True"
| "round_ok k (PStore i temp) \<longleftrightarrow> 0 \<le> i \<and> i < k \<and> temp = i"
| "round_ok k (PWait i) \<longleftrightarrow> 0 \<le> i \<and> i < k" | "round_ok k (PLoad i) \<longleftrightarrow> 0 \<le> i \<and> i < k"
| "round_ok k (PPost i) \<longleftrightarrow> 0 \<le> i \<and> i < k"
| "round_ok k (CWait i) \<longleftrightarrow> 0 \<le> i \<and> i < k" | "round_ok k (CPrint i) \<longleftrightarrow> 0 \<le> i \<and> i < k"
| "round_ok k (CPost i) \<longleftrightarrow> 0 \<le> i \<and> i < k"

fun is_producer :: "turn_phase \<Rightarrow> bool" where
  "is_producer (CTest i) = False" | "is_producer (CWait i) = False"
| "is_producer (CPrint i) = False" | "is_producer (CPost i) = False"
| "is_producer _ = True"

fun is_consumer :: "turn_phase \<Rightarrow> bool" where
  "is_consumer TEnded = True"
| "is_consumer p = (\<not> is_producer p)"

text \<open>Between a wait and the next post a thread has the permission; it carries one of two readings.\<close>

fun inside :: "turn_phase \<Rightarrow> int" where
  "inside (PLoad i) = 1" | "inside (PStore i temp) = 1" | "inside (PPost i) = 1"
| "inside (CPrint i) = 1" | "inside (CPost i) = 1"
| "inside _ = 0"

fun may_print :: "turn_phase \<Rightarrow> int" where
  "may_print (PPost i) = 1" | "may_print (CPrint i) = 1" | "may_print _ = 0"

definition turn_ok :: "int \<Rightarrow> turn_phase \<Rightarrow> turn_phase \<Rightarrow> turn_state \<Rightarrow> bool" where
  "turn_ok k p q s \<longleftrightarrow> 0 \<le> k \<and> k \<le> INT_MAX \<and> is_producer p \<and> is_consumer q \<and> round_ok k p \<and> round_ok k q \<and>
     0 \<le> produced s \<and> 0 \<le> consumed s \<and>
     produced s + consumed s + inside p + inside q = 1 \<and>
     made k q + produced s + may_print p + may_print q = made k p + 1 \<and>
     turn_n s = made k p \<and> turn_out s = map int [0..<nat (made k q)]"

fun turn_left :: "int \<Rightarrow> turn_phase \<Rightarrow> nat" where
  "turn_left k (PTest i) = 5 * nat (k - i) + 1" | "turn_left k (PWait i) = 5 * nat (k - i)"
| "turn_left k (PLoad i) = 5 * nat (k - i) - 1" | "turn_left k (PStore i temp) = 5 * nat (k - i) - 2"
| "turn_left k (PPost i) = 5 * nat (k - i) - 3"
| "turn_left k (CTest i) = 4 * nat (k - i) + 1" | "turn_left k (CWait i) = 4 * nat (k - i)"
| "turn_left k (CPrint i) = 4 * nat (k - i) - 1" | "turn_left k (CPost i) = 4 * nat (k - i) - 2"
| "turn_left k TEnded = 0"

lemma inside_nonneg: "0 \<le> inside p" "0 \<le> may_print p"
  by (cases p; simp)+

lemma print_next: "0 \<le> i \<Longrightarrow> map int [0..<nat i] @ [i] = map int [0..<nat (i + 1)]"
  by (simp add: nat_add_distrib)

lemma produce_turn_ok:
  assumes ok: "turn_ok k p q s" and step: "produce_consume k t p s = Some r"
  shows "\<exists>p' s'. r = Inr (p', s') \<and> turn_ok k p' q s' \<and> turn_left k p' < turn_left k p"
proof (cases p)
  case (PStore i temp)
  with ok have "int_range (temp + 1)" by (auto simp: turn_ok_def intro!: int_rangeI)
  with PStore ok step show ?thesis by (auto simp: turn_ok_def)
next
  case (PPost i)
  with ok have "int_range (i + 1)" by (auto simp: turn_ok_def intro!: int_rangeI)
  with PPost ok step inside_nonneg [of q] show ?thesis by (auto simp: turn_ok_def)
qed (use ok step in \<open>auto simp: turn_ok_def split: if_splits\<close>)

lemma consume_turn_ok:
  assumes ok: "turn_ok k p q s" and step: "produce_consume k t q s = Some r"
  shows "\<exists>q' s'. r = Inr (q', s') \<and> turn_ok k p q' s' \<and> turn_left k q' < turn_left k q"
proof (cases q)
  case (CPrint i)
  with ok have "inside p = 0" "produced s = 0" "consumed s = 0"
    using inside_nonneg [of p] by (auto simp: turn_ok_def)
  then have "may_print p = 0" by (cases p) auto
  with CPrint ok step \<open>produced s = 0\<close> show ?thesis by (auto simp: turn_ok_def print_next)
next
  case (CPost i)
  with ok have "int_range (i + 1)" by (auto simp: turn_ok_def intro!: int_rangeI)
  with CPost ok step inside_nonneg [of p] show ?thesis by (auto simp: turn_ok_def)
qed (use ok step in \<open>auto simp: turn_ok_def split: if_splits\<close>)

lemma turn_not_stuck:
  assumes ok: "turn_ok k p q s" and "\<not> (p = TEnded \<and> q = TEnded)"
  shows "produce_consume k t p s \<noteq> None \<or> produce_consume k u q s \<noteq> None"
  using assms by (cases p; cases q) (auto simp: turn_ok_def)

fun turn_inv :: "int \<Rightarrow> turn_phase list \<Rightarrow> turn_state \<Rightarrow> bool" where
  "turn_inv k [p, q] s = turn_ok k p q s"
| "turn_inv k _ s = False"

lemma turn_invE:
  assumes "turn_inv k ps s"
  obtains p q where "ps = [p, q]" "turn_ok k p q s"
  using assms by (cases "(k, ps, s)" rule: turn_inv.cases) auto

interpretation turns: thread_program "produce_consume k" "turn_inv k" "turn_left k" "\<lambda>p. p = TEnded" for k
proof
  fix ps s t r
  assume inv: "turn_inv k ps s" and t: "t < length ps" and step: "produce_consume k t (ps ! t) s = Some r"
  from inv obtain p q where ps: "ps = [p, q]" "turn_ok k p q s" by (rule turn_invE)
  with t consider "t = 0" | "t = 1" by fastforce
  then show "\<exists>p s'. r = Inr (p, s') \<and> turn_inv k (ps[t := p]) s' \<and> turn_left k p < turn_left k (ps ! t)"
    using ps step produce_turn_ok [OF ps(2), of t r] consume_turn_ok [OF ps(2), of t r] by cases auto
next
  fix ps s u
  assume inv: "turn_inv k ps s" and u: "u < length ps" "ps ! u \<noteq> TEnded"
  from inv obtain p q where ps: "ps = [p, q]" "turn_ok k p q s" by (rule turn_invE)
  with u have "\<not> (p = TEnded \<and> q = TEnded)" by (cases u) auto
  from turn_not_stuck [OF ps(2) this, of 0 1] ps(1)
  show "\<exists>t < length ps. produce_consume k t (ps ! t) s \<noteq> None" by (auto simp: Ex_less_Suc2)
qed

text \<open>C29:
  Producer and consumer take turns under every schedule: the program always ends, never
  deadlocks, and prints exactly 0 to 4 in this order. As the consumer has the first turn it prints 0
  before anything was produced, and the last value produced, 5, is never printed. At no time
  are both threads between their wait and their post.
\<close>

theorem producer_consumer_turns:
  assumes "turn_main works = Inr (k, c)"
  shows "always_ends (produce_consume k) (\<lambda>p. p = TEnded) 47
      (\<lambda>s. turn_out s = [0, 1, 2, 3, 4] \<and> turn_n s = 5) c \<and>
    (\<forall>ps s. reaches (produce_consume k) c (ps, s) \<longrightarrow> sum_list (map inside ps) \<le> 1)"
proof (intro conjI allI impI)
  have k: "k = 5" and c: "c = turn_start" using assms by (auto simp: turn_main_def)
  let ?s = "\<lparr>produced = 1, consumed = 0, turn_n = 0, turn_out = []\<rparr>"
  have start: "turn_inv 5 [PTest 0, CTest 0] ?s" by (simp add: turn_ok_def INT_MAX_def)
  show "always_ends (produce_consume k) (\<lambda>p. p = TEnded) 47
      (\<lambda>s. turn_out s = [0, 1, 2, 3, 4] \<and> turn_n s = 5) c"
    unfolding c k turn_start_def
  proof (rule turns.ends_always [OF start])
    show "turns.total_work 5 [PTest 0, CTest 0] \<le> 47" by (simp add: turns.total_work_def)
    fix ps :: "turn_phase list" and s :: turn_state
    assume inv: "turn_inv 5 ps s" and e: "\<forall>p \<in> set ps. p = TEnded"
    from inv obtain p q where "ps = [p, q]" "turn_ok 5 p q s" by (rule turn_invE)
    with e have "turn_out s = map int [0..<5]" "turn_n s = 5" by (simp_all add: turn_ok_def)
    then show "turn_out s = [0, 1, 2, 3, 4] \<and> turn_n s = 5" by (simp add: upt_rec)
  qed
  fix ps s
  assume "reaches (produce_consume k) c (ps, s)"
  then obtain ts where "run_threads (produce_consume 5) ts ([PTest 0, CTest 0], ?s) = Some (Inr (ps, s))"
    by (auto simp: reaches_def c k turn_start_def)
  from turns.run_keeps [OF start this] have "turn_inv 5 ps s" by auto
  then show "sum_list (map inside ps) \<le> 1" by (auto elim!: turn_invE simp: turn_ok_def)
qed

theorem producer_consumer_turns_witness:
  "turn_main (\<lambda>_. True) = Inr (5, turn_start) \<and>
   always_ends (produce_consume 5) (\<lambda>p. p = TEnded) 47
     (\<lambda>s. turn_out s = [0, 1, 2, 3, 4] \<and> turn_n s = 5) turn_start"
proof -
  have m: "turn_main (\<lambda>_. True) = Inr (5, turn_start)" by (simp add: turn_main_def)
  from producer_consumer_turns [OF m] m show ?thesis by blast
qed

section \<open>The barrier\<close>

fun arrived :: "barrier_phase \<Rightarrow> bool" where
  "arrived BBefore = False" | "arrived _ = True"

fun posted :: "barrier_phase \<Rightarrow> int" where
  "posted BBefore = 0" | "posted BPost = 0" | "posted _ = 1"

fun waited :: "barrier_phase \<Rightarrow> int" where
  "waited BAfter = 1" | "waited BEnded = 1" | "waited _ = 0"

fun barrier_left :: "barrier_phase \<Rightarrow> nat" where
  "barrier_left BBefore = 4" | "barrier_left BPost = 3" | "barrier_left BWait = 2"
| "barrier_left BAfter = 1" | "barrier_left BEnded = 0"

text \<open>
  The lines so far: first the threads that have arrived, each once, then those that have
  passed, each once, and nobody passes before both have arrived.
\<close>

definition lines_ok :: "barrier_phase \<Rightarrow> barrier_phase \<Rightarrow> barrier_line list \<Rightarrow> bool" where
  "lines_ok p q out \<longleftrightarrow> (\<exists>bs as. out = map Before bs @ map After as \<and> distinct bs \<and> distinct as \<and>
     set bs = (if arrived p then {1} else {}) \<union> (if arrived q then {2} else {}) \<and>
     set as = (if p = BEnded then {1} else {}) \<union> (if q = BEnded then {2} else {}))"

definition barrier_ok :: "barrier_phase \<Rightarrow> barrier_phase \<Rightarrow> barrier_state \<Rightarrow> bool" where
  "barrier_ok p q s \<longleftrightarrow> semB s = posted p - waited q \<and> semA s = posted q - waited p \<and>
     0 \<le> semA s \<and> 0 \<le> semB s \<and> lines_ok p q (barrier_out s)"

lemma lines_before:
  "lines_ok BBefore q out \<Longrightarrow> q \<noteq> BEnded \<Longrightarrow> lines_ok BPost q (out @ [Before 1])"
  "lines_ok p BBefore out \<Longrightarrow> p \<noteq> BEnded \<Longrightarrow> lines_ok p BPost (out @ [Before 2])"
  unfolding lines_ok_def by (elim exE conjE, rule_tac x = "bs @ [_]" in exI, force)+

lemma lines_after:
  "lines_ok BAfter q out \<Longrightarrow> lines_ok BEnded q (out @ [After 1])"
  "lines_ok p BAfter out \<Longrightarrow> lines_ok p BEnded (out @ [After 2])"
  unfolding lines_ok_def by (elim exE conjE, rule_tac x = bs in exI, rule_tac x = "as @ [_]" in exI, force)+

lemma lines_between:
  "lines_ok BWait q out = lines_ok BPost q out" "lines_ok BAfter q out = lines_ok BPost q out"
  "lines_ok p BWait out = lines_ok p BPost out" "lines_ok p BAfter out = lines_ok p BPost out"
  by (simp_all add: lines_ok_def)

lemma waited_BEnded: "waited p \<le> 0 \<Longrightarrow> p \<noteq> BEnded"
  by auto

lemma simple1_ok:
  assumes "barrier_ok p q s" "simple1 p s = Some r"
  shows "\<exists>p' s'. r = Inr (p', s') \<and> barrier_ok p' q s' \<and> barrier_left p' < barrier_left p"
  using assms lines_before(1) [of q "barrier_out s"] lines_after(1) [of q "barrier_out s"] waited_BEnded [of q]
  by (cases p) (auto simp: simple1_def barrier_ok_def lines_between split: if_splits)

lemma simple2_ok:
  assumes "barrier_ok p q s" "simple2 q s = Some r"
  shows "\<exists>q' s'. r = Inr (q', s') \<and> barrier_ok p q' s' \<and> barrier_left q' < barrier_left q"
  using assms lines_before(2) [of p "barrier_out s"] lines_after(2) [of p "barrier_out s"] waited_BEnded [of p]
  by (cases q) (auto simp: simple2_def barrier_ok_def lines_between split: if_splits)

lemma barrier_not_stuck:
  assumes "barrier_ok p q s" "\<not> (p = BEnded \<and> q = BEnded)"
  shows "simple1 p s \<noteq> None \<or> simple2 q s \<noteq> None"
  using assms by (cases p; cases q) (auto simp: simple1_def simple2_def barrier_ok_def)

fun barrier_inv :: "barrier_phase list \<Rightarrow> barrier_state \<Rightarrow> bool" where
  "barrier_inv [p, q] s = barrier_ok p q s"
| "barrier_inv _ s = False"

lemma barrier_invE:
  assumes "barrier_inv ps s"
  obtains p q where "ps = [p, q]" "barrier_ok p q s"
  using assms by (cases "(ps, s)" rule: barrier_inv.cases) auto

interpretation barrier: thread_program barrier_thread barrier_inv barrier_left "\<lambda>p. p = BEnded"
proof
  fix ps s t r
  assume inv: "barrier_inv ps s" and t: "t < length ps" and step: "barrier_thread t (ps ! t) s = Some r"
  from inv obtain p q where ps: "ps = [p, q]" "barrier_ok p q s" by (rule barrier_invE)
  with t consider "t = 0" | "t = 1" by fastforce
  then show "\<exists>p s'. r = Inr (p, s') \<and> barrier_inv (ps[t := p]) s' \<and> barrier_left p < barrier_left (ps ! t)"
    using ps step simple1_ok [OF ps(2), of r] simple2_ok [OF ps(2), of r]
    by cases (auto simp: barrier_thread_def)
next
  fix ps s u
  assume inv: "barrier_inv ps s" and u: "u < length ps" "ps ! u \<noteq> BEnded"
  from inv obtain p q where ps: "ps = [p, q]" "barrier_ok p q s" by (rule barrier_invE)
  with u have "\<not> (p = BEnded \<and> q = BEnded)" by (cases u) auto
  from barrier_not_stuck [OF ps(2) this] ps(1)
  show "\<exists>t < length ps. barrier_thread t (ps ! t) s \<noteq> None" by (auto simp: Ex_less_Suc2 barrier_thread_def)
qed

text \<open>C28:
  Under every schedule both threads of the barrier get through, in at most eight steps, and at every
  time all lines printed before the barrier precede all lines printed after it; a line after the
  barrier is only printed when both threads have arrived.
\<close>

theorem barrier_separates:
  "always_ends barrier_thread (\<lambda>p. p = BEnded) 8
     (\<lambda>s. \<exists>bs as. barrier_out s = map Before bs @ map After as \<and>
        distinct bs \<and> set bs = {1, 2} \<and> distinct as \<and> set as = {1, 2}) barrier_start \<and>
   (\<forall>ps s. reaches barrier_thread barrier_start (ps, s) \<longrightarrow>
      (\<exists>bs as. barrier_out s = map Before bs @ map After as \<and> (as \<noteq> [] \<longrightarrow> set bs = {1, 2})))"
proof (intro conjI allI impI)
  have st: "barrier_start = ([BBefore, BBefore], \<lparr>semA = 0, semB = 0, barrier_out = []\<rparr>)"
    by (simp add: barrier_start_def NUM_THREADS_def numeral_2_eq_2)
  have start: "barrier_inv [BBefore, BBefore] \<lparr>semA = 0, semB = 0, barrier_out = []\<rparr>"
    by (simp add: barrier_ok_def lines_ok_def)
  show "always_ends barrier_thread (\<lambda>p. p = BEnded) 8
     (\<lambda>s. \<exists>bs as. barrier_out s = map Before bs @ map After as \<and>
        distinct bs \<and> set bs = {1, 2} \<and> distinct as \<and> set as = {1, 2}) barrier_start"
    unfolding st
  proof (rule barrier.ends_always [OF start])
    show "barrier.total_work [BBefore, BBefore] \<le> 8" by (simp add: barrier.total_work_def)
    fix ps :: "barrier_phase list" and s :: barrier_state
    assume "\<forall>p \<in> set ps. p = BEnded" and "barrier_inv ps s"
    then have "lines_ok BEnded BEnded (barrier_out s)"
      by (elim barrier_invE) (simp add: barrier_ok_def)
    then show "\<exists>bs as. barrier_out s = map Before bs @ map After as \<and>
        distinct bs \<and> set bs = {1, 2} \<and> distinct as \<and> set as = {1, 2}"
      unfolding lines_ok_def by (auto simp: insert_commute)
  qed
  fix ps s
  assume "reaches barrier_thread barrier_start (ps, s)"
  then obtain ts where "run_threads barrier_thread ts ([BBefore, BBefore],
      \<lparr>semA = 0, semB = 0, barrier_out = []\<rparr>) = Some (Inr (ps, s))" by (auto simp: reaches_def st)
  from barrier.run_keeps [OF start this] have "barrier_inv ps s" by auto
  then obtain p q where ok: "barrier_ok p q s" by (rule barrier_invE)
  then obtain bs as where bs: "barrier_out s = map Before bs @ map After as"
    "set bs = (if arrived p then {1} else {}) \<union> (if arrived q then {2} else {})"
    "set as = (if p = BEnded then {1} else {}) \<union> (if q = BEnded then {2} else {})"
    by (auto simp: barrier_ok_def lines_ok_def)
  have "arrived p \<and> arrived q" if "p = BEnded \<or> q = BEnded"
    using ok that by (cases p; cases q) (auto simp: barrier_ok_def)
  with bs show "\<exists>bs as. barrier_out s = map Before bs @ map After as \<and> (as \<noteq> [] \<longrightarrow> set bs = {1, 2})"
    by (intro exI [of _ bs] exI [of _ as]) (cases "p = BEnded"; cases "q = BEnded"; simp add: insert_commute)
qed

theorem barrier_separates_witness:
  "\<exists>ps s. run_threads barrier_thread [1, 0, 0, 1, 1, 0, 0, 1] barrier_start = Some (Inr (ps, s)) \<and>
     ps = [BEnded, BEnded] \<and>
     barrier_main_out s = ''Thread 2 here, before the barrier.'' @ [newline] @
       ''Thread 1 here, before the barrier.'' @ [newline] @ ''Thread 1 after the barrier.'' @ [newline] @
       ''Thread 2 after the barrier.'' @ [newline] @
       newline # ''main() reporting that all 2 threads have terminated'' @ [newline] \<and>
     (\<exists>bs as. barrier_out s = map Before bs @ map After as \<and> (as \<noteq> [] \<longrightarrow> set bs = {1, 2}))"
proof -
  let ?s = "\<lparr>semA = 0, semB = 0, barrier_out = [Before 2, Before 1, After 1, After 2]\<rparr>"
  have run: "run_threads barrier_thread [1, 0, 0, 1, 1, 0, 0, 1] barrier_start = Some (Inr ([BEnded, BEnded], ?s))"
    by code_simp
  then have "reaches barrier_thread barrier_start ([BEnded, BEnded], ?s)" unfolding reaches_def by blast
  moreover have "barrier_main_out ?s = ''Thread 2 here, before the barrier.'' @ [newline] @
       ''Thread 1 here, before the barrier.'' @ [newline] @ ''Thread 1 after the barrier.'' @ [newline] @
       ''Thread 2 after the barrier.'' @ [newline] @
       newline # ''main() reporting that all 2 threads have terminated'' @ [newline]" by code_simp
  ultimately show ?thesis using run barrier_separates by blast
qed

end
