(* ===== verification/Socket_Samples.thy ===== *)
theory Socket_Samples
  imports Thread_Programs "HOL-Library.Word"
begin

text \<open>
  The three pairs of clients and servers under \<open>workshop/sample_code/sockets\<close>. A connection is a
  queue of bytes in each direction, and a \<open>read\<close> takes some of the bytes that have arrived: how
  many is decided by the network, a parameter. Client and server of \<open>TCP1\<close> run interleaved;
  the server of \<open>TCP2\<close> gets the pieces its calls of \<open>recv\<close> return, and the server of \<open>UDP\<close> the
  datagrams that arrive.
\<close>

section \<open>Setting up\<close>

text \<open>
  Ports are 16 bits wide, as \<open>htons\<close> makes them. The calls before the exchange and the
  status a program exits with when one fails.
\<close>

datatype socket_call =
    Gethostbyname string
  | Socket
  | Connect string "16 word"
  | Bind "16 word"
  | Listen
  | Accept

definition calls_or_exit :: "int \<Rightarrow> (socket_call \<Rightarrow> bool) \<Rightarrow> socket_call list \<Rightarrow> unit res" where
  "calls_or_exit status works cs = (if list_all works cs then Inr () else Inl (Exit status))"

definition port_of :: "string \<Rightarrow> (16 word) res" where
  "port_of arg = res_bind (atoi arg) (\<lambda>portno. Inr (word_of_int portno))"

text \<open>\<open>fgets (buffer, limit, stdin)\<close> into a buffer that is all zero, and the string it holds.\<close>

definition fgets_zeroed :: "nat \<Rightarrow> nat \<Rightarrow> string \<Rightarrow> string" where
  "fgets_zeroed len limit stdin =
     (case fgets limit stdin of
        None \<Rightarrow> replicate len NUL
      | Some (line, rest) \<Rightarrow> line @ replicate (len - length line) NUL)"

section \<open>One message and one answer (TCP1)\<close>

definition tcp1_client_main :: "(socket_call \<Rightarrow> bool) \<Rightarrow> string list \<Rightarrow> (16 word) res" where
  "tcp1_client_main works argv =
     (if length argv < 3 then Inl (Exit 0)
      else res_bind (port_of (argv ! 2)) (\<lambda>port.
        res_bind (calls_or_exit 0 works [Gethostbyname (argv ! 1), Socket, Connect (argv ! 1) port]) (\<lambda>_. Inr port)))"

definition tcp1_server_main :: "(socket_call \<Rightarrow> bool) \<Rightarrow> string list \<Rightarrow> (16 word) res" where
  "tcp1_server_main works argv =
     (if length argv < 2 then Inl (Exit 1)
      else res_bind (calls_or_exit 1 works [Socket]) (\<lambda>_.
        res_bind (port_of (argv ! 1)) (\<lambda>port.
        res_bind (calls_or_exit 1 works [Bind port, Accept]) (\<lambda>_. Inr port))))"

text \<open>
  Where the two programs are: the client about to write its line or to read the answer, the
  server about to read or to answer, or ended with an exit status. The shared state is the two
  queues and what each program has printed.
\<close>

datatype tcp1_phase = ClientWrite string | ClientRead | ServerRead | ServerWrite | TcpEnd int

record tcp1_state =
  to_server :: string
  to_client :: string
  server_out :: string
  client_out :: string

text \<open>
  The network: how many bytes \<open>write\<close> takes and \<open>read\<close> gives (at least one of those that are
  there); \<open>None\<close> is a failure, \<open>-1\<close> in C.
\<close>

record network =
  writes :: "string \<Rightarrow> nat option"
  reads :: "string \<Rightarrow> nat option"

text \<open>A \<open>read\<close> of at most \<open>k\<close> bytes from a queue: blocked while there is none.\<close>

definition read_queue :: "network \<Rightarrow> nat \<Rightarrow> string \<Rightarrow> (string \<times> string) option option" where
  "read_queue net k q =
     (if q = [] then None
      else Some (map_option (\<lambda>n. (take (min k n) q, drop (min k n) q)) (reads net q)))"

definition write_queue :: "network \<Rightarrow> string \<Rightarrow> string \<Rightarrow> string option" where
  "write_queue net msg q = map_option (\<lambda>n. q @ take n msg) (writes net msg)"

text \<open>The client writes the line that is typed, and reads and prints the answer.\<close>

definition tcp1_client_write :: "network \<Rightarrow> string \<Rightarrow> tcp1_state \<Rightarrow> (tcp1_phase \<times> tcp1_state) res option" where [simp]:
  "tcp1_client_write net stdin s =
     (let buffer = fgets_zeroed 256 255 stdin in
      case write_queue net (c_string buffer) (to_server s) of
        None \<Rightarrow> Some (Inr (TcpEnd 0, s\<lparr>client_out := client_out s @ ''Please enter the message: ''\<rparr>))
      | Some q \<Rightarrow> Some (Inr (ClientRead,
          s\<lparr>to_server := q, client_out := client_out s @ ''Please enter the message: ''\<rparr>)))"

definition tcp1_client_read :: "network \<Rightarrow> tcp1_state \<Rightarrow> (tcp1_phase \<times> tcp1_state) res option" where [simp]:
  "tcp1_client_read net s =
     (case read_queue net 255 (to_client s) of
        None \<Rightarrow> None
      | Some None \<Rightarrow> Some (Inr (TcpEnd 0, s))
      | Some (Some (bytes, q)) \<Rightarrow> Some (Inr (TcpEnd 0, s\<lparr>to_client := q,
          client_out := client_out s @ c_string (bytes @ replicate (256 - length bytes) NUL) @ [newline]\<rparr>)))"

text \<open>The server reads and prints a message, and answers it.\<close>

definition tcp1_server_read :: "network \<Rightarrow> tcp1_state \<Rightarrow> (tcp1_phase \<times> tcp1_state) res option" where [simp]:
  "tcp1_server_read net s =
     (case read_queue net 255 (to_server s) of
        None \<Rightarrow> None
      | Some None \<Rightarrow> Some (Inr (TcpEnd 1, s))
      | Some (Some (bytes, q)) \<Rightarrow> Some (Inr (ServerWrite, s\<lparr>to_server := q,
          server_out := server_out s @ ''Here is the message: '' @
            c_string (bytes @ replicate (256 - length bytes) NUL) @ [newline]\<rparr>)))"

definition tcp1_server_write :: "network \<Rightarrow> tcp1_state \<Rightarrow> (tcp1_phase \<times> tcp1_state) res option" where [simp]:
  "tcp1_server_write net s =
     (case write_queue net ''I got your message'' (to_client s) of
        None \<Rightarrow> Some (Inr (TcpEnd 1, s))
      | Some q \<Rightarrow> Some (Inr (TcpEnd 0, s\<lparr>to_client := q\<rparr>)))"

fun tcp1_step :: "network \<Rightarrow> (tcp1_phase, tcp1_state) thread" where
  "tcp1_step net t (ClientWrite stdin) s = tcp1_client_write net stdin s"
| "tcp1_step net t ClientRead s = tcp1_client_read net s"
| "tcp1_step net t ServerRead s = tcp1_server_read net s"
| "tcp1_step net t ServerWrite s = tcp1_server_write net s"
| "tcp1_step net t (TcpEnd status) s = None"

definition tcp1_start :: "string \<Rightarrow> tcp1_phase list \<times> tcp1_state" where
  "tcp1_start stdin = ([ClientWrite stdin, ServerRead],
     \<lparr>to_server = [], to_client = [], server_out = [], client_out = []\<rparr>)"

section \<open>A stream of lines (TCP2)\<close>

definition tcp2_client_main :: "(socket_call \<Rightarrow> bool) \<Rightarrow> string list \<Rightarrow> (16 word) res" where
  "tcp2_client_main works argv =
     (if length argv = 3
      then res_bind (port_of (argv ! 2)) (\<lambda>port.
        res_bind (calls_or_exit 1 works [Gethostbyname (argv ! 1), Socket, Connect (argv ! 1) port]) (\<lambda>_. Inr port))
      else Inl (Exit 1))"




definition tcp2_server_main :: "(socket_call \<Rightarrow> bool) \<Rightarrow> string list \<Rightarrow> (16 word) res" where
  "tcp2_server_main works argv =
     (if length argv = 2
      then res_bind (port_of (argv ! 1)) (\<lambda>port.
        res_bind (calls_or_exit 1 works [Socket, Bind port, Listen]) (\<lambda>_. Inr port))
      else Inl (Exit 1))"

text \<open>
  What \<open>recv\<close> returns: some bytes, or \<open>-1\<close>. The list of results of a connection ends when the
  peer has closed it. \<open>printf\<close> prints \<open>msg\<close> up to a null byte, whatever \<open>recv\<close> stored.
\<close>

datatype recv_result = Received string | Recv_failed






section \<open>Datagrams (UDP)\<close>

definition udp_client_main :: "(socket_call \<Rightarrow> bool) \<Rightarrow> string list \<Rightarrow> (16 word) res" where
  "udp_client_main works argv =
     (if length argv \<noteq> 3 then Inl (Exit 1)
      else res_bind (calls_or_exit 0 works [Socket, Gethostbyname (argv ! 1)]) (\<lambda>_. port_of (argv ! 2)))"

definition udp_server_main :: "(socket_call \<Rightarrow> bool) \<Rightarrow> string list \<Rightarrow> (16 word) res" where
  "udp_server_main works argv =
     (if length argv < 2 then Inl (Exit 0)
      else res_bind (calls_or_exit 0 works [Socket]) (\<lambda>_.
        res_bind (port_of (argv ! 1)) (\<lambda>port.
        res_bind (calls_or_exit 0 works [Bind port]) (\<lambda>_. Inr port))))"

text \<open>\<open>recvfrom\<close> of at most \<open>n\<close> bytes: the rest of the datagram is lost.\<close>

definition recvfrom :: "nat \<Rightarrow> string \<Rightarrow> string" where
  "recvfrom n datagram = take n datagram"

definition udp_client_datagram :: "string \<Rightarrow> string" where
  "udp_client_datagram stdin = c_string (fgets_zeroed 256 255 stdin)"

text \<open>What the client shows on a terminal, with the datagram it gets back; \<open>None\<close> is a failed \<open>recvfrom\<close>.\<close>

definition udp_client_out :: "string option \<Rightarrow> string \<times> int" where
  "udp_client_out answer =
     (case answer of
        None \<Rightarrow> (''Please enter the message: '', 0)
      | Some d \<Rightarrow> (''Please enter the message: '' @ ''Got an ack: '' @ recvfrom 256 d, 0))"

text \<open>
  The loop of the server over the datagrams that arrive (\<open>None\<close>: \<open>recvfrom\<close> fails), with
  the answers it sends; \<open>sends\<close> tells whether \<open>sendto\<close> works. It ends only by \<open>exit\<close>.
\<close>

fun udp_server_loop :: "(nat \<Rightarrow> bool) \<Rightarrow> nat \<Rightarrow> string option list \<Rightarrow> string \<times> string list \<times> int option" where
  "udp_server_loop sends k [] = ([], [], None)"
| "udp_server_loop sends k (None # ds) = ([], [], Some 0)"
| "udp_server_loop sends k (Some d # ds) =
     (let out = ''Received a datagram: '' @ recvfrom 1024 d in
      if sends k
      then case udp_server_loop sends (k + 1) ds of
             (outs, answers, status) \<Rightarrow> (out @ outs, (''Got your message'' @ [newline]) # answers, status)
      else (out, [], Some 0))"

section \<open>Buffers\<close>

lemma c_string_zeros [simp]: "c_string (w @ replicate n NUL) = c_string w"
  by (cases n) (simp_all add: c_string_def takeWhile_tail)

lemma c_string_no_NUL: "NUL \<notin> set w \<Longrightarrow> c_string w = w"
  by (auto simp: c_string_def takeWhile_eq_all_conv)

lemma c_string_set: "NUL \<notin> set (c_string w)"
  by (auto simp: c_string_def dest: set_takeWhileD)

lemma read_line_bound: "length (fst (read_line n fp)) \<le> n"
  by (induction n fp rule: read_line.induct) (auto split: prod.splits)

lemma read_line_Nil [simp]: "read_line n [] = ([], [])"
  by (cases n) simp_all

text \<open>The message a client of \<open>TCP1\<close> or \<open>UDP\<close> sends: the first line, cut at 254 bytes or a null byte.\<close>

definition typed :: "string \<Rightarrow> string" where
  "typed stdin = c_string (fst (read_line 254 stdin))"

lemma typed_buffer: "c_string (fgets_zeroed 256 255 stdin) = typed stdin"
  by (cases stdin) (auto simp: fgets_zeroed_def fgets_def typed_def c_string_zeros [of "[]", simplified] split: prod.splits)

lemma typed_Nil [simp]: "typed [] = []"
  by (simp add: typed_def c_string_def)

lemma length_typed: "length (typed stdin) \<le> 254"
  unfolding typed_def c_string_def
  using length_takeWhile_le read_line_bound [of 254 stdin] le_trans by blast

lemma typed_no_NUL: "NUL \<notin> set (typed stdin)"
  by (simp add: typed_def c_string_set)

lemma typed_line:
  "NUL \<notin> set line \<Longrightarrow> newline \<notin> set line \<Longrightarrow> length line < 254 \<Longrightarrow> typed (line @ newline # rest) = line @ [newline]"
proof -
  assume a: "NUL \<notin> set line" "newline \<notin> set line" "length line < 254"
  then have "NUL \<notin> set (line @ [newline])" by (simp add: NUL_def newline_def)
  with read_line_whole [OF a(2,3), of rest] show ?thesis by (simp add: typed_def c_string_no_NUL)
qed

section \<open>One message and one answer\<close>

text \<open>What \<open>read\<close> and \<open>write\<close> promise on a working connection: they move at least one byte.\<close>

definition delivers :: "network \<Rightarrow> bool" where
  "delivers net \<longleftrightarrow> (\<forall>q. \<exists>n. writes net q = Some n \<and> (q \<noteq> [] \<longrightarrow> 1 \<le> n)) \<and>
     (\<forall>q. q \<noteq> [] \<longrightarrow> (\<exists>n. reads net q = Some n \<and> 1 \<le> n))"

definition part_of :: "string \<Rightarrow> string \<Rightarrow> bool" where
  "part_of w msg \<longleftrightarrow> w \<noteq> [] \<and> (\<exists>n. w = take n msg)"

lemma write_queue_part:
  assumes "delivers net" "msg \<noteq> []"
  obtains w where "write_queue net msg [] = Some w" "part_of w msg"
proof -
  from assms obtain n where "writes net msg = Some n" "1 \<le> n" by (auto simp: delivers_def)
  with assms(2) that [of "take n msg"] show thesis by (auto simp: write_queue_def part_of_def)
qed

lemma read_queue_part:
  assumes "delivers net" "part_of q msg" "0 < k"
  obtains w q' where "read_queue net k q = Some (Some (w, q'))" "part_of w msg"
proof -
  from assms obtain n where "reads net q = Some n" "1 \<le> n" by (auto simp: delivers_def part_of_def)
  moreover have "part_of (take (min k n) q) msg"
    using assms(2,3) \<open>1 \<le> n\<close> by (auto simp: part_of_def)
  ultimately show thesis
    using assms(2) that [of "take (min k n) q"] by (auto simp: read_queue_def part_of_def)
qed

lemma part_of_no_NUL: "part_of w msg \<Longrightarrow> NUL \<notin> set msg \<Longrightarrow> c_string (w @ replicate n NUL) = w"
  by (auto simp: part_of_def intro!: c_string_no_NUL dest: in_set_takeD)

definition answer :: string where
  "answer = ''I got your message''"

lemma answer_no_NUL: "NUL \<notin> set answer" "answer \<noteq> []"
  by (simp_all add: answer_def NUL_def)

definition served :: "string \<Rightarrow> tcp1_state \<Rightarrow> bool" where
  "served msg s \<longleftrightarrow> (\<exists>w. part_of w msg \<and> server_out s = ''Here is the message: '' @ w @ [newline])"

definition answered :: "tcp1_state \<Rightarrow> bool" where
  "answered s \<longleftrightarrow> (\<exists>w. part_of w answer \<and> client_out s = ''Please enter the message: '' @ w @ [newline])"

abbreviation asked :: "tcp1_state \<Rightarrow> bool" where
  "asked s \<equiv> client_out s = ''Please enter the message: ''"

text \<open>The configurations of the two programs, in their order.\<close>

definition tcp1_inv :: "string \<Rightarrow> tcp1_phase list \<Rightarrow> tcp1_state \<Rightarrow> bool" where
  "tcp1_inv stdin ps s \<longleftrightarrow> typed stdin \<noteq> [] \<and>
     (ps = [ClientWrite stdin, ServerRead] \<and> to_server s = [] \<and> to_client s = [] \<and> server_out s = [] \<and> client_out s = [] \<or>
      ps = [ClientRead, ServerRead] \<and> part_of (to_server s) (typed stdin) \<and> to_client s = [] \<and> server_out s = [] \<and> asked s \<or>
      ps = [ClientRead, ServerWrite] \<and> to_client s = [] \<and> served (typed stdin) s \<and> asked s \<or>
      ps = [ClientRead, TcpEnd 0] \<and> part_of (to_client s) answer \<and> served (typed stdin) s \<and> asked s \<or>
      ps = [TcpEnd 0, TcpEnd 0] \<and> served (typed stdin) s \<and> answered s)"

fun tcp1_left :: "tcp1_phase \<Rightarrow> nat" where
  "tcp1_left (ClientWrite stdin) = 2" | "tcp1_left ClientRead = 1" | "tcp1_left ServerRead = 2"
| "tcp1_left ServerWrite = 1" | "tcp1_left (TcpEnd status) = 0"

text \<open>At every moment the program whose turn it is can go on, and it keeps the order.\<close>

lemma tcp1_step_keeps:
  assumes net: "delivers net" and inv: "tcp1_inv stdin ps s" and t: "t < length ps"
    and step: "tcp1_step net t (ps ! t) s = Some r"
  shows "\<exists>p s'. r = Inr (p, s') \<and> tcp1_inv stdin (ps[t := p]) s' \<and> tcp1_left p < tcp1_left (ps ! t)"
proof -
  from inv have msg: "typed stdin \<noteq> []" by (simp add: tcp1_inv_def)
  note NUL = typed_no_NUL [of stdin] answer_no_NUL
  from inv consider
      (send) "ps = [ClientWrite stdin, ServerRead]" "to_server s = []" "to_client s = []" "server_out s = []" "client_out s = []"
    | (read) "ps = [ClientRead, ServerRead]" "part_of (to_server s) (typed stdin)" "to_client s = []" "server_out s = []" "asked s"
    | (reply) "ps = [ClientRead, ServerWrite]" "to_client s = []" "served (typed stdin) s" "asked s"
    | (ack) "ps = [ClientRead, TcpEnd 0]" "part_of (to_client s) answer" "served (typed stdin) s" "asked s"
    | (finish) "ps = [TcpEnd 0, TcpEnd 0]"
    by (auto simp: tcp1_inv_def)
  then show ?thesis
  proof cases
    case send
    from write_queue_part [OF net msg] obtain w where
      "write_queue net (typed stdin) [] = Some w" "part_of w (typed stdin)" .
    with send t step msg show ?thesis
      by (auto simp: less_Suc_eq tcp1_inv_def typed_buffer Let_def read_queue_def)
  next
    case read
    from read_queue_part [OF net read(2), of 255] obtain w q where
      w: "read_queue net 255 (to_server s) = Some (Some (w, q))" "part_of w (typed stdin)" by auto
    with read t step msg part_of_no_NUL [OF w(2) NUL(1)] show ?thesis
      by (auto simp: less_Suc_eq tcp1_inv_def read_queue_def [of net 255 "[]"] served_def)
  next
    case reply
    from write_queue_part [OF net answer_no_NUL(2)] obtain w where
      "write_queue net answer [] = Some w" "part_of w answer" .
    with reply t step msg show ?thesis
      by (auto simp: less_Suc_eq tcp1_inv_def served_def read_queue_def answer_def)
  next
    case ack
    from read_queue_part [OF net ack(2), of 255] obtain w q where
      w: "read_queue net 255 (to_client s) = Some (Some (w, q))" "part_of w answer" by auto
    with ack t step msg part_of_no_NUL [OF w(2) NUL(2)] show ?thesis
      by (auto simp: less_Suc_eq tcp1_inv_def served_def answered_def)
  next
    case finish
    with t step show ?thesis by (auto simp: less_Suc_eq)
  qed
qed

lemma tcp1_not_stuck:
  assumes net: "delivers net" and inv: "tcp1_inv stdin ps s" and u: "u < length ps" "ps ! u \<noteq> TcpEnd 0"
  shows "\<exists>t < length ps. tcp1_step net t (ps ! t) s \<noteq> None"
proof -
  have r: "read_queue net 255 q \<noteq> None" if "part_of q m" for q m
    using that by (simp add: read_queue_def part_of_def)
  have len: "length ps = 2" using inv by (auto simp: tcp1_inv_def)
  with u have "ps \<noteq> [TcpEnd 0, TcpEnd 0]" by (auto simp: numeral_2_eq_2 less_Suc_eq)
  with inv have "tcp1_step net 0 (ps ! 0) s \<noteq> None \<or> tcp1_step net 1 (ps ! 1) s \<noteq> None"
    by (auto simp: tcp1_inv_def Let_def split: option.splits dest!: r)
  with len show ?thesis by (auto simp: numeral_2_eq_2 Ex_less_Suc2)
qed

interpretation tcp1: thread_program "tcp1_step net" "\<lambda>ps s. delivers net \<and> tcp1_inv stdin ps s"
  tcp1_left "\<lambda>p. p = TcpEnd 0" for net stdin
  by unfold_locales (use tcp1_step_keeps tcp1_not_stuck in blast)+

text \<open>
  Client and server of \<open>TCP1\<close> on a working connection, when something is typed: under every schedule
  both programs end with status 0, after at most four steps together; the server prints a non-empty
  first part of the line that was typed and the client one of the answer, and the whole texts
  when the network delivers them whole. When nothing is typed at all both programs wait for each other forever.
\<close>

theorem tcp1_exchange:
  assumes net: "delivers net" and msg: "typed stdin \<noteq> []" and eof: "writes net [] = Some 0"
  shows "always_ends (tcp1_step net) (\<lambda>p. p = TcpEnd 0) 4 (\<lambda>s. served (typed stdin) s \<and> answered s) (tcp1_start stdin) \<and>
    ((\<forall>q. writes net q = Some (length q) \<and> reads net q = Some (length q)) \<longrightarrow>
      (\<exists>s. run_threads (tcp1_step net) [0, 1, 1, 0] (tcp1_start stdin) = Some (Inr ([TcpEnd 0, TcpEnd 0], s)) \<and>
         server_out s = ''Here is the message: '' @ typed stdin @ [newline] \<and>
         client_out s = ''Please enter the message: I got your message'' @ [newline])) \<and>
    (\<exists>s. run_threads (tcp1_step net) [0] (tcp1_start []) = Some (Inr ([ClientRead, ServerRead], s)) \<and>
      (\<forall>t. run_threads (tcp1_step net) [t] ([ClientRead, ServerRead], s) = None))"
proof (intro conjI impI)
  let ?s = "\<lparr>to_server = [], to_client = [], server_out = [], client_out = []\<rparr>"
  show "always_ends (tcp1_step net) (\<lambda>p. p = TcpEnd 0) 4 (\<lambda>s. served (typed stdin) s \<and> answered s) (tcp1_start stdin)"
    unfolding tcp1_start_def
  proof (rule tcp1.ends_always [where stdin = stdin])
    show "delivers net \<and> tcp1_inv stdin [ClientWrite stdin, ServerRead] ?s"
      using net msg by (simp add: tcp1_inv_def)
    show "tcp1.total_work [ClientWrite stdin, ServerRead] \<le> 4" by (simp add: tcp1.total_work_def)
    fix ps s
    assume "delivers net \<and> tcp1_inv stdin ps s" and "\<forall>p \<in> set ps. p = TcpEnd 0"
    then show "served (typed stdin) s \<and> answered s" by (auto simp: tcp1_inv_def)
  qed
next
  assume full: "\<forall>q. writes net q = Some (length q) \<and> reads net q = Some (length q)"
  have "c_string (typed stdin @ replicate n NUL) = typed stdin" for n
    by (simp add: c_string_no_NUL typed_no_NUL)
  moreover have "c_string ''I got your message'' = ''I got your message''"
    using c_string_no_NUL [OF answer_no_NUL(1)] by (simp only: answer_def)
  ultimately show "\<exists>s. run_threads (tcp1_step net) [0, 1, 1, 0] (tcp1_start stdin) = Some (Inr ([TcpEnd 0, TcpEnd 0], s)) \<and>
         server_out s = ''Here is the message: '' @ typed stdin @ [newline] \<and>
         client_out s = ''Please enter the message: I got your message'' @ [newline]"
    using full msg length_typed [of stdin]
    by (simp add: tcp1_start_def typed_buffer Let_def write_queue_def read_queue_def)
next
  from eof show "\<exists>s. run_threads (tcp1_step net) [0] (tcp1_start []) = Some (Inr ([ClientRead, ServerRead], s)) \<and>
      (\<forall>t. run_threads (tcp1_step net) [t] ([ClientRead, ServerRead], s) = None)"
    by (auto simp: tcp1_start_def typed_buffer Let_def write_queue_def read_queue_def less_Suc_eq)
qed

theorem tcp1_exchange_witness:
  "\<exists>s. run_threads (tcp1_step \<lparr>writes = \<lambda>q. Some (length q), reads = \<lambda>q. Some (length q)\<rparr>) [0, 1, 1, 0]
       (tcp1_start (''hi'' @ [newline])) = Some (Inr ([TcpEnd 0, TcpEnd 0], s)) \<and>
     server_out s = ''Here is the message: hi'' @ [newline, newline] \<and>
     client_out s = ''Please enter the message: I got your message'' @ [newline]"
proof -
  let ?net = "\<lparr>writes = \<lambda>q. Some (length q), reads = \<lambda>q. Some (length q)\<rparr>"
  have net: "delivers ?net" by (simp add: delivers_def Suc_le_eq)
  have msg: "typed (''hi'' @ [newline]) = ''hi'' @ [newline]"
    using typed_line [of "''hi''" "[]"] by (simp add: NUL_def newline_def)
  from tcp1_exchange [OF net, of "''hi'' @ [newline]"] show ?thesis unfolding msg by simp
qed

section \<open>A stream of lines\<close>







section \<open>Datagrams\<close>

text \<open>
  The datagrams of some \<open>UDP\<close> clients that arrive at the server are all printed, in this order and unchanged,
  and answered, as long as sending works; a client that gets the answer prints it whole. A client that
  types nothing sends an empty datagram, which is answered too.
\<close>

theorem udp_exchange:
  assumes "\<forall>k. sends k"
  shows "udp_server_loop sends 0 (map (\<lambda>stdin. Some (udp_client_datagram stdin)) clients) =
      (concat (map (\<lambda>stdin. ''Received a datagram: '' @ typed stdin) clients),
       replicate (length clients) (''Got your message'' @ [newline]), None) \<and>
    udp_client_out (Some (''Got your message'' @ [newline])) =
      (''Please enter the message: Got an ack: Got your message'' @ [newline], 0) \<and>
    udp_client_datagram [] = []"
proof (intro conjI)
  have "recvfrom 1024 (udp_client_datagram stdin) = typed stdin" for stdin
    using length_typed [of stdin] by (simp add: recvfrom_def udp_client_datagram_def typed_buffer)
  then have "udp_server_loop sends k (map (\<lambda>stdin. Some (udp_client_datagram stdin)) clients) =
      (concat (map (\<lambda>stdin. ''Received a datagram: '' @ typed stdin) clients),
       replicate (length clients) (''Got your message'' @ [newline]), None)" for k
    using assms by (induction clients arbitrary: k) (simp_all add: Let_def)
  then show "udp_server_loop sends 0 (map (\<lambda>stdin. Some (udp_client_datagram stdin)) clients) =
      (concat (map (\<lambda>stdin. ''Received a datagram: '' @ typed stdin) clients),
       replicate (length clients) (''Got your message'' @ [newline]), None)" .
  show "udp_client_out (Some (''Got your message'' @ [newline])) =
      (''Please enter the message: Got an ack: Got your message'' @ [newline], 0)"
    by (simp add: udp_client_out_def recvfrom_def)
  show "udp_client_datagram [] = []"
    by (simp add: udp_client_datagram_def typed_buffer)
qed

theorem udp_exchange_witness:
  "udp_server_loop (\<lambda>_. True) 0 [Some (udp_client_datagram (''hi'' @ [newline])), Some (udp_client_datagram [])] =
     (''Received a datagram: hi'' @ [newline] @ ''Received a datagram: '',
      [''Got your message'' @ [newline], ''Got your message'' @ [newline]], None)"
proof -
  have msg: "typed (''hi'' @ [newline]) = ''hi'' @ [newline]"
    using typed_line [of "''hi''" "[]"] by (simp add: NUL_def newline_def)
  from conjunct1 [OF udp_exchange [of "\<lambda>_. True" "[''hi'' @ [newline], []]"]] msg show ?thesis
    by (simp del: udp_server_loop.simps)
qed

text \<open>
  Ports are taken modulo 65536: different numbers can name the same port.
\<close>

lemma port_of_wraps:
  assumes "0 \<le> p" "p + 65536 \<le> INT_MAX"
  shows "port_of (show_int (p + 65536)) = port_of (show_int p)"
proof -
  have "atoi (show_int p) = Inr p" "atoi (show_int (p + 65536)) = Inr (p + 65536)"
    using atoi_show_int [of "[]" p] atoi_show_int [of "[]" "p + 65536"] assms by (simp_all add: int_rangeI)
  moreover have "(word_of_int (p + 65536) :: 16 word) = word_of_int p"
    by (simp add: word_of_int_eq_iff take_bit_eq_mod)
  ultimately show ?thesis by (simp add: port_of_def)
qed

end
