(* ===== verification/File_Samples.thy ===== *)
theory File_Samples
  imports C_Library "HOL-Library.Word"
begin

text \<open>
  The programs that use files: \<open>workshop/sample_code/filesystems/example-file.c\<close> and
  \<open>basicio.c\<close>, and \<open>workshop/my-stat.c\<close>. The operating system is a parameter: a function from a
  call and a state to the value the call returns and the next state. What POSIX promises
  about the names in a directory is written down as one such function.
\<close>

section \<open>System calls\<close>

datatype fs_call =
    Mkdir string int
  | Chmod string int
  | Chdir string
  | Open string int
  | Write int string
  | Close int
  | Symlink string string
  | Link string string
  | Unlink string
  | Remove string
  | Rmdir string
  | Printf string
  | Getchar

type_synonym 'fs os = "fs_call \<Rightarrow> 'fs \<Rightarrow> int \<times> 'fs"





text \<open>The permission bits.\<close>

definition S_IRWXU :: int where "S_IRWXU = 448"

section \<open>Creating and removing names (example-file.c)\<close>



section \<open>Writing a file (basicio.c)\<close>

definition basicio_main :: "'fs os \<Rightarrow> 'fs \<Rightarrow> (int \<times> 'fs) res" where
  "basicio_main os fs =
     (case os (Open ''./file.txt'' S_IRWXU) fs of (fd, fs1) \<Rightarrow>
      if fd < 0 then Inl AssertFail
      else res_bind (write_block (replicate 20 NUL) 0 (''I love C'' @ [newline, NUL])) (\<lambda>buffer.
        case os (Write fd (c_string buffer)) fs1 of (rc, fs2) \<Rightarrow>
        if rc \<noteq> int (length (c_string buffer)) then Inl AssertFail
        else Inr (0, snd (os (Close fd) (snd (os (Printf (''wrote '' @ show_int rc @ '' bytes'' @ [newline])) fs2))))))"

section \<open>The status of a file (my-stat.c)\<close>

record stat_buf =
  st_ino :: int
  st_size :: int
  st_blocks :: int
  st_nlink :: int
  st_uid :: int
  st_gid :: int
  st_atime :: int
  st_mtime :: int
  st_ctime :: int

text \<open>
  The fields are 64 bits wide but are printed with \<open>%d\<close>: the lower 32 bits are taken as a signed
  number.
\<close>

definition show_field :: "int \<Rightarrow> string" where
  "show_field x = show_int (sint (word_of_int x :: 32 word))"

definition stat_lines :: "stat_buf \<Rightarrow> string" where
  "stat_lines b =
     ''          Inode number: '' @ show_field (st_ino b) @ [newline] @
     ''             File size: '' @ show_field (st_size b) @ '' bytes'' @ [newline] @
     ''      Blocks allocated: '' @ show_field (st_blocks b) @ '' blocks'' @ [newline] @
     ''Reference (link) count: '' @ show_field (st_nlink b) @ [newline] @
     ''               User ID: '' @ show_field (st_uid b) @ [newline] @
     ''              Group ID: '' @ show_field (st_gid b) @ [newline] @
     ''      Last access time: '' @ show_field (st_atime b) @ [newline] @
     ''Last modification time: '' @ show_field (st_mtime b) @ [newline] @
     ''    Last status change: '' @ show_field (st_ctime b) @ [newline]"

text \<open>\<open>stat\<close> is a parameter. When it fails \<open>main\<close> reports it and prints \<open>buf\<close>, which was never written.\<close>

definition my_stat_main :: "(string \<Rightarrow> stat_buf option) \<Rightarrow> string list \<Rightarrow> string res" where
  "my_stat_main stat argv =
     (if length argv \<ge> 2
      then case stat (argv ! 1) of None \<Rightarrow> Inl UninitRead | Some buf \<Rightarrow> Inr (stat_lines buf)
      else Inr [])"

section \<open>What POSIX says about names\<close>








section \<open>What the programs do\<close>







text \<open>
  \<open>basicio.c\<close> fails its assertions exactly when the file cannot be opened or is not written
  completely.
\<close>

lemma basicio_buffer: "write_block (replicate 20 NUL) 0 (''I love C'' @ [newline, NUL]) =
    Inr (''I love C'' @ newline # replicate 11 NUL)"
  by (simp add: write_block_def numeral_eq_Suc)

lemma basicio_outcome:
  assumes "os (Open ''./file.txt'' S_IRWXU) fs = (fd, fs1)" "os (Write fd (''I love C'' @ [newline])) fs1 = (rc, fs2)"
  shows "basicio_main os fs =
    (if 0 \<le> fd \<and> rc = 9
     then Inr (0, snd (os (Close fd) (snd (os (Printf (''wrote 9 bytes'' @ [newline])) fs2)))) else Inl AssertFail)"
proof -
  have "c_string (''I love C'' @ newline # replicate 11 NUL) = ''I love C'' @ [newline]"
    by (simp add: c_string_def NUL_def newline_def)
  moreover have "show_int 9 = ''9''" by code_simp
  ultimately show ?thesis
    using assms basicio_buffer by (auto simp: basicio_main_def)
qed

text \<open>
  \<open>my-stat.c\<close> prints a field as the number it is exactly when it fits an \<open>int\<close>; the size of a file of
  2 GB or more is printed as another number. When \<open>stat\<close> fails the program goes on and prints a structure
  that was never written.
\<close>

theorem my_stat_prints:
  assumes "stat f = Some b"
  shows "my_stat_main stat [prog, f] = Inr (stat_lines b) \<and>
    (show_field x = show_int x \<longleftrightarrow> int_range x) \<and>
    (stat g = None \<longrightarrow> my_stat_main stat [prog, g] = Inl UninitRead)"
proof (intro conjI impI)
  show "my_stat_main stat [prog, f] = Inr (stat_lines b)"
    using assms by (simp add: my_stat_main_def)
  let ?y = "sint (word_of_int x :: 32 word)"
  have y: "int_range ?y"
    using sint_range_size [of "word_of_int x :: 32 word"] by (simp add: int_range_def INT_MAX_def INT_MIN_def word_size)
  show "show_field x = show_int x \<longleftrightarrow> int_range x"
  proof
    assume "show_field x = show_int x"
    then have "atoi (show_int ?y) = atoi (show_int x)" by (simp add: show_field_def)
    then have "c_int ?y = c_int x" using atoi_show_int [of "[]"] by simp
    with y show "int_range x" by (metis c_int_Inr_iff)
  next
    assume "int_range x"
    then have "?y = x"
      by (simp add: int_range_def INT_MAX_def INT_MIN_def sint_sbintrunc' signed_take_bit_int_eq_self_iff)
    then show "show_field x = show_int x" by (simp add: show_field_def)
  qed
  show "my_stat_main stat [prog, g] = Inl UninitRead" if "stat g = None"
    using that by (simp add: my_stat_main_def)
qed

theorem my_stat_prints_witness:
  "my_stat_main (\<lambda>f. None) [''my-stat'', ''a''] = Inl UninitRead \<and> \<not> int_range 2147483648 \<and>
   show_field 2147483648 \<noteq> show_int 2147483648"
proof -
  let ?b = "\<lparr>st_ino = 1, st_size = 0, st_blocks = 0, st_nlink = 1, st_uid = 0, st_gid = 0,
      st_atime = 0, st_mtime = 0, st_ctime = 0\<rparr>"
  from my_stat_prints [of "\<lambda>f. if f = ''b'' then Some ?b else None" "''b''" ?b "''my-stat''" 2147483648 "''a''"]
  show ?thesis by (simp add: int_range_def INT_MAX_def my_stat_main_def)
qed

end
