(* ===== verification/Exercise_Samples.thy ===== *)
theory Exercise_Samples
  imports Thread_Programs
begin

text \<open>
  Small exercises: a login that reads into fixed buffers (\<open>workshop/badbuf/badbuf.c\<close> and its copy
  under \<open>workshop(lab)4\<close>), a null pointer (\<open>workshop(lab)4/buggy.c\<close>), and processes that fork,
  wait, signal, replace themselves and sleep (\<open>workshop/sample_code/processes\<close>). What happens after a write
  outside a buffer is not modelled: it has no meaning in C.
\<close>

section \<open>A login (badbuf.c)\<close>

text \<open>\<open>scanf\<close> with \<open>%s\<close>: the next word and a null byte, without a limit; nothing at the end of the input.\<close>

definition scanf_word :: "char option list \<Rightarrow> string \<Rightarrow> (char option list \<times> string) res" where
  "scanf_word buf stdin =
     (let s = dropWhile isspace stdin; w = takeWhile (\<lambda>c. \<not> isspace c) s in
      if s = [] then Inr (buf, [])
      else res_bind (write_block buf 0 (map Some (w @ [NUL]))) (\<lambda>buf'. Inr (buf', drop (length w) s)))"

fun buffer_strcmp :: "char option list \<Rightarrow> char option list \<Rightarrow> bool res" where
  "buffer_strcmp (Some c # a) (Some d # b) = (if c = d \<and> c \<noteq> NUL then buffer_strcmp a b else Inr (c = d))"
| "buffer_strcmp (None # a) b = Inl UninitRead"
| "buffer_strcmp a (None # b) = Inl UninitRead"
| "buffer_strcmp a b = Inl OutOfBounds"

text \<open>The result is the output and the status of \<open>exit\<close>; \<open>main\<close> returns no value after a welcome.\<close>

definition welcome_msg :: "string \<Rightarrow> string \<times> int option" where
  "welcome_msg str = (str, None)"

definition goodbye :: "string \<Rightarrow> string \<times> int option" where
  "goodbye str = (str, Some 1)"

definition login_main :: "string \<Rightarrow> (string \<times> int option) res" where
  "login_main stdin =
     (let good = ''Welcome to The Machine!'' @ [newline]; evil = ''Invalid identity, exiting!'' @ [newline] in
      res_bind (scanf_word (replicate 128 None) stdin) (\<lambda>(name, stdin1).
      res_bind (scanf_word (replicate 128 None) stdin1) (\<lambda>(pw, stdin2).
      res_bind (buffer_strcmp name pw) (\<lambda>same.
        case (if same then welcome_msg good else goodbye evil) of (out, status) \<Rightarrow>
          Inr (''login: '' @ ''password: '' @ out, status)))))"

section \<open>A null pointer (buggy.c)\<close>

text \<open>The structures that exist, by their address; \<open>NULL\<close> is \<open>None\<close>.\<close>

definition deref :: "(nat \<Rightarrow> 'a option) \<Rightarrow> nat option \<Rightarrow> 'a res" where
  "deref mem ptr =
     (case ptr of None \<Rightarrow> Inl NullDeref
      | Some a \<Rightarrow> (case mem a of None \<Rightarrow> Inl NullDeref | Some v \<Rightarrow> Inr v))"

definition buggy_main :: "(nat \<Rightarrow> int option) \<Rightarrow> string res" where
  "buggy_main mem =
     (let x = 7; d = None in
      res_bind (deref mem d) (\<lambda>v.
        Inr (''x= '' @ show_int x @ [newline] @ ''value = '' @ show_int v @ [newline])))"

section \<open>Processes\<close>

text \<open>
  \<open>execute.c\<close>: the process becomes another program, or goes on when \<open>execlp\<close> fails; whether it
  works is a parameter. The name of the program that \<open>ls\<close> is told misses its first slash.
\<close>

datatype exec_result = Becomes string "string list" | Returns int

definition execute_main :: "(string \<Rightarrow> string list \<Rightarrow> bool) \<Rightarrow> exec_result" where
  "execute_main execlp =
     (if execlp ''/bin/ls'' [''bin/ls'', ''-l''] then Becomes ''/bin/ls'' [''bin/ls'', ''-l''] else Returns 0)"

text \<open>The loop \<open>while (1) sleep(1)\<close>, with the seconds that have passed; \<open>None\<close>: it runs forever.\<close>

partial_function (option) sleep_loop :: "nat \<Rightarrow> int option" where
  "sleep_loop seconds = sleep_loop (seconds + 1)"

text \<open>\<open>helloWorld-pid.c\<close> and \<open>memory.c\<close>: what is printed, and the value that is returned, if any.\<close>

definition hello_pid_main :: "int \<Rightarrow> int \<Rightarrow> string \<times> int option" where
  "hello_pid_main pid ppid =
     (''Hello world'' @ [newline] @ ''PID = '' @ show_int pid @ [newline] @
      ''parent PID = '' @ show_int ppid @ [newline], sleep_loop 0)"

definition memory_main :: "('p \<Rightarrow> string) \<Rightarrow> 'p \<Rightarrow> 'p \<Rightarrow> 'p \<Rightarrow> string \<times> int option" where
  "memory_main show_ptr code heap stack =
     (''location of code = '' @ show_ptr code @ [newline] @ ''location of heap = '' @ show_ptr heap @ [newline] @
      ''location of stack = '' @ show_ptr stack @ [newline] @ ''value of x = '' @ show_int 3 @ [newline], sleep_loop 0)"

text \<open>\<open>fork-1.c\<close>: what parent and child print; the numbers of the processes are parameters.\<close>

definition print_pids :: "string \<Rightarrow> int \<Rightarrow> int \<Rightarrow> string" where
  "print_pids title pid ppid =
     newline # title @ [newline] @ ''PID = '' @ show_int pid @ [newline] @
     ''parent PID = '' @ show_int ppid @ [newline]"

text \<open>One text for each process, and the value the first one returns; \<open>None\<close>: \<open>fork\<close> fails.\<close>

definition fork1_main :: "int \<Rightarrow> int \<Rightarrow> int option \<Rightarrow> string list \<times> int" where
  "fork1_main self ppid fork =
     (case fork of
        None \<Rightarrow> ([''Fork failed'' @ [newline]], 1)
      | Some child \<Rightarrow> ([print_pids ''Parent process'' self ppid, print_pids ''Child process'' child self], 0))"

text \<open>
  \<open>fork-2.c\<close>: the parent waits for the child, which runs \<open>ls\<close>; its output is a parameter. The
  shared state is whether the child has ended and what is on the terminal.
\<close>

datatype fork2_phase = F2Parent | F2Wait | F2Complete | F2Child | F2Ls | F2End

fun fork2_step :: "string \<Rightarrow> (fork2_phase, bool \<times> string) thread" where
  "fork2_step ls t F2Parent (ended, out) = Some (Inr (F2Wait, ended, out @ [newline] @ ''Parent process'' @ [newline]))"
| "fork2_step ls t F2Wait (ended, out) = (if ended then Some (Inr (F2Complete, ended, out)) else None)"
| "fork2_step ls t F2Complete (ended, out) = Some (Inr (F2End, ended, out @ ''Child complete'' @ [newline]))"
| "fork2_step ls t F2Child (ended, out) = Some (Inr (F2Ls, ended, out @ ''Child process'' @ [newline, newline]))"
| "fork2_step ls t F2Ls (ended, out) = Some (Inr (F2End, True, out @ ls))"
| "fork2_step ls t F2End s = None"

definition fork2_main :: "bool \<Rightarrow> ((fork2_phase list \<times> bool \<times> string) + string \<times> int)" where
  "fork2_main forks =
     (if forks then Inl ([F2Parent, F2Child], False, []) else Inr (''Fork failed'' @ [newline], 1))"

text \<open>
  \<open>fork-signal.c\<close>: the child counts until the parent's signal arrives; both install the handler
  after the fork. A signal that comes before the handler is there ends the child at once.
\<close>

datatype signal_phase = SParent | SSleep | SKill | SChild | SCount int | SHandler | SEnd int | SDead

record signal_state =
  sg_pending :: bool
  sg_parent_out :: string
  sg_child_out :: "string list"

fun signal_step :: "(signal_phase, signal_state) thread" where
  "signal_step t SParent s = Some (Inr (SSleep, s))"
| "signal_step t SSleep s = Some (Inr (SKill, s\<lparr>sg_parent_out := sg_parent_out s @ ''Parent waiting...'' @ [newline]\<rparr>))"
| "signal_step t SKill s = Some (Inr (SEnd 0, s\<lparr>sg_pending := True\<rparr>))"
| "signal_step t SChild s =
     (if sg_pending s then Some (Inr (SDead, s\<lparr>sg_pending := False\<rparr>)) else Some (Inr (SCount 0, s)))"
| "signal_step t (SCount i) s =
     (if sg_pending s then Some (Inr (SHandler, s\<lparr>sg_pending := False\<rparr>))
      else Some (res_bind (c_int (i + 1)) (\<lambda>i'.
        Inr (SCount i', s\<lparr>sg_child_out := sg_child_out s @ [show_int i' @ [newline]]\<rparr>))))"
| "signal_step t SHandler s =
     Some (Inr (SEnd 0, s\<lparr>sg_child_out := sg_child_out s @ [newline # ''Time to stop.'' @ [newline]]\<rparr>))"
| "signal_step t (SEnd status) s = None"
| "signal_step t SDead s = None"

definition signal_start :: "signal_phase list \<times> signal_state" where
  "signal_start = ([SParent, SChild], \<lparr>sg_pending = False, sg_parent_out = [], sg_child_out = []\<rparr>)"

definition signal_main :: "bool \<Rightarrow> ((signal_phase list \<times> signal_state) + string \<times> int)" where
  "signal_main forks = (if forks then Inl signal_start else Inr (''Fork failed'' @ [newline], 1))"

section \<open>The login\<close>

lemma buffer_strcmp_strings:
  "NUL \<notin> set a \<Longrightarrow> NUL \<notin> set b \<Longrightarrow>
   buffer_strcmp (map Some (a @ [NUL]) @ r) (map Some (b @ [NUL]) @ r') = Inr (a = b)"
proof (induction a arbitrary: b)
  case Nil
  then show ?case by (cases b) auto
next
  case (Cons c a)
  show ?case
  proof (cases b)
    case Nil
    with Cons.prems show ?thesis by auto
  next
    case (Cons d b')
    with Cons.IH [of b'] Cons.prems show ?thesis by auto
  qed
qed

text \<open>A word: not empty, without white space and null bytes.\<close>

definition word_ok :: "string \<Rightarrow> bool" where
  "word_ok w \<longleftrightarrow> w \<noteq> [] \<and> (\<forall>c \<in> set w. \<not> isspace c \<and> c \<noteq> NUL)"

lemma scanf_word_result:
  assumes "word_ok w" "\<forall>c \<in> set sp. isspace c" "rest = [] \<or> isspace (hd rest)"
  shows "scanf_word (replicate 128 None) (sp @ w @ rest) =
    (if length w < 128 then Inr (map Some (w @ [NUL]) @ replicate (127 - length w) None, rest) else Inl OutOfBounds)"
proof -
  have s: "dropWhile isspace (sp @ w @ rest) = w @ rest"
    using assms by (cases w) (auto simp: dropWhile_append2 word_ok_def)
  have w: "takeWhile (\<lambda>c. \<not> isspace c) (w @ rest) = w"
    using assms by (cases rest) (auto simp: takeWhile_append2 word_ok_def)
  show ?thesis using assms(1) by (simp add: scanf_word_def s w Let_def write_block_def word_ok_def)
qed

lemma scanf_word_end: "\<forall>c \<in> set sp. isspace c \<Longrightarrow> scanf_word buf sp = Inr (buf, [])"
  by (simp add: scanf_word_def Let_def)

text \<open>
  For a name and a password of fewer than 128 characters the login welcomes the user exactly when the
  two are equal, and otherwise exits with status 1. A longer name or password is written
  beyond its buffer, and when one is missing the comparison reads a buffer that was never written.
\<close>

theorem login_decides:
  assumes "word_ok n" "word_ok p" "isspace sp" "rest = [] \<or> isspace (hd rest)"
  shows "login_main (n @ sp # p @ rest) =
      (if length n < 128 \<and> length p < 128
       then Inr (if n = p then (''login: password: Welcome to The Machine!'' @ [newline], None)
                 else (''login: password: Invalid identity, exiting!'' @ [newline], Some 1))
       else Inl OutOfBounds) \<and>
    (length n < 128 \<longrightarrow> login_main n = Inl UninitRead) \<and> login_main [] = Inl UninitRead"
proof (intro conjI impI)
  have NUL: "NUL \<notin> set n" "NUL \<notin> set p" using assms(1,2) by (auto simp: word_ok_def)
  note first = scanf_word_result [OF assms(1), of "[]" "sp # p @ rest"]
  note second = scanf_word_result [OF assms(2), of "[sp]" rest]
  note cmp = buffer_strcmp_strings [OF NUL, of "replicate (127 - length n) None" "replicate (127 - length p) None"]
  show "login_main (n @ sp # p @ rest) =
      (if length n < 128 \<and> length p < 128
       then Inr (if n = p then (''login: password: Welcome to The Machine!'' @ [newline], None)
                 else (''login: password: Invalid identity, exiting!'' @ [newline], Some 1))
       else Inl OutOfBounds)"
    using first second cmp assms(3,4) by (simp add: login_main_def Let_def welcome_msg_def goodbye_def)
  have uninit: "buffer_strcmp a (replicate 128 None) = Inl UninitRead" if "a \<noteq> []" for a
    using that by (cases "hd a"; cases a) (simp_all add: numeral_eq_Suc)
  show "login_main [] = Inl UninitRead"
    using scanf_word_end [of "[]"] uninit by (simp add: login_main_def Let_def)
  assume "length n < 128"
  then show "login_main n = Inl UninitRead"
    using scanf_word_result [OF assms(1), of "[]" "[]"] scanf_word_end [of "[]"] uninit
    by (simp add: login_main_def Let_def)
qed

theorem login_decides_witness:
  "login_main ''eve bob'' = Inr (''login: password: Invalid identity, exiting!'' @ [newline], Some 1) \<and>
   login_main ''eve eve'' = Inr (''login: password: Welcome to The Machine!'' @ [newline], None)"
proof -
  have w: "word_ok ''eve''" "word_ok ''bob''" by code_simp+
  have s: "isspace (CHR '' '')" by code_simp
  from login_decides [OF w(1) w(2) s, of "[]"] login_decides [OF w(1) w(1) s, of "[]"] show ?thesis by simp
qed

lemma buggy_dies: "buggy_main mem = Inl NullDeref"
  by (simp add: buggy_main_def deref_def)

section \<open>Waiting for a child\<close>

definition parent_text :: string where "parent_text = [newline] @ ''Parent process'' @ [newline]"
definition child_text :: string where "child_text = ''Child process'' @ [newline, newline]"
definition complete_text :: string where "complete_text = ''Child complete'' @ [newline]"

definition interleaved :: "string \<Rightarrow> string \<Rightarrow> bool" where
  "interleaved ls out \<longleftrightarrow> out = parent_text @ child_text @ ls \<or> out = child_text @ parent_text @ ls \<or>
     out = child_text @ ls @ parent_text"

fun fork2_inv :: "string \<Rightarrow> fork2_phase list \<Rightarrow> bool \<times> string \<Rightarrow> bool" where
  "fork2_inv ls [p, q] (ended, out) \<longleftrightarrow>
     p = F2Parent \<and> q = F2Child \<and> \<not> ended \<and> out = [] \<or>
     p = F2Parent \<and> q = F2Ls \<and> \<not> ended \<and> out = child_text \<or>
     p = F2Parent \<and> q = F2End \<and> ended \<and> out = child_text @ ls \<or>
     p = F2Wait \<and> q = F2Child \<and> \<not> ended \<and> out = parent_text \<or>
     p = F2Wait \<and> q = F2Ls \<and> \<not> ended \<and> (out = parent_text @ child_text \<or> out = child_text @ parent_text) \<or>
     (p = F2Wait \<or> p = F2Complete) \<and> q = F2End \<and> ended \<and> interleaved ls out \<or>
     p = F2End \<and> q = F2End \<and> ended \<and> (\<exists>out'. interleaved ls out' \<and> out = out' @ complete_text)"
| "fork2_inv ls _ _ \<longleftrightarrow> False"

fun fork2_left :: "fork2_phase \<Rightarrow> nat" where
  "fork2_left F2Parent = 3" | "fork2_left F2Wait = 2" | "fork2_left F2Complete = 1"
| "fork2_left F2Child = 2" | "fork2_left F2Ls = 1" | "fork2_left F2End = 0"

lemma fork2_step_texts:
  "fork2_step ls t F2Parent (ended, out) = Some (Inr (F2Wait, ended, out @ parent_text))"
  "fork2_step ls t F2Complete (ended, out) = Some (Inr (F2End, ended, out @ complete_text))"
  "fork2_step ls t F2Child (ended, out) = Some (Inr (F2Ls, ended, out @ child_text))"
  by (simp_all add: parent_text_def complete_text_def child_text_def)

lemma fork2_invE:
  assumes "fork2_inv ls ps s"
  obtains p q ended out where "ps = [p, q]" "s = (ended, out)" "fork2_inv ls [p, q] (ended, out)"
  using assms by (cases "(ls, ps, s)" rule: fork2_inv.cases) auto

interpretation fork2: thread_program "fork2_step ls" "fork2_inv ls" fork2_left "\<lambda>p. p = F2End" for ls
proof
  fix ps s t r
  assume inv: "fork2_inv ls ps s" and t: "t < length ps" and step: "fork2_step ls t (ps ! t) s = Some r"
  from inv obtain p q ended out where
    ps: "ps = [p, q]" "s = (ended, out)" "fork2_inv ls [p, q] (ended, out)" by (rule fork2_invE)
  with t consider "t = 0" | "t = 1" by fastforce
  then show "\<exists>p s'. r = Inr (p, s') \<and> fork2_inv ls (ps[t := p]) s' \<and> fork2_left p < fork2_left (ps ! t)"
  proof cases
    case 1
    with ps step show ?thesis
      by (cases p) (auto simp: fork2_step_texts interleaved_def ex_bool_eq simp del: fork2_step.simps(1,3,4) split: if_splits)
  next
    case 2
    with ps step show ?thesis
      by (cases q) (auto simp: fork2_step_texts interleaved_def ex_bool_eq simp del: fork2_step.simps(1,3,4) split: if_splits)
  qed
next
  fix ps s u
  assume inv: "fork2_inv ls ps s" and u: "u < length ps" "ps ! u \<noteq> F2End"
  from inv obtain p q ended out where
    ps: "ps = [p, q]" "s = (ended, out)" "fork2_inv ls [p, q] (ended, out)" by (rule fork2_invE)
  with u have "\<not> (p = F2End \<and> q = F2End)" by (auto simp: less_Suc_eq)
  with ps(3) have "fork2_step ls 0 p s \<noteq> None \<or> fork2_step ls 1 q s \<noteq> None"
    unfolding ps(2) by (cases p; cases q) auto
  with ps(1) show "\<exists>t < length ps. fork2_step ls t (ps ! t) s \<noteq> None" by (auto simp: Ex_less_Suc2)
qed

text \<open>Whatever the order of the processes, the parent's last line comes after all of the child's output.\<close>

lemma fork2_waits:
  "always_ends (fork2_step ls) (\<lambda>p. p = F2End) 5
    (\<lambda>(ended, out). \<exists>out'. interleaved ls out' \<and> out = out' @ complete_text) ([F2Parent, F2Child], False, [])"
proof (rule fork2.ends_always)
  show "fork2_inv ls [F2Parent, F2Child] (False, [])" by simp
  show "fork2.total_work [F2Parent, F2Child] \<le> 5" by (simp add: fork2.total_work_def)
  fix ps :: "fork2_phase list" and s :: "bool \<times> string"
  assume e: "\<forall>p \<in> set ps. p = F2End" and inv: "fork2_inv ls ps s"
  from inv obtain p q ended out where
    "ps = [p, q]" "s = (ended, out)" "fork2_inv ls [p, q] (ended, out)" by (rule fork2_invE)
  with e show "case s of (ended, out) \<Rightarrow> \<exists>out'. interleaved ls out' \<and> out = out' @ complete_text" by auto
qed

section \<open>Stopping a child\<close>

definition numbers :: "nat \<Rightarrow> string list" where
  "numbers k = map (\<lambda>i. show_int (int i) @ [newline]) [1..<Suc k]"

lemma numbers_Suc: "numbers (Suc k) = numbers k @ [show_int (int k + 1) @ [newline]]"
  by (simp add: numbers_def add.commute)

definition child_ok :: "signal_phase \<Rightarrow> string list \<Rightarrow> bool" where
  "child_ok q out \<longleftrightarrow>
     (q = SChild \<or> q = SDead) \<and> out = [] \<or>
     (\<exists>k. q = SCount (int k) \<and> out = numbers k) \<or>
     (\<exists>k. q = SHandler \<and> out = numbers k) \<or>
     (\<exists>k. q = SEnd 0 \<and> out = numbers k @ [newline # ''Time to stop.'' @ [newline]])"

text \<open>
  The child of \<open>fork-signal.c\<close> prints the numbers from 1 on without a gap, and at the end, if the handler is
  called, the message; a child that gets the signal before it has installed the handler prints nothing.
\<close>

lemma signal_child_output:
  assumes "reaches signal_step signal_start (ps, s)"
  shows "\<exists>p q. ps = [p, q] \<and> child_ok q (sg_child_out s)"
proof -
  let ?inv = "\<lambda>ps s. \<exists>p q. ps = [p, q] \<and> p \<in> {SParent, SSleep, SKill, SEnd 0} \<and> child_ok q (sg_child_out s)"
  from assms obtain ts where run: "run_threads signal_step ts
      ([SParent, SChild], \<lparr>sg_pending = False, sg_parent_out = [], sg_child_out = []\<rparr>) = Some (Inr (ps, s))"
    by (auto simp: reaches_def signal_start_def)
  have child: "child_ok q' (sg_child_out s')" if "child_ok q (sg_child_out s)" "signal_step 1 q s = Some (Inr (q', s'))" for q q' s s'
  proof (cases q)
    case (SCount i)
    with that(1) obtain k where k: "i = int k" "sg_child_out s = numbers k" by (auto simp: child_ok_def)
    show ?thesis
    proof (cases "sg_pending s")
      case False
      then have "q' = SCount (int (Suc k))" "sg_child_out s' = numbers (Suc k)"
        using that(2) SCount k by (auto simp: numbers_Suc add.commute)
      then show ?thesis unfolding child_ok_def by blast
    qed (use that SCount k in \<open>auto simp: child_ok_def\<close>)
  qed (use that in \<open>auto simp: child_ok_def numbers_def split: if_splits\<close>)
  have "?inv ps s"
  proof (rule run_threads_inv [of ?inv, OF _ _ run])
    fix ps s t p' s'
    assume "?inv ps s" and "t < length ps" and "signal_step t (ps ! t) s = Some (Inr (p', s'))"
    then show "?inv (ps[t := p']) s'"
      using child [of _ s p' s'] by (auto simp: less_Suc_eq)
  qed (simp add: child_ok_def)
  then show ?thesis by blast
qed

lemma sleep_loop_forever: "sleep_loop seconds = None"
proof (cases "sleep_loop seconds")
  case (Some r)
  have False by (rule sleep_loop.raw_induct [OF _ Some]) blast
  then show ?thesis ..
qed

lemma sleepers_never_return: "snd (hello_pid_main pid ppid) = None \<and> snd (memory_main show_ptr code heap stack) = None"
  by (simp add: hello_pid_main_def memory_main_def sleep_loop_forever)

end
