(* ===== verification/Spec2Isabelle.thy ===== *)
theory Spec2Isabelle
  imports Scheduler_Compare Simulation_Pointers Memory_Printing Game_Client Server_Shutdown Linked_List Buffer_Shutdown Signal_Prime
    String_Helpers Race_Samples Semaphore_Samples Socket_Samples File_Samples Exercise_Samples
begin

text \<open>
  \<^bold>\<open>The programs.\<close> The repository has two larger programs and some smaller ones, all in C.

  \<^item> \<open>project1\<close> simulates a computer that schedules processes: \<open>simulation.c\<close> reads the options,
    \<open>process-data-file-parser.c\<close> the file of processes, \<open>process-scheduler.c\<close> runs them first
    come first serve or with three feedback queues, and \<open>memory-management.c\<close> keeps the holes of
    main memory and swaps process memories in and out.
  \<^item> \<open>project2\<close> is a Mastermind game over a network: \<open>server.c\<close> accepts clients and starts a thread
    for each, \<open>client.c\<close> is the player's side, \<open>secret-code.c\<close> has the rules,
    \<open>message-helpers.c\<close> sends and receives messages of fixed size (\<open>game-protocol.h\<close>),
    \<open>print-helpers.c\<close> and \<open>resource-usage.c\<close> serve the log.
  \<^item> \<open>workshop\<close> has a linked list, producers and consumers over a bounded buffer (with a mutex and
    with semaphores), a shell, a program that signals prime numbers to its child, one that
    prints the status of a file, and a login with a buffer that can overflow; under
    \<open>sample_code\<close> there are the samples of the course on threads, semaphores, sockets, files,
    processes and strings.

  \<^bold>\<open>Theories.\<close>

  \<^item> \<open>Prelude\<close>: errors as values (\<open>res\<close> is a sum with the errors of C on the left: an access
    out of bounds, the use of a value never written, a null pointer, an overflow of \<open>int\<close>, an exit), arrays
    with checked access, \<open>int\<close> with its range, lemmas on lists. \<open>C_Library\<close>: what is used of the
    C library (\<open>fgets\<close>, \<open>strtok\<close>, \<open>atoi\<close>, \<open>%d\<close>), and system calls in order.
  \<^item> \<open>Memory_Management\<close>, \<open>Memory_Holes\<close>, \<open>Memory_Swapping\<close> (\<open>memory-management.c\<close>): the
    operations; the contract of a set of holes as a locale; the invariant that process
    memories and holes tile main memory, kept by every operation; first fit; which process is
    swapped out; that swapping in and out restores the holes; the error for a process that is
    larger than memory.
  \<^item> \<open>Node_Heap\<close>: linked lists on a heap of nodes, with a predicate that says which list a heap
    holds and which nodes it has besides; the loops that search, insert, unlink and free. \<open>Memory_Pointers\<close>
    and \<open>Queue_Pointers\<close>: the functions of \<open>memory-management.c\<close> and \<open>process-scheduler.c\<close> that change links, with their
    pointers; each refines its model on lists. \<open>Parser_Pointers\<close>: the array of pointers to scheduled
    processes that \<open>process-data-file-parser.c\<close> makes and frees. \<open>Scheduler_Pointers\<close> and
    \<open>Runner_Pointers\<close>: the rest of \<open>process-scheduler.c\<close> over four heaps, from \<open>malloc\<close> for an
    arriving process to the freeing of all lists. A simulation carries over from one operation
    to a round, the loop and the runner, so that what is shown of the runners on lists holds
    of the linked structures. \<open>Simulation_Pointers\<close>: the whole program with its pointers prints
    what the program on lists prints, and in the end all heaps are empty.
    \<open>Memory_Printing\<close>: the functions that print the lists of process memories and of holes.
  \<^item> \<open>Process_Parser\<close> (\<open>process-data-file-parser.c\<close>): lines to processes, the growing array,
    and that reading inverts printing.
  \<^item> \<open>Process_Scheduler\<close>, \<open>Scheduler_Lemmas\<close>, \<open>Fcfs\<close>, \<open>Multi\<close>, \<open>Scheduler_Compare\<close>
    (\<open>process-scheduler.c\<close>): control blocks, queues and both runners. The first come first serve
    runner refines a schedule computed from the file alone; the feedback queue runner keeps an
    invariant in every round, dispatches by priority and completes; where all jobs are short both give the same result.
  \<^item> \<open>Simulation\<close> (\<open>simulation.c\<close>): the options, the printed text, and the recorded outputs.
  \<^item> \<open>Secret_Code\<close>, \<open>Message_Helpers\<close>, \<open>Game_Server\<close>, \<open>Game_Play\<close>: the rules against a
    definition by multisets; messages over connections given by what each system call does;
    the thread of one client against a reference game, and what holds of it over every
    connection.
  \<^item> \<open>Game_Accept\<close> (\<open>main\<close> of \<open>server.c\<close>): arguments, set-up, the accept loop and the threads as
    interleaved steps, with an invariant of the counters; the signal handler.
    \<open>Server_Shutdown\<close>: the handler with the mutexes it takes and destroys, interleaved with the
    threads; when the server can exit and when it hangs.
    \<open>Game_Client\<close> (\<open>client.c\<close>): the loop of the client, and a whole game between client and
    server thread. \<open>Log_Helpers\<close>: time stamps, addresses as machine words, the status file.
  \<^item> \<open>Linked_List\<close> (\<open>linked-list.c\<close>): a heap of nodes, with what each operation does to the
    represented list.
  \<^item> \<open>Bounded_Buffer\<close> and \<open>Semaphore_Buffer\<close> (\<open>producer-consumer-problem.c\<close> and \<open>-semaphore.c\<close>): the
    contract of a bounded queue as a locale, interpreted on the array; threads as steps;
    first in first out, absence of errors, and what happens on exit. \<open>Buffer_Shutdown\<close>: \<open>main\<close>
    joins the threads, and when it gets to its end. \<open>My_Shell\<close> (\<open>my-shell.c\<close>)
    and \<open>Signal_Prime\<close> (\<open>signal-prime-number.c\<close>).
  \<^item> \<open>Thread_Programs\<close>: threads over shared variables under a schedule, and a locale of what a
    program has to provide to run without errors and deadlocks and to end under every
    schedule. It is interpreted in \<open>Race_Samples\<close> (\<open>thread2.c\<close>, with the exact set of its
    results, \<open>no-race-mutex.c\<close>, \<open>thread1.c\<close>) and \<open>Semaphore_Samples\<close> (\<open>producer-consumer.c\<close>,
    \<open>semaphores.c\<close>).
  \<^item> \<open>String_Helpers\<close> (\<open>string-helper-functions.c\<close>): when the tokenizer works and how it fails.
    \<open>Socket_Samples\<close> (\<open>TCP1\<close>, \<open>TCP2\<close>, \<open>UDP\<close>): what arrives, depending on how the network cuts and
    merges messages. \<open>File_Samples\<close> (\<open>example-file.c\<close>, \<open>basicio.c\<close>, \<open>my-stat.c\<close>): the calls with
    every check and exit status, and that \<open>example-file.c\<close> removes what it makes.
    \<open>Exercise_Samples\<close> (\<open>badbuf.c\<close>, \<open>buggy.c\<close>, \<open>fork-1.c\<close>, \<open>fork-2.c\<close>, \<open>fork-signal.c\<close>,
    \<open>execute.c\<close>, \<open>helloWorld-pid.c\<close>, \<open>memory.c\<close>).

  \<^bold>\<open>Representation.\<close> A struct is a record, an enumeration a datatype, a linked list the list of
  its nodes (in \<open>Linked_List\<close> and the theories with pointers of \<open>project1\<close> a heap of nodes; of the
  struct of a list only its head is kept), a buffer a list of its allocated length. A
  file or the standard input is the list of the characters still to be read. A connection
  carries the outcome of each system call to come. Loops are recursive functions with a
  proof of termination; those that can run forever (the loops along pointers, the loops of server thread
  and client, the parent of \<open>signal-prime-number.c\<close>) are partial functions whose value \<open>None\<close> is running forever, and
  that they return where they should is proved. There is no fuel. Concurrent
  programs are step relations; the code between a lock and its unlock is one step, all
  orders of steps are considered.

  \<^bold>\<open>Parameters.\<close> Random numbers, the time, resource usage, what the system calls do, what the
  player types and how long a command runs are arguments of the definitions. So are the addresses \<open>malloc\<close>
  returns for scheduled processes, control blocks and memory segments, of which it is assumed that
  they are free, and the text that \<open>%p\<close> gives for an address;
  process memories, whose addresses are only compared, get increasing ones. For the samples, the
  operating system and the network are functions from a call to its result; what POSIX says
  of the names in a directory is one such function.

  \<^bold>\<open>Bounds.\<close> The properties of the runners assume 100 times the size of memory in the range
  of \<open>int\<close>, as the code computes a percentage, and times in this range; the constants of the code (ten guesses, forty clients, the
  sizes of buffers and messages, quanta) are kept.

  \<^bold>\<open>Not modelled.\<close> Failing \<open>malloc\<close> where the code exits at once (but not where it goes on),
  and commented-out test programs; the code behind \<open>pthread_exit\<close>, which is never executed; time stamps and addresses of single log lines of the game (the functions that print them are
  modelled); data races on variables that the code reads without a lock, which are read in
  one step. What happens after a write outside a buffer has no meaning in C: it is an error
  value, and the attack that \<open>badbuf\<close> invites is not modelled. The
  Python exercises call libraries for cryptography.
\<close>

end
